(* ===== verification/Prelude.thy ===== *)
theory Prelude
  imports Main "HOL-Library.AList" "HOL-Library.Multiset" "HOL-Library.Word"
begin

text \<open>
  The shared base of the development: names for the machine types, the association-list
  model of \<open>HashMap\<close>, results with an error message, decimal rendering, and the runs of
  an event-driven task. Nothing here is specific to one component.

  A Rust \<open>HashMap\<close> is an association list with distinct keys. The list order stands for
  the (unspecified) iteration order of the map; every theorem of the development holds for
  every order, so none depends on it.
\<close>

named_theorems hm_simps \<open>rewrites of the hash map operations\<close>
named_theorems exactly_once \<open>each waiting caller is answered exactly once\<close>

type_synonym u8 = "8 word"
type_synonym u16 = "16 word"
type_synonym u64 = "64 word"

text \<open>A byte sequence; a Rust \<open>String\<close> is the byte sequence of its UTF-8 encoding.\<close>
type_synonym bytes = string

text \<open>\<open>anyhow::Result\<close> and \<open>Result<T, String>\<close>: \<open>Inl\<close> carries the rendered error.\<close>
type_synonym 'a res = "string + 'a"

definition map_err :: "('e \<Rightarrow> 'f) \<Rightarrow> 'e + 'a \<Rightarrow> 'f + 'a" where
  "map_err f r = (case r of Inl e \<Rightarrow> Inl (f e) | Inr x \<Rightarrow> Inr x)"

lemma map_err_simps [simp]:
  "map_err f (Inl e) = Inl (f e)"
  "map_err f (Inr x) = Inr x"
  by (simp_all add: map_err_def)

lemma map_err_Inr_iff [simp]: "map_err f r = Inr x \<longleftrightarrow> r = Inr x"
  by (cases r) simp_all

text \<open>\<open>usize\<close> is 64 bits on the deployed targets; lengths and caps are natural numbers.\<close>
definition usize_max :: nat where
  "usize_max = 2 ^ 64 - 1"

subsection \<open>Saturating arithmetic\<close>

definition sat_add_u64 :: "u64 \<Rightarrow> u64 \<Rightarrow> u64" where
  "sat_add_u64 a b = (if a > - 1 - b then - 1 else a + b)"

lemma max_u64_unat: "unat (- 1 :: u64) = 2 ^ 64 - 1"
  by (simp add: unsigned_minus_1_eq_mask mask_eq_exp_minus_1)

lemma unat_sat_add_u64: "unat (sat_add_u64 a b) = min (unat a + unat b) (2 ^ 64 - 1)"
proof -
  have m: "unat (- 1 - b) = 2 ^ 64 - 1 - unat b"
    using max_u64_unat by (metis unat_sub word_order.extremum)
  show ?thesis
  proof (cases "a > - 1 - b")
    case True
    then have "unat a > 2 ^ 64 - 1 - unat b" using m by (simp add: word_less_nat_alt)
    then show ?thesis using True max_u64_unat by (simp add: sat_add_u64_def)
  next
    case False
    then have le: "unat a \<le> 2 ^ 64 - 1 - unat b" using m by (simp add: word_le_nat_alt not_less)
    have "unat b \<le> 2 ^ 64 - 1"
      using word_order.extremum[of b] max_u64_unat by (simp add: word_le_nat_alt)
    then have lt: "unat a + unat b \<le> 2 ^ 64 - 1" using le by linarith
    then have "unat (a + b) = unat a + unat b"
      by (subst unat_add_lem [THEN iffD1]) simp_all
    then show ?thesis using False lt by (simp add: sat_add_u64_def)
  qed
qed

subsection \<open>Decimal rendering of unsigned integers\<close>

fun dec :: "nat \<Rightarrow> string" where
  "dec n = (if n < 10 then [char_of (48 + n)] else dec (n div 10) @ [char_of (48 + n mod 10)])"

declare dec.simps [simp del]

lemma dec_nonempty [simp]: "dec n \<noteq> []"
  by (subst dec.simps) simp

subsection \<open>Hash maps\<close>

type_synonym ('k, 'v) hashmap = "('k \<times> 'v) list"

abbreviation hm_ok :: "('k, 'v) hashmap \<Rightarrow> bool" where
  "hm_ok m \<equiv> distinct (map fst m)"

definition hm_get :: "('k, 'v) hashmap \<Rightarrow> 'k \<Rightarrow> 'v option" where
  "hm_get m k = map_of m k"

definition hm_insert :: "'k \<Rightarrow> 'v \<Rightarrow> ('k, 'v) hashmap \<Rightarrow> ('k, 'v) hashmap" where
  "hm_insert k v m = AList.update k v m"

definition hm_delete :: "'k \<Rightarrow> ('k, 'v) hashmap \<Rightarrow> ('k, 'v) hashmap" where
  "hm_delete k m = AList.delete k m"

lemma hm_get_Nil [simp, hm_simps]: "hm_get [] k = None"
  by (simp add: hm_get_def)

lemma hm_get_Cons [simp, hm_simps]: "hm_get (p # m) k = (if fst p = k then Some (snd p) else hm_get m k)"
  by (cases p) (simp add: hm_get_def)

lemma hm_get_insert [simp, hm_simps]: "hm_get (hm_insert k v m) j = (if j = k then Some v else hm_get m j)"
  by (simp add: hm_get_def hm_insert_def update_conv')

lemma hm_get_delete [simp, hm_simps]: "hm_get (hm_delete k m) j = (if j = k then None else hm_get m j)"
  by (simp add: hm_get_def hm_delete_def delete_conv')

lemma hm_delete_Nil [simp, hm_simps]: "hm_delete k [] = []"
  by (simp add: hm_delete_def)

lemma hm_delete_Cons [simp, hm_simps]:
  "hm_delete k (p # m) = (if fst p = k then hm_delete k m else p # hm_delete k m)"
  by (cases p) (simp add: hm_delete_def)

lemma hm_ok_insert [simp, intro]: "hm_ok m \<Longrightarrow> hm_ok (hm_insert k v m)"
  by (simp add: hm_insert_def distinct_update)

lemma hm_ok_delete [simp, intro]: "hm_ok m \<Longrightarrow> hm_ok (hm_delete k m)"
  by (simp add: hm_delete_def distinct_delete)

lemma hm_keys_insert [simp]: "fst ` set (hm_insert k v m) = insert k (fst ` set m)"
  by (simp add: hm_insert_def dom_update)

lemma hm_keys_delete [simp]: "fst ` set (hm_delete k m) = fst ` set m - {k}"
  by (induction m) auto

lemma hm_delete_absent: "k \<notin> fst ` set m \<Longrightarrow> hm_delete k m = m"
  by (simp add: hm_delete_def)

lemma hm_insert_absent: "k \<notin> fst ` set m \<Longrightarrow> hm_insert k v m = m @ [(k, v)]"
  by (induction m) (auto simp: hm_insert_def)

lemma hm_get_None_iff: "hm_get m k = None \<longleftrightarrow> k \<notin> fst ` set m"
  by (simp add: hm_get_def map_of_eq_None_iff)

lemma hm_get_SomeD: "hm_get m k = Some v \<Longrightarrow> (k, v) \<in> set m"
  by (simp add: hm_get_def map_of_SomeD)

lemma hm_get_keys: "hm_get m k = Some v \<Longrightarrow> k \<in> fst ` set m"
  by (force dest: hm_get_SomeD)

lemma map_keys_cong:
  "(\<And>k v. k \<in> fst ` set m \<Longrightarrow> f (k, v) = g (k, v)) \<Longrightarrow> map f m = map g m"
  by force

text \<open>Removing a present key takes exactly its entry out.\<close>

lemma mset_hm_delete:
  "hm_ok m \<Longrightarrow> hm_get m k = Some v \<Longrightarrow> mset m = add_mset (k, v) (mset (hm_delete k m))"
proof (induction m)
  case Nil
  then show ?case by simp
next
  case (Cons p m)
  then show ?case by (cases p) (auto simp: hm_delete_absent)
qed

lemma mset_hm_insert_absent:
  "k \<notin> fst ` set m \<Longrightarrow> mset (hm_insert k v m) = add_mset (k, v) (mset m)"
  by (simp add: hm_insert_absent)

lemma length_hm_delete:
  "hm_ok m \<Longrightarrow> hm_get m k = Some v \<Longrightarrow> length m = Suc (length (hm_delete k m))"
  using mset_hm_delete[of m k v] by (metis size_add_mset size_mset)

subsection \<open>Runs of an event-driven task\<close>

text \<open>
  A task is a partial step function: \<open>None\<close> means that the event cannot occur in the state.
  \<open>run\<close> feeds it a sequence of events and collects its outputs in order.
\<close>

fun run :: "('s \<Rightarrow> 'e \<Rightarrow> ('s \<times> 'o list) option) \<Rightarrow> 's \<Rightarrow> 'e list \<Rightarrow> ('s \<times> 'o list) option" where
  "run step s [] = Some (s, [])"
| "run step s (e # es) =
     (case step s e of
        None \<Rightarrow> None
      | Some (s', os) \<Rightarrow>
          (case run step s' es of
             None \<Rightarrow> None
           | Some (s'', os') \<Rightarrow> Some (s'', os @ os')))"

lemma run_ConsE:
  assumes "run step s (e # es) = Some (t, os)"
  obtains s' o1 o2 where "step s e = Some (s', o1)" "run step s' es = Some (t, o2)" "os = o1 @ o2"
  using assms by (auto split: option.splits prod.splits)

lemma run_invariant:
  assumes step: "\<And>s e s' os. I s \<Longrightarrow> step s e = Some (s', os) \<Longrightarrow> I s' \<and> (\<forall>x \<in> set os. P x)"
  shows "I s \<Longrightarrow> run step s es = Some (t, os) \<Longrightarrow> I t \<and> (\<forall>x \<in> set os. P x)"
proof (induction es arbitrary: s os)
  case Nil
  then show ?case by simp
next
  case (Cons e es)
  from Cons.prems(2) obtain s' o1 o2 where
    1: "step s e = Some (s', o1)" and 2: "run step s' es = Some (t, o2)" and 3: "os = o1 @ o2"
    by (rule run_ConsE)
  from step [OF Cons.prems(1) 1] have "I s'" and "\<forall>x \<in> set o1. P x" by auto
  with Cons.IH [OF _ 2] 3 show ?case by auto
qed

lemma run_append:
  "run step s (es @ fs) =
     (case run step s es of
        None \<Rightarrow> None
      | Some (s', os) \<Rightarrow>
          (case run step s' fs of None \<Rightarrow> None | Some (t, os') \<Rightarrow> Some (t, os @ os')))"
proof (induction es arbitrary: s)
  case Nil
  then show ?case by (simp split: option.splits prod.splits)
next
  case (Cons e es)
  show ?case by (auto simp: Cons.IH split: option.splits prod.splits)
qed

text \<open>A run on concrete events is evaluated step by step.\<close>

lemma run_exists:
  "(case run step s es of Some (t, os) \<Rightarrow> P t os | None \<Rightarrow> False) \<Longrightarrow> \<exists>t os. run step s es = Some (t, os) \<and> P t os"
  by (auto split: option.splits)

text \<open>The same with an invariant that may refer to the events of the run.\<close>

lemma run_invariant_events:
  assumes step: "\<And>s e s' os. e \<in> E \<Longrightarrow> I s \<Longrightarrow> step s e = Some (s', os) \<Longrightarrow> I s' \<and> (\<forall>x \<in> set os. P x)"
  shows "set es \<subseteq> E \<Longrightarrow> I s \<Longrightarrow> run step s es = Some (t, os) \<Longrightarrow> I t \<and> (\<forall>x \<in> set os. P x)"
proof (induction es arbitrary: s os)
  case Nil
  then show ?case by simp
next
  case (Cons e es)
  from Cons.prems(3) obtain s' o1 o2 where
    1: "step s e = Some (s', o1)" and 2: "run step s' es = Some (t, o2)" and 3: "os = o1 @ o2"
    by (rule run_ConsE)
  from step [OF _ Cons.prems(2) 1] Cons.prems(1) have "I s'" and "\<forall>x \<in> set o1. P x" by auto
  with Cons.IH [OF _ _ 2] Cons.prems(1) 3 show ?case by auto
qed

text \<open>A count over the outputs that each step balances with a count over the state.\<close>

lemma run_tally:
  fixes d :: "'s \<Rightarrow> nat"
  assumes step: "\<And>s e s' os. step s e = Some (s', os) \<Longrightarrow> c os + d s = d s'"
    and "c [] = 0" "\<And>a b. c (a @ b) = c a + c b"
  shows "run step s es = Some (t, os) \<Longrightarrow> c os + d s = d t"
proof (induction es arbitrary: s os)
  case Nil
  then show ?case by (simp add: assms(2))
next
  case (Cons e es)
  from Cons.prems obtain s' o1 o2 where
    1: "step s e = Some (s', o1)" and 2: "run step s' es = Some (t, o2)" and 3: "os = o1 @ o2"
    by (rule run_ConsE)
  show ?case using step [OF 1] Cons.IH [OF 2] by (simp add: 3 assms(3))
qed

text \<open>Counting the elements of a list when one is replaced.\<close>

lemma length_filter_update:
  "i < length xs \<Longrightarrow> length (filter P (xs[i := y])) + of_bool (P (xs ! i)) = length (filter P xs) + of_bool (P y)"
proof (induction xs arbitrary: i)
  case Nil
  then show ?case by simp
next
  case (Cons x xs)
  then show ?case by (cases i) auto
qed


end
