(* ===== verification/Float64.thy ===== *)
theory Float64
  imports Prelude Complex_Main
begin

text \<open>
  Rust's \<open>f64\<close>: the finite IEEE 754 binary64 values as rationals, the two infinities and
  NaN. Arithmetic is the exact rational result rounded to nearest, ties to even, with gradual
  underflow and overflow to infinity. The two zeros are one value here: no operation of the
  sources can tell them apart. Everything computes, so a concrete value can be evaluated.
\<close>

datatype f64 = NaN | PInf | NInf | Fin rat

subsection \<open>Rounding to nearest even\<close>

fun lg :: "nat \<Rightarrow> nat" where
  "lg n = (if n < 2 then 0 else Suc (lg (n div 2)))"

declare lg.simps [simp del]

lemma lg_bounds: "0 < n \<Longrightarrow> 2 ^ lg n \<le> n \<and> n < 2 ^ Suc (lg n)"
proof (induction n rule: lg.induct)
  case (1 n)
  show ?case
  proof (cases "n < 2")
    case True
    then show ?thesis using "1.prems" by (subst (1 2) lg.simps) simp
  next
    case False
    then have "2 ^ lg (n div 2) \<le> n div 2 \<and> n div 2 < 2 ^ Suc (lg (n div 2))"
      by (intro "1.IH") auto
    then have "2 ^ Suc (lg (n div 2)) \<le> n \<and> n < 2 ^ Suc (Suc (lg (n div 2)))" by auto
    moreover have "lg n = Suc (lg (n div 2))" using False by (subst lg.simps) simp
    ultimately show ?thesis by simp
  qed
qed

definition pow2 :: "int \<Rightarrow> rat" where
  "pow2 e = (if 0 \<le> e then 2 ^ nat e else 1 / 2 ^ nat (- e))"

lemma pow2_pos [simp]: "0 < pow2 e"
  by (simp add: pow2_def)

text \<open>\<open>floor (log2 x)\<close> for a positive rational.\<close>

definition exponent :: "rat \<Rightarrow> int" where
  "exponent x = (if 1 \<le> x then int (lg (nat \<lfloor>x\<rfloor>)) else - int (Suc (lg (nat (\<lceil>1 / x\<rceil> - 1)))))"

definition round_half_even :: "rat \<Rightarrow> int" where
  "round_half_even x =
     (let f = \<lfloor>x\<rfloor>; d = x - of_int f in
      if d < 1 / 2 then f else if 1 / 2 < d then f + 1 else if even f then f else f + 1)"

lemma round_half_even_int [simp]: "round_half_even (of_int n) = n"
  by (simp add: round_half_even_def)

definition rnd_pos :: "rat \<Rightarrow> f64" where
  "rnd_pos x =
     (let q = pow2 (max (exponent x) (- 1022) - 52);
          y = of_int (round_half_even (x / q)) * q
      in if 2 ^ 1024 \<le> y then PInf else Fin y)"

definition f_neg :: "f64 \<Rightarrow> f64" where
  "f_neg a = (case a of NaN \<Rightarrow> NaN | PInf \<Rightarrow> NInf | NInf \<Rightarrow> PInf | Fin x \<Rightarrow> Fin (- x))"

definition rnd :: "rat \<Rightarrow> f64" where
  "rnd x = (if x = 0 then Fin 0 else if 0 < x then rnd_pos x else f_neg (rnd_pos (- x)))"

text \<open>Every integer up to \<open>2 ^ 53\<close> is a binary64 value.\<close>

lemma exponent_nat:
  assumes "0 < n"
  shows "exponent (of_nat n) = int (lg n)"
  using assms by (simp add: exponent_def)

lemma rnd_nat_exact:
  assumes "n \<le> 2 ^ 53"
  shows "rnd (of_nat n) = Fin (of_nat n)"
proof (cases "n = 0")
  case True
  then show ?thesis by (simp add: rnd_def)
next
  case False
  then have pos: "0 < n" by simp
  have b: "2 ^ lg n \<le> n" "n < 2 ^ Suc (lg n)" using lg_bounds [OF pos] by auto
  have l: "(2::nat) ^ lg n \<le> 2 ^ 53" using b(1) assms by (rule order_trans)
  have l53: "lg n \<le> 53" by (rule power_le_imp_le_exp [OF _ l]) simp
  let ?q = "pow2 (max (exponent (of_nat n)) (- 1022) - 52)"
  have mx: "max (exponent (of_nat n)) (- 1022) - 52 = int (lg n) - 52"
    using exponent_nat [OF pos] by simp
  obtain k :: int where k: "(of_nat n :: rat) / ?q = of_int k"
  proof (cases "lg n = 53")
    case True
    then have n: "n = 2 ^ 53" using b(1) assms by simp
    have "?q = 2" using mx True by (simp add: pow2_def)
    then have "(of_nat n :: rat) / ?q = of_int (2 ^ 52)" using n by simp
    then show ?thesis by (rule that)
  next
    case False
    then have le: "lg n \<le> 52" using l53 by simp
    have "?q = 1 / 2 ^ (52 - lg n)"
      unfolding mx pow2_def using le by (cases "lg n = 52") (auto simp: nat_diff_distrib')
    then have "(of_nat n :: rat) / ?q = of_int (int n * 2 ^ (52 - lg n))" by simp
    then show ?thesis by (rule that)
  qed
  have q0: "?q \<noteq> 0" using pow2_pos [of "max (exponent (of_nat n)) (- 1022) - 52"] by linarith
  have y: "of_int (round_half_even ((of_nat n :: rat) / ?q)) * ?q = of_nat n"
    unfolding k round_half_even_int using k q0 by (simp add: field_simps)
  have "(of_nat n :: rat) \<le> of_nat (2 ^ 53)" using assms by (rule of_nat_mono)
  then have "(of_nat n :: rat) < 2 ^ 1024" by (rule le_less_trans) simp
  then show ?thesis using pos y by (simp add: rnd_def rnd_pos_def Let_def)
qed

text \<open>Rounding stays between integers that are themselves binary64 values.\<close>

lemma round_half_even_le: "x \<le> of_int n \<Longrightarrow> round_half_even x \<le> n"
  by (auto simp: round_half_even_def Let_def) linarith+

lemma round_half_even_ge: "of_int m \<le> x \<Longrightarrow> m \<le> round_half_even x"
proof -
  assume "of_int m \<le> x"
  then have "m \<le> \<lfloor>x\<rfloor>" by (simp add: le_floor_iff)
  then show ?thesis by (simp add: round_half_even_def Let_def)
qed

lemma exponent_le_52:
  assumes "x < 2 ^ 53"
  shows "exponent x \<le> 52"
proof (cases "1 \<le> x")
  case True
  then have p: "0 < nat \<lfloor>x\<rfloor>" by simp
  have "(2::nat) ^ lg (nat \<lfloor>x\<rfloor>) \<le> nat \<lfloor>x\<rfloor>" using lg_bounds [OF p] by simp
  moreover have "nat \<lfloor>x\<rfloor> < 2 ^ 53" using assms p by (simp add: nat_less_iff floor_less_iff)
  ultimately have "(2::nat) ^ lg (nat \<lfloor>x\<rfloor>) < 2 ^ 53" by (rule le_less_trans)
  then have "lg (nat \<lfloor>x\<rfloor>) < 53" by (rule power_less_imp_less_exp [rotated]) simp
  then show ?thesis using True by (simp add: exponent_def)
qed (simp add: exponent_def)

lemma rnd_between:
  assumes x: "0 < x" "of_nat m \<le> x" "x \<le> of_nat n" and n: "n \<le> 2 ^ 53"
  obtains y where "rnd x = Fin y" "of_nat m \<le> y" "y \<le> of_nat n"
proof (cases "x = of_nat n")
  case True
  then show ?thesis using rnd_nat_exact [OF n] x(2) by (intro that) auto
next
  case False
  have "(of_nat n :: rat) \<le> of_nat (2 ^ 53)" using n by (rule of_nat_mono)
  then have lt: "x < 2 ^ 53" and n1024: "(of_nat n :: rat) < 2 ^ 1024"
    using False x(3) by (auto intro: le_less_trans)
  let ?e = "max (exponent x) (- 1022) - 52"
  have e0: "?e \<le> 0" using exponent_le_52 [OF lt] by simp
  let ?k = "nat (- ?e)"
  have q: "pow2 ?e = 1 / 2 ^ ?k" using e0 by (auto simp: pow2_def)
  let ?y = "of_int (round_half_even (x / pow2 ?e)) * pow2 ?e"
  have "x / pow2 ?e \<le> of_int (int n * 2 ^ ?k)" unfolding q using x(3) by (simp add: mult_right_mono)
  from of_int_le_iff [where 'a = rat, THEN iffD2, OF round_half_even_le [OF this]]
  have hi: "?y \<le> of_nat n" unfolding q by (simp add: field_simps)
  have "of_int (int m * 2 ^ ?k) \<le> x / pow2 ?e" unfolding q using x(2) by (simp add: mult_right_mono)
  from of_int_le_iff [where 'a = rat, THEN iffD2, OF round_half_even_ge [OF this]]
  have lo: "of_nat m \<le> ?y" unfolding q by (simp add: field_simps)
  have "rnd x = Fin ?y" using x(1) hi n1024 by (simp add: rnd_def rnd_pos_def Let_def)
  then show ?thesis using lo hi by (rule that)
qed

subsection \<open>Comparison\<close>

text \<open>Every comparison with NaN is false.\<close>

instantiation f64 :: ord
begin

definition less_f64 :: "f64 \<Rightarrow> f64 \<Rightarrow> bool" where
  "less_f64 a b =
     (case (a, b) of
        (Fin x, Fin y) \<Rightarrow> x < y
      | (NaN, _) \<Rightarrow> False | (_, NaN) \<Rightarrow> False
      | (NInf, NInf) \<Rightarrow> False | (NInf, _) \<Rightarrow> True
      | (_, PInf) \<Rightarrow> a \<noteq> PInf
      | _ \<Rightarrow> False)"

definition less_eq_f64 :: "f64 \<Rightarrow> f64 \<Rightarrow> bool" where
  "less_eq_f64 a b \<longleftrightarrow> a < b \<or> (a = b \<and> a \<noteq> NaN)"

instance ..

end

lemma f64_less_simps [simp]:
  "Fin x < Fin y \<longleftrightarrow> x < y"
  "\<not> NaN < b" "\<not> a < NaN" "\<not> a < NInf" "\<not> PInf < b"
  "NInf < Fin y" "NInf < PInf" "Fin x < PInf"
  by (auto simp: less_f64_def split: f64.splits)

lemma f64_le_simps [simp]:
  "Fin x \<le> Fin y \<longleftrightarrow> x \<le> y"
  "\<not> NaN \<le> b" "\<not> a \<le> NaN"
  "NInf \<le> Fin y" "Fin x \<le> PInf" "NInf \<le> PInf" "\<not> PInf \<le> Fin y" "\<not> Fin x \<le> NInf"
  by (auto simp: less_eq_f64_def)

subsection \<open>Arithmetic\<close>

definition f_add :: "f64 \<Rightarrow> f64 \<Rightarrow> f64" where
  "f_add a b =
     (case (a, b) of
        (NaN, _) \<Rightarrow> NaN | (_, NaN) \<Rightarrow> NaN
      | (PInf, NInf) \<Rightarrow> NaN | (NInf, PInf) \<Rightarrow> NaN
      | (PInf, _) \<Rightarrow> PInf | (_, PInf) \<Rightarrow> PInf
      | (NInf, _) \<Rightarrow> NInf | (_, NInf) \<Rightarrow> NInf
      | (Fin x, Fin y) \<Rightarrow> rnd (x + y))"

definition f_sub :: "f64 \<Rightarrow> f64 \<Rightarrow> f64" where
  "f_sub a b = f_add a (f_neg b)"

definition f_inf :: "bool \<Rightarrow> f64" where
  "f_inf negative = (if negative then NInf else PInf)"

definition f_sgn_neg :: "f64 \<Rightarrow> bool" where
  "f_sgn_neg a \<longleftrightarrow> (case a of NInf \<Rightarrow> True | Fin x \<Rightarrow> x < 0 | _ \<Rightarrow> False)"

definition f_mul :: "f64 \<Rightarrow> f64 \<Rightarrow> f64" where
  "f_mul a b =
     (case (a, b) of
        (NaN, _) \<Rightarrow> NaN | (_, NaN) \<Rightarrow> NaN
      | (Fin x, Fin y) \<Rightarrow> rnd (x * y)
      | _ \<Rightarrow> if a = Fin 0 \<or> b = Fin 0 then NaN else f_inf (f_sgn_neg a \<noteq> f_sgn_neg b))"

text \<open>Division; a zero divisor counts as the positive zero.\<close>

definition f_div :: "f64 \<Rightarrow> f64 \<Rightarrow> f64" where
  "f_div a b =
     (case (a, b) of
        (NaN, _) \<Rightarrow> NaN | (_, NaN) \<Rightarrow> NaN
      | (Fin x, Fin y) \<Rightarrow>
          if y = 0 then (if x = 0 then NaN else f_inf (x < 0)) else rnd (x / y)
      | (Fin x, _) \<Rightarrow> Fin 0
      | (_, Fin y) \<Rightarrow> f_inf (f_sgn_neg a \<noteq> (y < 0))
      | _ \<Rightarrow> NaN)"

definition f_is_finite :: "f64 \<Rightarrow> bool" where
  "f_is_finite a \<longleftrightarrow> (case a of Fin _ \<Rightarrow> True | _ \<Rightarrow> False)"

lemma f_is_finite_simps [simp]:
  "f_is_finite (Fin x)" "\<not> f_is_finite NaN" "\<not> f_is_finite PInf" "\<not> f_is_finite NInf"
  by (simp_all add: f_is_finite_def)

text \<open>\<open>f64::max\<close> and \<open>f64::min\<close> ignore a NaN argument.\<close>

definition f_max :: "f64 \<Rightarrow> f64 \<Rightarrow> f64" where
  "f_max a b = (if a = NaN then b else if b = NaN then a else if a < b then b else a)"

definition f_min :: "f64 \<Rightarrow> f64 \<Rightarrow> f64" where
  "f_min a b = (if a = NaN then b else if b = NaN then a else if b < a then b else a)"

text \<open>\<open>round\<close> (half away from zero) and \<open>trunc\<close>: their results are always representable.\<close>

definition round_rat :: "rat \<Rightarrow> int" where
  "round_rat x = (if 0 \<le> x then \<lfloor>x + 1 / 2\<rfloor> else - \<lfloor>- x + 1 / 2\<rfloor>)"

definition trunc_rat :: "rat \<Rightarrow> int" where
  "trunc_rat x = (if 0 \<le> x then \<lfloor>x\<rfloor> else \<lceil>x\<rceil>)"

definition f_round :: "f64 \<Rightarrow> f64" where
  "f_round a = (case a of Fin x \<Rightarrow> Fin (of_int (round_rat x)) | _ \<Rightarrow> a)"

definition f_trunc :: "f64 \<Rightarrow> f64" where
  "f_trunc a = (case a of Fin x \<Rightarrow> Fin (of_int (trunc_rat x)) | _ \<Rightarrow> a)"

text \<open>\<open>f64::clamp\<close> on bounds with \<open>lo \<le> hi\<close>; NaN stays NaN.\<close>

definition f_clamp :: "f64 \<Rightarrow> f64 \<Rightarrow> f64 \<Rightarrow> f64" where
  "f_clamp a lo hi = (let b = (if a < lo then lo else a) in if hi < b then hi else b)"

text \<open>\<open>as u64\<close>: truncation, saturating at both ends, with NaN going to 0.\<close>

definition f_as_u64 :: "f64 \<Rightarrow> u64" where
  "f_as_u64 a =
     (case a of
        NaN \<Rightarrow> 0 | NInf \<Rightarrow> 0 | PInf \<Rightarrow> - 1
      | Fin x \<Rightarrow> if x \<le> 0 then 0
                 else if 2 ^ 64 - 1 \<le> trunc_rat x then - 1 else of_int (trunc_rat x))"

definition f_of_nat :: "nat \<Rightarrow> f64" where
  "f_of_nat n = rnd (of_nat n)"

definition f_of_u64 :: "u64 \<Rightarrow> f64" where
  "f_of_u64 w = f_of_nat (unat w)"

definition f_of_int :: "int \<Rightarrow> f64" where
  "f_of_int i = rnd (of_int i)"

definition f_fract_zero :: "f64 \<Rightarrow> bool" where
  "f_fract_zero a \<longleftrightarrow> (case a of Fin x \<Rightarrow> x = of_int (trunc_rat x) | _ \<Rightarrow> False)"

lemma f_of_nat_exact [simp]: "n \<le> 2 ^ 53 \<Longrightarrow> f_of_nat n = Fin (of_nat n)"
  by (simp add: f_of_nat_def rnd_nat_exact)

lemma trunc_rat_of_int [simp]: "trunc_rat (of_int i) = i"
  by (simp add: trunc_rat_def)

lemma round_rat_of_int [simp]: "round_rat (of_int i) = i"
proof -
  have "\<lfloor>of_int j + 1 / 2 :: rat\<rfloor> = j" for j
    by (rule floor_unique) auto
  from this [of i] this [of "- i"] show ?thesis by (simp add: round_rat_def)
qed

lemma unat_of_int_u64: "0 \<le> i \<Longrightarrow> i < 2 ^ 64 \<Longrightarrow> unat (of_int i :: u64) = nat i"
proof -
  assume i: "0 \<le> i" "i < 2 ^ 64"
  have "uint (of_int i :: u64) = i mod 2 ^ 64" by (simp add: uint_word_of_int)
  also have "\<dots> = i" using i by (rule mod_pos_pos_trivial)
  finally show ?thesis by (simp only: unat_eq_nat_uint)
qed

lemma f_as_u64_of_int:
  assumes i: "0 \<le> i" "i < 2 ^ 64"
  shows "unat (f_as_u64 (Fin (of_int i))) = nat i"
proof -
  consider "i = 0" | "0 < i" "i < 2 ^ 64 - 1" | "i = 2 ^ 64 - 1" using i by linarith
  then show ?thesis
  proof cases
    case 2
    then have "f_as_u64 (Fin (of_int i)) = of_int i" by (simp add: f_as_u64_def)
    then show ?thesis using unat_of_int_u64 [OF i] by simp
  next
    case 3
    then have "f_as_u64 (Fin (of_int i)) = - 1" by (simp add: f_as_u64_def trunc_rat_def)
    then show ?thesis using 3 max_u64_unat by simp
  qed (simp add: f_as_u64_def)
qed

lemma f_clamp_int:
  "m \<le> n \<Longrightarrow> f_clamp (Fin (of_int i)) (Fin (of_int m)) (Fin (of_int n))
     = Fin (of_int (min n (max m i)))"
  by (auto simp: f_clamp_def min_def max_def not_less)

text \<open>
  The common tail of both wait computations, \<open>x.round().clamp(lo, hi).trunc() as u64\<close>: between
  the bounds, unless \<open>x\<close> is NaN, when it is 0.
\<close>

lemma clamp_round_int:
  assumes "m \<le> n" and "a \<noteq> NaN"
  obtains i where "f_clamp (f_round a) (Fin (of_int m)) (Fin (of_int n)) = Fin (of_int i)"
    and "m \<le> i" and "i \<le> n"
proof (cases a)
  case (Fin x)
  show ?thesis
    by (rule that [of "min n (max m (round_rat x))"])
       (use assms(1) in \<open>auto simp: Fin f_round_def f_clamp_int\<close>)
next
  case PInf
  show ?thesis
    by (rule that [of n]) (use assms(1) in \<open>auto simp: PInf f_round_def f_clamp_def\<close>)
next
  case NInf
  show ?thesis
    by (rule that [of m]) (use assms(1) in \<open>auto simp: NInf f_round_def f_clamp_def\<close>)
qed (use assms in simp)

lemma clamp_as_u64_bounds:
  assumes mn: "m \<le> n" and n: "n \<le> 2 ^ 53"
  shows "unat (f_as_u64 (f_trunc (f_clamp (f_round a) (f_of_nat m) (f_of_nat n)))) \<le> n \<and>
     (a \<noteq> NaN \<longrightarrow> m \<le> unat (f_as_u64 (f_trunc (f_clamp (f_round a) (f_of_nat m) (f_of_nat n)))))"
proof (cases "a = NaN")
  case True
  then show ?thesis by (simp add: f_round_def f_clamp_def f_trunc_def f_as_u64_def)
next
  case False
  have e: "f_of_nat m = Fin (of_int (int m))" "f_of_nat n = Fin (of_int (int n))"
    using mn n by simp_all
  from mn have "int m \<le> int n" by simp
  from clamp_round_int [OF this False] obtain i where
    i: "f_clamp (f_round a) (f_of_nat m) (f_of_nat n) = Fin (of_int i)" "int m \<le> i" "i \<le> int n"
    unfolding e by blast
  have "i < 2 ^ 64" using i(3) n by auto
  then have "unat (f_as_u64 (Fin (of_int i))) = nat i" using i(2) by (intro f_as_u64_of_int) auto
  with i show ?thesis by (auto simp: f_trunc_def)
qed

end
