(* ===== verification/Spec_Types.thy ===== *)
theory Spec_Types
  imports Prelude Float64
begin

text \<open>
  The configuration data of \<open>gateway/src/spec.rs\<close>: the parsed operations, the resolved
  per-operation configuration and the outcome of route matching. An HTTP method is its
  \<open>as_str\<close> rendering. A \<open>BTreeMap\<close> is its list of entries in key order.
\<close>

type_synonym http_method = string

datatype invoke_mode = Buffered | ResponseStream

record dynamic_wait_config =
  dw_min_wait_ms :: u64
  dw_target_rps :: f64
  dw_steepness :: f64
  dw_sampling_interval_ms :: u64
  dw_smoothing_samples :: nat

record duration_wait_config =
  du_fraction :: f64
  du_min_wait_ms :: u64
  du_probe_interval_ms :: u64
  du_probe_jitter_ms :: u64
  du_smoothing_samples :: nat
  du_warmup_probes :: nat

record khone_operation_config =
  kh_max_wait_ms :: u64
  kh_max_batch_size :: nat
  kh_key :: "string list"
  kh_timeout_ms :: "u64 option"
  kh_invoke_mode :: invoke_mode
  kh_profiling :: bool
  kh_dynamic_wait :: "dynamic_wait_config option"
  kh_duration_wait :: "duration_wait_config option"

datatype batch_key_dimension = HeaderDim string | QueryDim string

record operation =
  opn_operation_id :: "string option"
  opn_target_lambda :: string
  opn_khone :: khone_operation_config

record path_item =
  pi_get :: "operation option"
  pi_post :: "operation option"
  pi_put :: "operation option"
  pi_delete :: "operation option"
  pi_patch :: "operation option"
  pi_head :: "operation option"
  pi_options :: "operation option"

record openapi_like_spec =
  paths :: "(string \<times> path_item) list"

record operation_config =
  oc_route_template :: string
  oc_method :: http_method
  oc_operation_id :: "string option"
  oc_target_lambda :: string
  oc_max_wait_ms :: u64
  oc_max_batch_size :: nat
  oc_key :: "batch_key_dimension list"
  oc_timeout_ms :: u64
  oc_invoke_mode :: invoke_mode
  oc_profiling :: bool
  oc_dynamic_wait :: "dynamic_wait_config option"
  oc_duration_wait :: "duration_wait_config option"

datatype route_match =
    NotFound
  | MethodNotAllowed "http_method list"
  | Matched operation_config "(string, string) hashmap"

subsection \<open>Defaults of the optional fields\<close>

definition default_dynamic_target_rps :: f64 where
  "default_dynamic_target_rps = f_of_nat 50"

text \<open>The literal \<open>0.01\<close> is the binary64 value nearest to one hundredth.\<close>
definition default_dynamic_steepness :: f64 where
  "default_dynamic_steepness = rnd (1 / 100)"

definition default_dynamic_sampling_interval_ms :: u64 where
  "default_dynamic_sampling_interval_ms = 100"

definition default_dynamic_smoothing_samples :: nat where
  "default_dynamic_smoothing_samples = 10"

definition default_duration_min_wait_ms :: u64 where
  "default_duration_min_wait_ms = 0"

definition default_duration_probe_interval_ms :: u64 where
  "default_duration_probe_interval_ms = 30000"

definition default_duration_probe_jitter_ms :: u64 where
  "default_duration_probe_jitter_ms = 1000"

definition default_duration_smoothing_samples :: nat where
  "default_duration_smoothing_samples = 10"

definition default_duration_warmup_probes :: nat where
  "default_duration_warmup_probes = 1"

end
