(* ===== verification/Wire.thy ===== *)
theory Wire
  imports Prelude Spec_Types
begin

text \<open>
  The data that crosses the gateway: \<open>wire.rs\<close> (batch items and response records) and the
  request, response, key and sink types of \<open>batching/mod.rs\<close>. A \<open>oneshot\<close> or
  \<open>mpsc\<close> sender is a handle (a number naming the waiting receiver). A header map is the
  list of its (name, value) pairs; names are lower case, as \<open>HeaderName\<close> normalises them.
\<close>

type_synonym header_map = "(string \<times> string) list"
type_synonym chan = nat

subsection \<open>Request side\<close>

record http_description =
  hd_method :: string
  hd_path :: string
  hd_protocol :: string
  hd_source_ip :: "string option"
  hd_user_agent :: "string option"

record request_context =
  rc_account_id :: "string option"
  rc_api_id :: "string option"
  rc_domain_name :: "string option"
  rc_domain_prefix :: "string option"
  rc_route_key :: string
  rc_stage :: string
  rc_request_id :: string
  rc_time :: "string option"
  rc_time_epoch :: int
  rc_http :: http_description

record batch_item =
  bi_id :: string
  bi_version :: string
  bi_route_key :: string
  bi_raw_path :: string
  bi_raw_query_string :: string
  bi_cookies :: "string list option"
  bi_headers :: "(string, string) hashmap"
  bi_query_string_parameters :: "(string, string) hashmap"
  bi_path_parameters :: "(string, string) hashmap"
  bi_request_context :: request_context
  bi_stage_variables :: "(string, string) hashmap"
  bi_body :: "string option"
  bi_is_base64_encoded :: bool

subsection \<open>Response side\<close>

record batch_response_item =
  bri_id :: string
  bri_status_code :: u16
  bri_headers :: "(string, string) hashmap"
  bri_cookies :: "string list"
  bri_body :: string
  bri_is_base64_encoded :: bool

record batch_response =
  br_v :: u8
  br_responses :: "batch_response_item list"

record stream_record_legacy =
  sl_v :: u8
  sl_id :: string
  sl_status_code :: u16
  sl_headers :: "(string, string) hashmap"
  sl_cookies :: "string list"
  sl_body :: string
  sl_is_base64_encoded :: bool

datatype stream_record_type = Head | Chunk | End | Error

record stream_record_interleaved =
  si_v :: u8
  si_id :: string
  si_record_type :: stream_record_type
  si_status_code :: "u16 option"
  si_headers :: "(string, string) hashmap"
  si_cookies :: "string list"
  si_body :: "string option"
  si_is_base64_encoded :: bool
  si_message :: "string option"

datatype stream_response_record =
    Legacy stream_record_legacy
  | Interleaved stream_record_interleaved

subsection \<open>Gateway responses\<close>

record gateway_response_meta =
  gm_batch_size :: nat
  gm_batch_wait_ms :: u64
  gm_target_elapsed_ms :: "u64 option"

record gateway_response =
  gr_status :: u16
  gr_headers :: header_map
  gr_body :: bytes
  gr_meta :: "gateway_response_meta option"

text \<open>\<open>GatewayResponse::text\<close>: no headers, no metadata.\<close>

definition response_text :: "u16 \<Rightarrow> string \<Rightarrow> gateway_response" where
  "response_text status body =
     \<lparr>gr_status = status, gr_headers = [], gr_body = body, gr_meta = None\<rparr>"

definition with_meta :: "nat \<Rightarrow> u64 \<Rightarrow> u64 option \<Rightarrow> gateway_response \<Rightarrow> gateway_response" where
  "with_meta batch_size wait_ms elapsed resp =
     resp\<lparr>gr_meta := Some \<lparr>gm_batch_size = batch_size, gm_batch_wait_ms = wait_ms,
                           gm_target_elapsed_ms = elapsed\<rparr>\<rparr>"

lemma response_text_simps [simp]:
  "gr_status (response_text s b) = s" "gr_body (response_text s b) = b"
  "gr_headers (response_text s b) = []" "gr_meta (response_text s b) = None"
  by (simp_all add: response_text_def)

lemma with_meta_simps [simp]:
  "gr_status (with_meta n w e r) = gr_status r" "gr_body (with_meta n w e r) = gr_body r"
  "gr_headers (with_meta n w e r) = gr_headers r"
  "gr_meta (with_meta n w e r) = Some \<lparr>gm_batch_size = n, gm_batch_wait_ms = w, gm_target_elapsed_ms = e\<rparr>"
  by (simp_all add: with_meta_def)

record stream_head =
  sh_status :: u16
  sh_headers :: header_map
  sh_meta :: gateway_response_meta

datatype stream_init =
    InitResponse gateway_response
  | InitStream stream_head

subsection \<open>Waiting requests\<close>

text \<open>
  \<open>SinkBuffered tx\<close> names the oneshot of a buffered caller; \<open>SinkStream init body\<close> the
  oneshot for the response head and the channel for the body of a streaming caller.
\<close>

datatype response_sink = SinkBuffered chan | SinkStream chan chan

record pending_request =
  pr_id :: string
  pr_method :: http_method
  pr_path :: string
  pr_route :: string
  pr_path_params :: "(string, string) hashmap"
  pr_key_headers :: "(string, string) hashmap"
  pr_headers :: "(string, string) hashmap"
  pr_query :: "(string, string) hashmap"
  pr_raw_query_string :: string
  pr_body :: bytes
  pr_respond_to :: response_sink

record stream_pending =
  sp_init :: "chan option"
  sp_body :: chan

record batch_key =
  bk_target_lambda :: string
  bk_method :: http_method
  bk_route :: string
  bk_invoke_mode :: invoke_mode
  bk_profiling :: bool
  bk_key_values :: "string option list"

record batcher_config =
  bc_max_wait_ms :: u64
  bc_max_batch_size :: nat
  bc_dynamic_wait :: "dynamic_wait_config option"
  bc_duration_wait :: "duration_wait_config option"

subsection \<open>Status codes named by the sources\<close>

definition BAD_GATEWAY :: u16 where "BAD_GATEWAY = 502"
definition INTERNAL_SERVER_ERROR :: u16 where "INTERNAL_SERVER_ERROR = 500"
definition TOO_MANY_REQUESTS :: u16 where "TOO_MANY_REQUESTS = 429"
definition GATEWAY_TIMEOUT :: u16 where "GATEWAY_TIMEOUT = 504"
definition PAYLOAD_TOO_LARGE :: u16 where "PAYLOAD_TOO_LARGE = 413"
definition NOT_FOUND :: u16 where "NOT_FOUND = 404"
definition METHOD_NOT_ALLOWED :: u16 where "METHOD_NOT_ALLOWED = 405"
definition OK_STATUS :: u16 where "OK_STATUS = 200"
definition ACCEPTED :: u16 where "ACCEPTED = 202"

end
