(* ===== verification/Text.thy ===== *)
theory Text
  imports Prelude "HOL-Library.Sublist" "HOL-Library.Char_ord" "HOL-Library.List_Lexorder"
begin

text \<open>
  The operations of \<open>str\<close> and \<open>[u8]\<close> from the Rust standard library that the sources use,
  on byte sequences: UTF-8 validation, \<open>trim\<close> with the Unicode white-space set,
  \<open>split\<close>, \<open>split_once\<close>, \<open>to_ascii_lowercase\<close> and \<open>parse::<u64>\<close>.
  A Rust \<open>String\<close> is the byte sequence of its UTF-8 encoding, so a separator that is an
  ASCII character is searched bytewise.
\<close>

abbreviation byte :: "char \<Rightarrow> nat" where
  "byte c \<equiv> of_char c"

subsection \<open>UTF-8\<close>

definition utf8_cont :: "char \<Rightarrow> bool" where
  "utf8_cont c \<longleftrightarrow> 128 \<le> byte c \<and> byte c \<le> 191"

text \<open>
  \<open>utf8_char bs\<close> drops one well-formed character from the front (Unicode table 3-7):
  no overlong encodings, no surrogates, nothing above U+10FFFF.
\<close>

fun utf8_char :: "bytes \<Rightarrow> bytes option" where
  "utf8_char [] = None"
| "utf8_char (a # r) =
     (let n = byte a in
      if n < 128 then Some r
      else if 194 \<le> n \<and> n \<le> 223 then
        (case r of b # r' \<Rightarrow> if utf8_cont b then Some r' else None | [] \<Rightarrow> None)
      else if 224 \<le> n \<and> n \<le> 239 then
        (case r of
           b # c # r' \<Rightarrow>
             if utf8_cont b \<and> utf8_cont c \<and> (n = 224 \<longrightarrow> 160 \<le> byte b) \<and> (n = 237 \<longrightarrow> byte b \<le> 159)
             then Some r' else None
         | _ \<Rightarrow> None)
      else if 240 \<le> n \<and> n \<le> 244 then
        (case r of
           b # c # d # r' \<Rightarrow>
             if utf8_cont b \<and> utf8_cont c \<and> utf8_cont d \<and>
                (n = 240 \<longrightarrow> 144 \<le> byte b) \<and> (n = 244 \<longrightarrow> byte b \<le> 143)
             then Some r' else None
         | _ \<Rightarrow> None)
      else None)"

lemma utf8_char_shorter: "utf8_char bs = Some r \<Longrightarrow> length r < length bs"
  by (cases bs) (auto simp: Let_def split: if_splits list.splits)

function utf8_valid :: "bytes \<Rightarrow> bool" where
  "utf8_valid bs =
     (if bs = [] then True
      else case utf8_char bs of None \<Rightarrow> False | Some r \<Rightarrow> utf8_valid r)"
  by pat_completeness auto
termination
  by (relation "measure length") (auto dest: utf8_char_shorter)

declare utf8_valid.simps [simp del]

lemma utf8_valid_Nil [simp]: "utf8_valid []"
  by (subst utf8_valid.simps) simp

lemma utf8_valid_ascii: "\<forall>c \<in> set s. byte c < 128 \<Longrightarrow> utf8_valid s"
proof (induction s)
  case Nil
  then show ?case by simp
next
  case (Cons c s)
  then show ?case by (subst utf8_valid.simps) (simp add: Let_def)
qed

text \<open>
  \<open>String::from_utf8_lossy\<close>: every maximal ill-formed part becomes one U+FFFD.
  \<open>utf8_bad a r\<close> is the number of bytes after \<open>a\<close> that belong to the ill-formed part.
\<close>

fun utf8_bad :: "char \<Rightarrow> bytes \<Rightarrow> nat" where
  "utf8_bad a r =
     (let n = byte a in
      if 224 \<le> n \<and> n \<le> 239 then
        (case r of
           b # _ \<Rightarrow> if utf8_cont b \<and> (n = 224 \<longrightarrow> 160 \<le> byte b) \<and> (n = 237 \<longrightarrow> byte b \<le> 159) then 1 else 0
         | [] \<Rightarrow> 0)
      else if 240 \<le> n \<and> n \<le> 244 then
        (case r of
           b # r' \<Rightarrow>
             if utf8_cont b \<and> (n = 240 \<longrightarrow> 144 \<le> byte b) \<and> (n = 244 \<longrightarrow> byte b \<le> 143)
             then (case r' of c # _ \<Rightarrow> if utf8_cont c then 2 else 1 | [] \<Rightarrow> 1) else 0
         | [] \<Rightarrow> 0)
      else 0)"

function from_utf8_lossy :: "bytes \<Rightarrow> bytes" where
  "from_utf8_lossy s =
     (case s of
        [] \<Rightarrow> []
      | a # r \<Rightarrow>
          (case utf8_char s of
             Some r' \<Rightarrow> take (length s - length r') s @ from_utf8_lossy r'
           | None \<Rightarrow> map char_of [239, 191, 189 :: nat] @ from_utf8_lossy (drop (utf8_bad a r) r)))"
  by pat_completeness auto
termination
  by (relation "measure length") (auto dest: utf8_char_shorter simp del: utf8_char.simps)

declare from_utf8_lossy.simps [simp del]

subsection \<open>Trimming\<close>

text \<open>The UTF-8 encodings of the characters with the Unicode property White_Space.\<close>

definition white_space :: "bytes list" where
  "white_space = map (map char_of)
     ([[9], [10], [11], [12], [13], [32], [194, 133], [194, 160], [225, 154, 128]] @
      map (\<lambda>k. [226, 128, k])
        [128, 129, 130, 131, 132, 133, 134, 135, 136, 137, 138, 168, 169, 175] @
      [[226, 129, 159], [227, 128, 128 :: nat]])"

fun strip_one :: "bytes list \<Rightarrow> bytes \<Rightarrow> bytes option" where
  "strip_one [] s = None"
| "strip_one (w # ws) s =
     (if w \<noteq> [] \<and> take (length w) s = w then Some (drop (length w) s) else strip_one ws s)"

lemma strip_one_shorter: "strip_one ws s = Some r \<Longrightarrow> length r < length s"
  by (induction ws; cases s) (auto simp: neq_Nil_conv split: if_splits)

lemma strip_one_suffix: "strip_one ws s = Some r \<Longrightarrow> suffix r s"
  by (induction ws) (auto split: if_splits intro: suffix_drop)

function strip :: "bytes list \<Rightarrow> bytes \<Rightarrow> bytes" where
  "strip ws s = (case strip_one ws s of None \<Rightarrow> s | Some r \<Rightarrow> strip ws r)"
  by pat_completeness auto
termination
  by (relation "measure (\<lambda>(ws, s). length s)") (auto dest: strip_one_shorter)

declare strip.simps [simp del]

lemma strip_suffix: "suffix (strip ws s) s"
proof (induction ws s rule: strip.induct)
  case (1 ws s)
  show ?case
    by (subst strip.simps) (auto split: option.splits
        intro: suffix_order.trans [OF "1.IH"] strip_one_suffix)
qed

lemma strip_done: "strip_one ws (strip ws s) = None"
proof (induction ws s rule: strip.induct)
  case (1 ws s)
  then show ?case by (cases "strip_one ws s") (simp_all add: strip.simps [of ws s])
qed

lemma strip_idem [simp]: "strip ws (strip ws s) = strip ws s"
  using strip_done [of ws s] by (simp add: strip.simps [of ws "strip ws s"])

lemma strip_Nil [simp]: "strip ws [] = []"
  using strip_suffix [of ws "[]"] by simp

definition trim_start :: "bytes \<Rightarrow> bytes" where
  "trim_start s = strip white_space s"

definition trim_end :: "bytes \<Rightarrow> bytes" where
  "trim_end s = rev (strip (map rev white_space) (rev s))"

definition trim :: "bytes \<Rightarrow> bytes" where
  "trim s = trim_end (trim_start s)"

lemma trim_end_prefix: "prefix (trim_end s) s"
  using strip_suffix [of "map rev white_space" "rev s"]
  by (simp add: trim_end_def suffix_to_prefix)

lemma trim_start_suffix: "suffix (trim_start s) s"
  by (simp add: trim_start_def strip_suffix)

lemma trim_Nil [simp]: "trim [] = []"
  by (simp add: trim_def trim_start_def trim_end_def)

lemma strip_one_None_iff: "strip_one ws s = None \<longleftrightarrow> (\<forall>w \<in> set ws. w = [] \<or> \<not> prefix w s)"
proof (induction ws)
  case Nil
  then show ?case by simp
next
  case (Cons w ws)
  have "take (length w) s = w \<longleftrightarrow> prefix w s"
    by (metis append_eq_conv_conj prefix_def take_is_prefix)
  with Cons show ?case by auto
qed

lemma strip_one_prefix: "strip_one ws s = None \<Longrightarrow> prefix t s \<Longrightarrow> strip_one ws t = None"
  unfolding strip_one_None_iff by (meson prefix_order.order_trans)

lemma trim_start_trim [simp]: "trim_start (trim s) = trim s"
proof -
  have "strip_one white_space (trim_start s) = None"
    by (simp add: trim_start_def strip_done)
  then have "strip_one white_space (trim s) = None"
    unfolding trim_def using trim_end_prefix by (rule strip_one_prefix)
  then show ?thesis by (simp add: trim_start_def strip.simps [of white_space "trim s"])
qed

lemma trim_idem [simp]: "trim (trim s) = trim s"
  by (simp add: trim_def [of "trim s"]) (simp add: trim_def trim_end_def)

lemma trim_sublist: "sublist (trim s) s"
  unfolding trim_def
  by (meson prefix_imp_sublist sublist_order.order_trans suffix_imp_sublist trim_end_prefix trim_start_suffix)

lemma set_trim: "set (trim s) \<subseteq> set s"
  using trim_sublist by (rule set_mono_sublist)

definition plain_char :: "char \<Rightarrow> bool" where
  "plain_char c \<longleftrightarrow> 33 \<le> byte c \<and> byte c \<le> 126"

lemma white_space_ends:
  "\<forall>w \<in> set white_space. w \<noteq> [] \<and> \<not> plain_char (hd w) \<and> \<not> plain_char (last w)"
  by (simp add: white_space_def plain_char_def)

lemma strip_plain:
  assumes "\<forall>w \<in> set ws. w \<noteq> [] \<and> \<not> plain_char (hd w)" "plain_char (hd s)"
  shows "strip ws s = s"
proof -
  have "\<not> prefix w s" if "w \<in> set ws" for w
    using assms that by (cases w; cases s) auto
  then have "strip_one ws s = None" using assms(1) by (auto simp: strip_one_None_iff)
  then show ?thesis by (simp add: strip.simps)
qed

text \<open>A text that starts and ends with a printable ASCII character is trimmed already.\<close>

lemma trim_plain:
  assumes "s \<noteq> []" "plain_char (hd s)" "plain_char (last s)"
  shows "trim s = s"
proof -
  have 1: "trim_start s = s"
    unfolding trim_start_def by (rule strip_plain) (use assms white_space_ends in auto)
  have "\<forall>w \<in> set (map rev white_space). w \<noteq> [] \<and> \<not> plain_char (hd w)"
    using white_space_ends by (auto simp: hd_rev)
  then have "strip (map rev white_space) (rev s) = rev s"
    by (rule strip_plain) (use assms in \<open>simp add: hd_rev\<close>)
  then show ?thesis by (simp add: trim_def 1 trim_end_def)
qed

lemma strip_one_space: "strip_one white_space (CHR '' '' # s) = Some s"
  by (simp add: white_space_def char_of_def bit_0)

lemma trim_space_Cons: "trim (CHR '' '' # s) = trim s"
  by (simp add: trim_def trim_start_def strip.simps [of white_space "CHR '' '' # s"] strip_one_space)

subsection \<open>Splitting and case\<close>

text \<open>\<open>s.split(c)\<close>: always at least one piece, separators dropped.\<close>

fun split_on :: "char \<Rightarrow> bytes \<Rightarrow> bytes list" where
  "split_on c [] = [[]]"
| "split_on c (x # xs) =
     (if x = c then [] # split_on c xs
      else (case split_on c xs of p # ps \<Rightarrow> (x # p) # ps | [] \<Rightarrow> [[x]]))"

lemma split_on_nonempty [simp]: "split_on c s \<noteq> []"
  by (induction s) (auto split: list.splits)

lemma split_on_no_sep: "p \<in> set (split_on c s) \<Longrightarrow> c \<notin> set p"
  by (induction s arbitrary: p) (auto split: if_splits list.splits)

lemma split_on_subset: "p \<in> set (split_on c s) \<Longrightarrow> set p \<subseteq> set s"
  by (induction s arbitrary: p) (fastforce split: if_splits list.splits)+

text \<open>\<open>s.split_once(c)\<close>: the parts before and after the first separator.\<close>

fun split_once :: "char \<Rightarrow> bytes \<Rightarrow> (bytes \<times> bytes) option" where
  "split_once c [] = None"
| "split_once c (x # xs) =
     (if x = c then Some ([], xs)
      else map_option (\<lambda>(a, b). (x # a, b)) (split_once c xs))"

lemma split_once_Some: "split_once c s = Some (a, b) \<longleftrightarrow> s = a @ c # b \<and> c \<notin> set a"
proof (induction s arbitrary: a b)
  case Nil
  then show ?case by simp
next
  case (Cons x xs)
  then show ?case by (cases a) auto
qed

lemma split_once_None: "split_once c s = None \<longleftrightarrow> c \<notin> set s"
  by (induction s) auto

definition ascii_lower_char :: "char \<Rightarrow> char" where
  "ascii_lower_char c = (if 65 \<le> byte c \<and> byte c \<le> 90 then char_of (byte c + 32) else c)"

definition ascii_lower :: "bytes \<Rightarrow> bytes" where
  "ascii_lower s = map ascii_lower_char s"

lemma ascii_lower_char_idem [simp]: "ascii_lower_char (ascii_lower_char c) = ascii_lower_char c"
  by (auto simp: ascii_lower_char_def)

lemma ascii_lower_idem [simp]: "ascii_lower (ascii_lower s) = ascii_lower s"
  by (simp add: ascii_lower_def)

subsection \<open>Lines\<close>

abbreviation newline :: char where "newline \<equiv> CHR 0x0A"
abbreviation carriage :: char where "carriage \<equiv> CHR 0x0D"

definition strip_cr :: "bytes \<Rightarrow> bytes" where
  "strip_cr line = (if line \<noteq> [] \<and> last line = carriage then butlast line else line)"

text \<open>
  \<open>str::lines\<close>: a final piece without a newline counts as a line only when it is not empty,
  and keeps its carriage return.
\<close>

definition str_lines :: "bytes \<Rightarrow> bytes list" where
  "str_lines s =
     (let parts = split_on newline s
      in map strip_cr (butlast parts) @ (if last parts = [] then [] else [last parts]))"

subsection \<open>Prefixes and numbers\<close>

definition starts_with :: "bytes \<Rightarrow> bytes \<Rightarrow> bool" where
  "starts_with p s \<longleftrightarrow> take (length p) s = p"

definition is_ascii_digit :: "char \<Rightarrow> bool" where
  "is_ascii_digit c \<longleftrightarrow> 48 \<le> byte c \<and> byte c \<le> 57"

text \<open>
  \<open>str::parse::<u64>\<close>: an optional \<open>+\<close>, at least one digit, and a value below \<open>2 ^ 64\<close>.
\<close>

fun digits_value :: "nat \<Rightarrow> bytes \<Rightarrow> nat" where
  "digits_value acc [] = acc"
| "digits_value acc (c # cs) = digits_value (acc * 10 + (byte c - 48)) cs"

definition parse_u64 :: "bytes \<Rightarrow> u64 option" where
  "parse_u64 s =
     (let ds = (case s of c # cs \<Rightarrow> if c = CHR ''+'' then cs else s | [] \<Rightarrow> s) in
      if ds \<noteq> [] \<and> list_all is_ascii_digit ds \<and> digits_value 0 ds < 2 ^ 64
      then Some (of_nat (digits_value 0 ds)) else None)"

text \<open>
  \<open>str::parse::<f64>\<close> on the only strings the sources give it here, ASCII digits and dots:
  digits with at most one dot and at least one digit; the value is the nearest \<open>f64\<close>.
\<close>

definition parse_decimal :: "bytes \<Rightarrow> (nat \<times> nat) option" where
  "parse_decimal s =
     (case split_once CHR ''.'' s of
        None \<Rightarrow> if s \<noteq> [] \<and> list_all is_ascii_digit s then Some (digits_value 0 s, 0) else None
      | Some (a, b) \<Rightarrow>
          if a @ b \<noteq> [] \<and> list_all is_ascii_digit (a @ b)
          then Some (digits_value 0 (a @ b), length b) else None)"

text \<open>Decimal rendering and parsing of an unsigned integer agree.\<close>

lemma digits_value_append: "digits_value acc (xs @ ys) = digits_value (digits_value acc xs) ys"
  by (induction xs arbitrary: acc) auto

lemma byte_digit [simp]: "d < 10 \<Longrightarrow> byte (char_of (48 + d :: nat)) = 48 + d"
  by simp

lemma digits_value_dec: "digits_value 0 (dec n) = n"
proof (induction n rule: dec.induct)
  case (1 n)
  show ?case
  proof (cases "n < 10")
    case True
    then show ?thesis by (subst dec.simps) simp
  next
    case False
    then show ?thesis using 1 by (subst dec.simps) (simp add: digits_value_append)
  qed
qed

lemma is_ascii_digit_char [simp]: "d < 10 \<Longrightarrow> is_ascii_digit (char_of (48 + d :: nat))"
  by (simp add: is_ascii_digit_def)

lemma digits_dec: "list_all is_ascii_digit (dec n)"
proof (induction n rule: dec.induct)
  case (1 n)
  then show ?case
    by (subst dec.simps) auto
qed

lemma parse_u64_dec: "n < 2 ^ 64 \<Longrightarrow> parse_u64 (dec n) = Some (of_nat n)"
proof -
  assume n: "n < 2 ^ 64"
  obtain c cs where d: "dec n = c # cs" using dec_nonempty [of n] by (cases "dec n") auto
  have "is_ascii_digit c" using digits_dec [of n] d by simp
  then have "c \<noteq> CHR ''+''" by (auto simp: is_ascii_digit_def)
  with d n digits_dec [of n] digits_value_dec [of n] show ?thesis
    by (simp add: parse_u64_def)
qed

end
