(* ===== verification/External.thy ===== *)
theory External
  imports Wire Text
begin

text \<open>
  What the sources call in third-party crates. The functions of those crates are the fields of
  one record \<open>ext_lib\<close> that the definitions take as an argument: \<open>http\<close> (status codes,
  header names and values), \<open>base64\<close>, \<open>serde_json\<close> and the derived
  \<open>Deserialize\<close> of the wire structs. A property that needs a law of one of them states it as
  a hypothesis. The data of the crates that the sources build and inspect is modelled by its
  documented shape: \<open>serde_json::Value\<close> and the multimap \<open>http::HeaderMap\<close>.
\<close>

subsection \<open>JSON values\<close>

datatype json_number = PosInt u64 | NegInt int | Float f64

datatype json =
    JNull
  | JBool bool
  | JNumber json_number
  | JString string
  | JArray "json list"
  | JObject "(string \<times> json) list"

text \<open>\<open>Value::get(key)\<close>, \<open>as_u64\<close>, \<open>as_str\<close> and \<open>as_array\<close>.\<close>

fun json_get :: "json \<Rightarrow> string \<Rightarrow> json option" where
  "json_get (JObject m) k = hm_get m k"
| "json_get _ k = None"

fun json_as_u64 :: "json \<Rightarrow> u64 option" where
  "json_as_u64 (JNumber (PosInt n)) = Some n"
| "json_as_u64 _ = None"

fun json_as_str :: "json \<Rightarrow> string option" where
  "json_as_str (JString s) = Some s"
| "json_as_str _ = None"

fun json_as_array :: "json \<Rightarrow> json list option" where
  "json_as_array (JArray xs) = Some xs"
| "json_as_array _ = None"

text \<open>\<open>as_f64\<close> converts any number; \<open>as_i64\<close> needs the value to fit.\<close>

fun json_as_f64 :: "json \<Rightarrow> f64 option" where
  "json_as_f64 (JNumber (PosInt n)) = Some (f_of_u64 n)"
| "json_as_f64 (JNumber (NegInt i)) = Some (f_of_int i)"
| "json_as_f64 (JNumber (Float x)) = Some x"
| "json_as_f64 _ = None"

fun json_as_i64 :: "json \<Rightarrow> int option" where
  "json_as_i64 (JNumber (PosInt n)) = (if unat n < 2 ^ 63 then Some (uint n) else None)"
| "json_as_i64 (JNumber (NegInt i)) = Some i"
| "json_as_i64 _ = None"

subsection \<open>Header maps\<close>

text \<open>
  \<open>insert\<close> replaces every value of the name, \<open>append\<close> adds one more, \<open>get\<close> gives
  the first value, \<open>remove\<close> drops every value.
\<close>

definition hdr_remove :: "string \<Rightarrow> header_map \<Rightarrow> header_map" where
  "hdr_remove n h = filter (\<lambda>p. fst p \<noteq> n) h"

definition hdr_insert :: "string \<Rightarrow> string \<Rightarrow> header_map \<Rightarrow> header_map" where
  "hdr_insert n v h = hdr_remove n h @ [(n, v)]"

definition hdr_append :: "string \<Rightarrow> string \<Rightarrow> header_map \<Rightarrow> header_map" where
  "hdr_append n v h = h @ [(n, v)]"

definition hdr_get :: "header_map \<Rightarrow> string \<Rightarrow> string option" where
  "hdr_get h n = map_of h n"

definition hdr_get_all :: "header_map \<Rightarrow> string \<Rightarrow> string list" where
  "hdr_get_all h n = map snd (filter (\<lambda>p. fst p = n) h)"

lemma map_of_remove: "map_of (filter (\<lambda>p. fst p \<noteq> n) h) k = (if k = n then None else map_of h k)"
  by (induction h) auto

lemma hdr_get_remove [simp]: "hdr_get (hdr_remove n h) m = (if m = n then None else hdr_get h m)"
  by (simp add: hdr_get_def hdr_remove_def map_of_remove)

lemma hdr_get_insert [simp]: "hdr_get (hdr_insert n v h) m = (if m = n then Some v else hdr_get h m)"
  by (simp add: hdr_get_def hdr_insert_def hdr_remove_def map_add_def map_of_remove
      split: option.splits)

lemma hdr_get_all_append [simp]:
  "hdr_get_all (hdr_append n v h) m = hdr_get_all h m @ (if m = n then [v] else [])"
  by (simp add: hdr_get_all_def hdr_append_def)

lemma hdr_get_all_insert [simp]:
  "hdr_get_all (hdr_insert n v h) m = (if m = n then [v] else hdr_get_all h m)"
  by (auto simp: hdr_get_all_def hdr_insert_def hdr_remove_def filter_filter
      intro!: arg_cong [where f = "map snd"] filter_cong)

subsection \<open>Functions of third-party crates\<close>

record ext_lib =
  status_from_u16 :: "u16 \<Rightarrow> u16 res"
  header_name_from_bytes :: "bytes \<Rightarrow> string res"
  header_value_from_str :: "string \<Rightarrow> string res"
  b64_encode :: "bytes \<Rightarrow> string"
  b64_decode :: "string \<Rightarrow> bytes res"
  json_from_slice :: "bytes \<Rightarrow> json res"
  json_to_vec :: "json \<Rightarrow> bytes res"
  batch_response_from_slice :: "bytes \<Rightarrow> batch_response res"
  legacy_from_value :: "json \<Rightarrow> stream_record_legacy res"
  interleaved_from_value :: "json \<Rightarrow> stream_record_interleaved res"

end
