(* ===== verification/Planner.thy ===== *)
theory Planner
  imports External
begin

text \<open>
  \<open>gateway/src/batching/planner.rs\<close>: the encoding of one request's body, cookies and source
  address, and the recursive split of a batch into invocations whose payload fits the limit.
  The event builder (trait \<open>BatchEventBuilder\<close>) is an argument; \<open>v1_build_payload\<close> at the
  end is the gateway's own one.
\<close>

type_synonym event_builder = "batch_key \<Rightarrow> u64 \<Rightarrow> batch_item list \<Rightarrow> bytes res"

datatype 'v invocation_plan =
    Invoke "(string, 'v) hashmap" bytes
  | Fail "(string, 'v) hashmap" u16 string

record 'v planned_invocations =
  plans :: "'v invocation_plan list"
  split_count :: nat
  oversized_single_count :: nat

subsection \<open>Encoding one request\<close>

definition encode_body :: "ext_lib \<Rightarrow> bytes \<Rightarrow> string option \<times> bool" where
  "encode_body ext body =
     (if body = [] then (None, False)
      else if CHR 0x00 \<in> set body then (Some (b64_encode ext body), True)
      else if utf8_valid body then (Some body, False)
      else (Some (b64_encode ext body), True))"

definition parse_cookie_header :: "(string, string) hashmap \<Rightarrow> string list option" where
  "parse_cookie_header headers =
     (case hm_get headers ''cookie'' of
        None \<Rightarrow> None
      | Some header_value \<Rightarrow>
          let cookies = filter (\<lambda>v. v \<noteq> []) (map trim (split_on CHR '';'' header_value))
          in if cookies = [] then None else Some cookies)"

definition extract_source_ip :: "(string, string) hashmap \<Rightarrow> string option" where
  "extract_source_ip headers =
     (case hm_get headers ''x-forwarded-for'' of
        None \<Rightarrow> None
      | Some forwarded \<Rightarrow>
          (case split_on CHR '','' forwarded of
             [] \<Rightarrow> None
           | ip # _ \<Rightarrow> if trim ip = [] then None else Some (trim ip)))"

subsection \<open>Splitting the pending map\<close>

fun split_pending_loop ::
  "(string, 'v) hashmap \<Rightarrow> (string, 'v) hashmap \<Rightarrow> batch_item list \<Rightarrow>
   (string, 'v) hashmap \<times> (string, 'v) hashmap" where
  "split_pending_loop left pending [] = (left, pending)"
| "split_pending_loop left pending (item # items) =
     (case hm_get pending (bi_id item) of
        Some tx \<Rightarrow>
          split_pending_loop (hm_insert (bi_id item) tx left) (hm_delete (bi_id item) pending) items
      | None \<Rightarrow> split_pending_loop left pending items)"

definition split_pending ::
  "(string, 'v) hashmap \<Rightarrow> batch_item list \<Rightarrow> (string, 'v) hashmap \<times> (string, 'v) hashmap" where
  "split_pending pending left_items = split_pending_loop [] pending left_items"

subsection \<open>Planning\<close>

function plan_invocations ::
  "event_builder \<Rightarrow> batch_key \<Rightarrow> u64 \<Rightarrow> nat \<Rightarrow> (string, 'v) hashmap \<Rightarrow> batch_item list \<Rightarrow>
   'v planned_invocations" where
  "plan_invocations builder key received_at_ms max_bytes pending batch_items =
     (case builder key received_at_ms batch_items of
        Inl err \<Rightarrow>
          \<lparr>plans = [Fail pending INTERNAL_SERVER_ERROR (''encode: '' @ err)],
           split_count = 0, oversized_single_count = 0\<rparr>
      | Inr payload \<Rightarrow>
          if length payload \<le> max_bytes then
            \<lparr>plans = [Invoke pending payload], split_count = 0, oversized_single_count = 0\<rparr>
          else if length batch_items \<le> 1 then
            \<lparr>plans = [Fail pending BAD_GATEWAY ''invoke payload too large''],
             split_count = 0, oversized_single_count = 1\<rparr>
          else
            let mid = length batch_items div 2;
                left_items = take mid batch_items;
                right_items = drop mid batch_items;
                (left_pending, right_pending) = split_pending pending left_items;
                left = plan_invocations builder key received_at_ms max_bytes left_pending left_items;
                right = plan_invocations builder key received_at_ms max_bytes right_pending right_items
            in \<lparr>plans = plans left @ plans right,
                split_count = 1 + split_count left + split_count right,
                oversized_single_count = oversized_single_count left + oversized_single_count right\<rparr>)"
  by pat_completeness auto
termination
  by (relation "measure (\<lambda>(b, k, t, m, p, items). length items)") auto

declare plan_invocations.simps [simp del]

fun plan_pending :: "'v invocation_plan \<Rightarrow> (string, 'v) hashmap" where
  "plan_pending (Invoke pending _) = pending"
| "plan_pending (Fail pending _ _) = pending"

subsection \<open>Lemmas on the split\<close>

lemma split_pending_loop_mset:
  "hm_ok pending \<Longrightarrow> hm_ok left \<Longrightarrow> fst ` set left \<inter> fst ` set pending = {} \<Longrightarrow>
   split_pending_loop left pending items = (l, r) \<Longrightarrow>
   hm_ok l \<and> hm_ok r \<and> mset l + mset r = mset left + mset pending"
proof (induction left pending items rule: split_pending_loop.induct)
  case (1 left pending)
  then show ?case by simp
next
  case (2 left pending item items)
  show ?case
  proof (cases "hm_get pending (bi_id item)")
    case None
    then show ?thesis using 2(1,3-) by simp
  next
    case (Some tx)
    have key: "bi_id item \<in> fst ` set pending" using Some by (rule hm_get_keys)
    then have absent: "bi_id item \<notin> fst ` set left" using "2.prems"(3) by auto
    have disj: "fst ` set (hm_insert (bi_id item) tx left) \<inter>
        fst ` set (hm_delete (bi_id item) pending) = {}"
      using "2.prems"(3) by auto
    have eq: "split_pending_loop (hm_insert (bi_id item) tx left)
        (hm_delete (bi_id item) pending) items = (l, r)"
      using "2.prems"(4) Some by simp
    have "hm_ok l \<and> hm_ok r \<and> mset l + mset r =
        mset (hm_insert (bi_id item) tx left) + mset (hm_delete (bi_id item) pending)"
      by (rule "2.IH"(2) [OF Some _ _ disj eq]) (use "2.prems" in auto)
    then show ?thesis
      using mset_hm_delete [OF "2.prems"(1) Some] mset_hm_insert_absent [OF absent, of tx] by simp
  qed
qed

lemma split_pending_loop_keys:
  "split_pending_loop left pending items = (l, r) \<Longrightarrow>
   fst ` set l = fst ` set left \<union> (fst ` set pending \<inter> bi_id ` set items) \<and>
   fst ` set r = fst ` set pending - bi_id ` set items"
proof (induction left pending items rule: split_pending_loop.induct)
  case (1 left pending)
  then show ?case by simp
next
  case (2 left pending item items)
  show ?case
  proof (cases "hm_get pending (bi_id item)")
    case None
    then have "bi_id item \<notin> fst ` set pending" by (simp add: hm_get_None_iff)
    then show ?thesis using 2 None by auto
  next
    case (Some tx)
    have "bi_id item \<in> fst ` set pending" using Some by (rule hm_get_keys)
    then show ?thesis using 2 Some by auto
  qed
qed

lemma split_pending_mset:
  "hm_ok pending \<Longrightarrow> split_pending pending items = (l, r) \<Longrightarrow>
   hm_ok l \<and> hm_ok r \<and> mset l + mset r = mset pending"
  using split_pending_loop_mset [of pending "[]" items l r] by (simp add: split_pending_def)

lemma split_pending_keys:
  "split_pending pending items = (l, r) \<Longrightarrow>
   fst ` set l = fst ` set pending \<inter> bi_id ` set items \<and>
   fst ` set r = fst ` set pending - bi_id ` set items"
  using split_pending_loop_keys [of "[]" pending items l r] by (simp add: split_pending_def)

subsection \<open>Lemmas on the plans\<close>

lemma plan_split:
  assumes "builder key ts items = Inr payload" "mx < length payload" "1 < length items"
    and "split_pending pending (take (length items div 2) items) = (lp, rp)"
  shows "plan_invocations builder key ts mx pending items =
     (let left = plan_invocations builder key ts mx lp (take (length items div 2) items);
          right = plan_invocations builder key ts mx rp (drop (length items div 2) items)
      in \<lparr>plans = plans left @ plans right, split_count = 1 + split_count left + split_count right,
          oversized_single_count = oversized_single_count left + oversized_single_count right\<rparr>)"
  using assms by (simp add: plan_invocations.simps [of builder key ts mx pending items] Let_def)

text \<open>Induction along the splits, with one case per way a call can end.\<close>

lemma plan_induct [case_names encode fits oversized split]:
  fixes P :: "(string, 'v) hashmap \<Rightarrow> batch_item list \<Rightarrow> 'v planned_invocations \<Rightarrow> bool"
  assumes enc: "\<And>pending items err. builder key ts items = Inl err \<Longrightarrow>
      P pending items \<lparr>plans = [Fail pending INTERNAL_SERVER_ERROR (''encode: '' @ err)],
        split_count = 0, oversized_single_count = 0\<rparr>"
    and fit: "\<And>pending items payload. builder key ts items = Inr payload \<Longrightarrow> length payload \<le> mx \<Longrightarrow>
      P pending items \<lparr>plans = [Invoke pending payload], split_count = 0, oversized_single_count = 0\<rparr>"
    and over: "\<And>pending items payload. builder key ts items = Inr payload \<Longrightarrow> mx < length payload \<Longrightarrow>
      length items \<le> 1 \<Longrightarrow>
      P pending items \<lparr>plans = [Fail pending BAD_GATEWAY ''invoke payload too large''],
        split_count = 0, oversized_single_count = 1\<rparr>"
    and split: "\<And>pending items left_items right_items lp rp left right.
      left_items @ right_items = items \<Longrightarrow> left_items \<noteq> [] \<Longrightarrow> right_items \<noteq> [] \<Longrightarrow>
      split_pending pending left_items = (lp, rp) \<Longrightarrow> P lp left_items left \<Longrightarrow> P rp right_items right \<Longrightarrow>
      P pending items \<lparr>plans = plans left @ plans right,
        split_count = 1 + split_count left + split_count right,
        oversized_single_count = oversized_single_count left + oversized_single_count right\<rparr>"
  shows "P pending items (plan_invocations builder key ts mx pending items)"
proof (induction "length items" arbitrary: pending items rule: less_induct)
  case less
  show ?case
  proof (cases "builder key ts items")
    case (Inl err)
    then show ?thesis using enc by (simp add: plan_invocations.simps)
  next
    case (Inr payload)
    consider "length payload \<le> mx" | "mx < length payload" "length items \<le> 1"
      | "mx < length payload" "1 < length items" by linarith
    then show ?thesis
    proof cases
      case 1
      then show ?thesis using fit Inr by (simp add: plan_invocations.simps)
    next
      case 2
      then show ?thesis using over Inr by (simp add: plan_invocations.simps)
    next
      case 3
      let ?mid = "length items div 2"
      obtain lp rp where sp: "split_pending pending (take ?mid items) = (lp, rp)"
        by (cases "split_pending pending (take ?mid items)")
      have "0 < ?mid" "?mid < length items" using 3(2) by auto
      then have ne: "take ?mid items \<noteq> []" "drop ?mid items \<noteq> []" by auto
      have "length (take ?mid items) < length items" "length (drop ?mid items) < length items"
        using 3(2) by auto
      then have ih: "P lp (take ?mid items) (plan_invocations builder key ts mx lp (take ?mid items))"
        "P rp (drop ?mid items) (plan_invocations builder key ts mx rp (drop ?mid items))"
        by (auto intro: less)
      show ?thesis
        using split [OF append_take_drop_id ne sp ih] plan_split [of builder key ts items payload mx pending lp rp, OF Inr 3 sp] by (simp add: Let_def)
    qed
  qed
qed

lemma plan_conserves_aux:
  "hm_ok pending \<longrightarrow>
     mset (concat (map plan_pending (plans (plan_invocations builder key ts mx pending items)))) = mset pending \<and>
     (\<forall>p \<in> set (plans (plan_invocations builder key ts mx pending items)). hm_ok (plan_pending p))"
proof (rule plan_induct [where P = "\<lambda>pending items pl. hm_ok pending \<longrightarrow>
      mset (concat (map plan_pending (plans pl))) = mset pending \<and>
      (\<forall>p \<in> set (plans pl). hm_ok (plan_pending p))"], goal_cases)
  case (4 pending items left_items right_items lp rp left right)
  then show ?case using split_pending_mset [of pending left_items lp rp] by auto
qed simp_all

lemma plan_conserves [exactly_once]:
  "hm_ok pending \<Longrightarrow>
   mset (concat (map plan_pending (plans (plan_invocations builder key ts mx pending items)))) = mset pending"
  using plan_conserves_aux by blast

lemma plan_pending_ok:
  "hm_ok pending \<Longrightarrow> p \<in> set (plans (plan_invocations builder key ts mx pending items)) \<Longrightarrow>
   hm_ok (plan_pending p)"
  using plan_conserves_aux by blast

lemma plan_count:
  "length (plans (plan_invocations builder key ts mx pending items)) =
   Suc (split_count (plan_invocations builder key ts mx pending items))"
  by (rule plan_induct [where P = "\<lambda>pending items pl. length (plans pl) = Suc (split_count pl)"])
     simp_all

text \<open>How the outcome of one plan relates to the group of items it stands for.\<close>

fun plan_outcome :: "event_builder \<Rightarrow> batch_key \<Rightarrow> u64 \<Rightarrow> nat \<Rightarrow> batch_item list \<Rightarrow> 'v invocation_plan \<Rightarrow> bool" where
  "plan_outcome builder key ts mx grp (Invoke pending payload) \<longleftrightarrow>
     builder key ts grp = Inr payload \<and> length payload \<le> mx"
| "plan_outcome builder key ts mx grp (Fail pending status msg) \<longleftrightarrow>
     (case builder key ts grp of
        Inl err \<Rightarrow> status = INTERNAL_SERVER_ERROR \<and> msg = ''encode: '' @ err
      | Inr payload \<Rightarrow> mx < length payload \<and> length grp \<le> 1 \<and>
          status = BAD_GATEWAY \<and> msg = ''invoke payload too large'')"

definition plan_serves :: "(string, 'v) hashmap \<Rightarrow> batch_item list \<Rightarrow> 'v invocation_plan \<Rightarrow> bool" where
  "plan_serves pending grp p \<longleftrightarrow>
     set (plan_pending p) = {e \<in> set pending. fst e \<in> bi_id ` set grp}"

lemma plan_serves_all:
  "fst ` set pending \<subseteq> bi_id ` set items \<Longrightarrow> plan_pending p = pending \<Longrightarrow> plan_serves pending items p"
  unfolding plan_serves_def by (blast intro: imageI)

lemma plan_serves_sub:
  assumes "plan_serves part g p" "bi_id ` set g \<subseteq> K"
    and "set pending = set part \<union> set other" "fst ` set other \<inter> K = {}"
  shows "plan_serves pending g p"
  using assms unfolding plan_serves_def by blast

lemma plan_groups_lemma:
  "(hm_ok pending \<and> distinct (map bi_id items) \<and> fst ` set pending \<subseteq> bi_id ` set items) \<longrightarrow>
   (\<exists>groups. concat groups = items \<and> (items \<noteq> [] \<longrightarrow> [] \<notin> set groups) \<and>
      list_all2 (plan_outcome builder key ts mx) groups
        (plans (plan_invocations builder key ts mx pending items)) \<and>
      list_all2 (plan_serves pending) groups
        (plans (plan_invocations builder key ts mx pending items)))"
proof (rule plan_induct [where P = "\<lambda>pending items pl.
    (hm_ok pending \<and> distinct (map bi_id items) \<and> fst ` set pending \<subseteq> bi_id ` set items) \<longrightarrow>
    (\<exists>groups. concat groups = items \<and> (items \<noteq> [] \<longrightarrow> [] \<notin> set groups) \<and>
      list_all2 (plan_outcome builder key ts mx) groups (plans pl) \<and>
      list_all2 (plan_serves pending) groups (plans pl))"], goal_cases)
  case (1 pending items err)
  then show ?case by (intro impI exI [of _ "[items]"]) (auto intro!: plan_serves_all)
next
  case (2 pending items payload)
  then show ?case by (intro impI exI [of _ "[items]"]) (auto intro!: plan_serves_all)
next
  case (3 pending items payload)
  then show ?case by (intro impI exI [of _ "[items]"]) (auto intro!: plan_serves_all)
next
  case split: (4 pending items left_items right_items lp rp left right)
  show ?case
  proof
    assume asm: "hm_ok pending \<and> distinct (map bi_id items) \<and> fst ` set pending \<subseteq> bi_id ` set items"
    note sp = split(4)
    have "distinct (map bi_id (left_items @ right_items))" using asm by (simp only: split(1))
    then have ids: "bi_id ` set left_items \<inter> bi_id ` set right_items = {}"
      "distinct (map bi_id left_items)" "distinct (map bi_id right_items)"
      unfolding map_append distinct_append set_map by blast+
    have keys: "fst ` set lp = fst ` set pending \<inter> bi_id ` set left_items"
      "fst ` set rp = fst ` set pending - bi_id ` set left_items"
      using split_pending_keys [OF sp] by auto
    have "bi_id ` set items = bi_id ` set left_items \<union> bi_id ` set right_items" using split(1) by auto
    then have r: "fst ` set rp \<subseteq> bi_id ` set right_items" using asm keys(2) by auto
    have ok: "hm_ok lp" "hm_ok rp" and ms: "mset lp + mset rp = mset pending"
      using split_pending_mset [OF _ sp] asm by auto
    have un: "set pending = set lp \<union> set rp" using ms by (metis set_mset_mset set_mset_union)
    obtain gl where gl: "concat gl = left_items" "[] \<notin> set gl"
      "list_all2 (plan_outcome builder key ts mx) gl (plans left)" "list_all2 (plan_serves lp) gl (plans left)"
      using split(5) ok ids keys split(2) by auto
    obtain gr where gr: "concat gr = right_items" "[] \<notin> set gr"
      "list_all2 (plan_outcome builder key ts mx) gr (plans right)" "list_all2 (plan_serves rp) gr (plans right)"
      using split(6) ok ids r split(3) by auto
    have sl: "plan_serves pending g p" if "plan_serves lp g p" "g \<in> set gl" for g p
    proof -
      have "bi_id ` set g \<subseteq> bi_id ` set left_items"
        using that(2) unfolding gl(1) [symmetric] set_concat by blast
      then show ?thesis
        by (rule plan_serves_sub [OF that(1) _ un]) (use keys(2) in auto)
    qed
    have L: "list_all2 (plan_serves pending) gl (plans left)"
      by (rule list.rel_mono_strong [OF gl(4)]) (rule sl)
    have sr: "plan_serves pending g p" if "plan_serves rp g p" "g \<in> set gr" for g p
    proof -
      have "bi_id ` set g \<subseteq> bi_id ` set right_items"
        using that(2) unfolding gr(1) [symmetric] set_concat by blast
      then show ?thesis
        by (rule plan_serves_sub [OF that(1) _ un [unfolded Un_commute [of "set lp"]]])
           (use keys(1) ids(1) in auto)
    qed
    have R: "list_all2 (plan_serves pending) gr (plans right)"
      by (rule list.rel_mono_strong [OF gr(4)]) (rule sr)
    show "\<exists>groups. concat groups = items \<and> (items \<noteq> [] \<longrightarrow> [] \<notin> set groups) \<and>
      list_all2 (plan_outcome builder key ts mx) groups (plans \<lparr>plans = plans left @ plans right,
        split_count = 1 + split_count left + split_count right,
        oversized_single_count = oversized_single_count left + oversized_single_count right\<rparr>) \<and>
      list_all2 (plan_serves pending) groups (plans \<lparr>plans = plans left @ plans right,
        split_count = 1 + split_count left + split_count right,
        oversized_single_count = oversized_single_count left + oversized_single_count right\<rparr>)"
      using gl gr L R split(1) by (intro exI [of _ "gl @ gr"]) (auto intro: list_all2_appendI)
  qed
qed

text \<open>The split stops at the largest groups that fit, so nothing fails unless one item alone does.\<close>

lemma plan_no_fail:
  "(\<forall>i \<in> set items. \<exists>payload. builder key ts [i] = Inr payload \<and> length payload \<le> mx) \<and> items \<noteq> [] \<and>
   (\<forall>grp. \<exists>payload. builder key ts grp = Inr payload) \<longrightarrow>
   (\<forall>p \<in> set (plans (plan_invocations builder key ts mx pending items)). \<exists>pd pl. p = Invoke pd pl) \<and>
   oversized_single_count (plan_invocations builder key ts mx pending items) = 0"
proof (rule plan_induct [where P = "\<lambda>pending items pl.
    (\<forall>i \<in> set items. \<exists>payload. builder key ts [i] = Inr payload \<and> length payload \<le> mx) \<and> items \<noteq> [] \<and>
    (\<forall>grp. \<exists>payload. builder key ts grp = Inr payload) \<longrightarrow>
    (\<forall>p \<in> set (plans pl). \<exists>pd pl. p = Invoke pd pl) \<and> oversized_single_count pl = 0"], goal_cases)
  case (1 pending items err)
  then show ?case by (metis Inl_Inr_False)
next
  case (2 pending items payload)
  then show ?case by simp
next
  case (3 pending items payload)
  show ?case
  proof (cases items)
    case Nil
    then show ?thesis by simp
  next
    case (Cons i rest)
    then have "items = [i]" using 3(3) by simp
    then show ?thesis using 3(1,2) by auto
  qed
next
  case (4 pending items left_items right_items lp rp left right)
  have "set left_items \<subseteq> set items" "set right_items \<subseteq> set items" using 4(1) by auto
  then show ?case using 4(2,3,5,6) by auto
qed

lemma plan_oversized_count:
  "oversized_single_count (plan_invocations builder key ts mx pending items) =
   length (filter (\<lambda>p. case p of Fail _ status _ \<Rightarrow> status = BAD_GATEWAY | _ \<Rightarrow> False)
     (plans (plan_invocations builder key ts mx pending items)))"
  by (rule plan_induct [where P = "\<lambda>pending items pl. oversized_single_count pl =
    length (filter (\<lambda>p. case p of Fail _ status _ \<Rightarrow> status = BAD_GATEWAY | _ \<Rightarrow> False) (plans pl))"])
    (simp_all add: BAD_GATEWAY_def INTERNAL_SERVER_ERROR_def)

subsection \<open>The event of one invocation\<close>

text \<open>
  \<open>batch_event_builder.rs\<close> with the \<open>Serialize\<close> attributes of \<open>wire.rs\<close>: the value tree
  of the event in declaration order; \<open>json_to_vec\<close> renders it. The item's \<open>id\<close> is not a field
  of the event, it travels as \<open>requestContext.requestId\<close>.
\<close>

definition json_string_map :: "(string, string) hashmap \<Rightarrow> json" where
  "json_string_map m = JObject (map (\<lambda>(k, v). (k, JString v)) m)"

definition opt_field :: "string \<Rightarrow> ('a \<Rightarrow> json) \<Rightarrow> 'a option \<Rightarrow> (string \<times> json) list" where
  "opt_field name f x = (case x of None \<Rightarrow> [] | Some y \<Rightarrow> [(name, f y)])"

definition map_field :: "string \<Rightarrow> (string, string) hashmap \<Rightarrow> (string \<times> json) list" where
  "map_field name m = (if m = [] then [] else [(name, json_string_map m)])"

definition http_description_json :: "http_description \<Rightarrow> json" where
  "http_description_json h = JObject
     ([(''method'', JString (hd_method h)), (''path'', JString (hd_path h)),
       (''protocol'', JString (hd_protocol h))]
      @ opt_field ''sourceIp'' JString (hd_source_ip h)
      @ opt_field ''userAgent'' JString (hd_user_agent h))"

definition request_context_json :: "request_context \<Rightarrow> json" where
  "request_context_json c = JObject
     (opt_field ''accountId'' JString (rc_account_id c) @ opt_field ''apiId'' JString (rc_api_id c)
      @ opt_field ''domainName'' JString (rc_domain_name c)
      @ opt_field ''domainPrefix'' JString (rc_domain_prefix c)
      @ [(''routeKey'', JString (rc_route_key c)), (''stage'', JString (rc_stage c)),
         (''requestId'', JString (rc_request_id c))]
      @ opt_field ''time'' JString (rc_time c)
      @ [(''timeEpoch'', JNumber (if rc_time_epoch c < 0 then NegInt (rc_time_epoch c)
                                 else PosInt (word_of_int (rc_time_epoch c)))),
         (''http'', http_description_json (rc_http c))])"

definition batch_item_json :: "batch_item \<Rightarrow> json" where
  "batch_item_json i = JObject
     ([(''version'', JString (bi_version i)), (''routeKey'', JString (bi_route_key i)),
       (''rawPath'', JString (bi_raw_path i)), (''rawQueryString'', JString (bi_raw_query_string i))]
      @ opt_field ''cookies'' (\<lambda>cs. JArray (map JString cs)) (bi_cookies i)
      @ [(''headers'', json_string_map (bi_headers i))]
      @ map_field ''queryStringParameters'' (bi_query_string_parameters i)
      @ map_field ''pathParameters'' (bi_path_parameters i)
      @ [(''requestContext'', request_context_json (bi_request_context i))]
      @ map_field ''stageVariables'' (bi_stage_variables i)
      @ opt_field ''body'' JString (bi_body i)
      @ [(''isBase64Encoded'', JBool (bi_is_base64_encoded i))])"

definition v1_event :: "batch_key \<Rightarrow> u64 \<Rightarrow> batch_item list \<Rightarrow> json" where
  "v1_event key received_at_ms batch_items = JObject
     [(''v'', JNumber (PosInt 1)),
      (''meta'', JObject [(''gateway'', JString ''khone''), (''route'', JString (bk_route key)),
                         (''receivedAtMs'', JNumber (PosInt received_at_ms))]),
      (''batch'', JArray (map batch_item_json batch_items))]"

definition v1_build_payload :: "ext_lib \<Rightarrow> event_builder" where
  "v1_build_payload ext key received_at_ms batch_items = json_to_vec ext (v1_event key received_at_ms batch_items)"

text \<open>What the function receives: the ids of a batch read back from the event, in batch order.\<close>

definition event_request_id :: "json \<Rightarrow> string option" where
  "event_request_id j = (case json_get j ''requestContext'' of None \<Rightarrow> None
     | Some c \<Rightarrow> (case json_get c ''requestId'' of None \<Rightarrow> None | Some x \<Rightarrow> json_as_str x))"

lemma hm_get_append: "hm_get (a @ b) k = (case hm_get a k of None \<Rightarrow> hm_get b k | Some v \<Rightarrow> Some v)"
  by (simp add: hm_get_def map_add_def split: option.splits)

lemma event_request_id_item [simp]:
  "event_request_id (batch_item_json i) = Some (rc_request_id (bi_request_context i))"
  by (simp add: event_request_id_def batch_item_json_def request_context_json_def opt_field_def
      map_field_def hm_get_append split: option.splits)

lemma v1_event_items:
  "json_get (v1_event key ts items) ''batch'' = Some (JArray (map batch_item_json items))"
  by (simp add: v1_event_def)

subsection \<open>Properties\<close>

text \<open>C8: The planner cuts a batch into consecutive non-empty groups, one plan per group in order.
  A group is invoked with exactly its own encoded payload, which fits the limit; it fails only when
  it cannot be encoded (500) or is a single item that is too large (502). Each plan carries exactly
  the waiting callers of its group, and every caller is in exactly one plan.\<close>

theorem plan_partitions_batch:
  assumes "hm_ok pending" "distinct (map bi_id items)" "fst ` set pending \<subseteq> bi_id ` set items"
    and "items \<noteq> []"
  shows "\<exists>groups. concat groups = items \<and> [] \<notin> set groups \<and>
     list_all2 (plan_outcome builder key ts mx) groups
       (plans (plan_invocations builder key ts mx pending items)) \<and>
     list_all2 (plan_serves pending) groups
       (plans (plan_invocations builder key ts mx pending items)) \<and>
     mset (concat (map plan_pending (plans (plan_invocations builder key ts mx pending items)))) = mset pending"
  using plan_groups_lemma [of pending items builder key ts mx] plan_conserves [of pending builder key ts mx items]
    assms by blast

definition example_context :: "string \<Rightarrow> request_context" where
  "example_context i = \<lparr>rc_account_id = None, rc_api_id = None, rc_domain_name = None, rc_domain_prefix = None,
     rc_route_key = ''GET /a'', rc_stage = ''$default'', rc_request_id = i, rc_time = None, rc_time_epoch = 0,
     rc_http = \<lparr>hd_method = ''GET'', hd_path = ''/a'', hd_protocol = ''HTTP/1.1'', hd_source_ip = None,
                hd_user_agent = None\<rparr>\<rparr>"

definition example_item :: "string \<Rightarrow> batch_item" where
  "example_item i = \<lparr>bi_id = i, bi_version = ''2.0'', bi_route_key = ''GET /a'', bi_raw_path = ''/a'',
     bi_raw_query_string = [], bi_cookies = None, bi_headers = [], bi_query_string_parameters = [],
     bi_path_parameters = [], bi_request_context = example_context i, bi_stage_variables = [],
     bi_body = None, bi_is_base64_encoded = False\<rparr>"

definition example_key :: batch_key where
  "example_key = \<lparr>bk_target_lambda = ''arn'', bk_method = ''GET'', bk_route = ''/a'', bk_invoke_mode = Buffered,
     bk_profiling = False, bk_key_values = []\<rparr>"

definition example_builder :: event_builder where
  "example_builder k t items = Inr (concat (map bi_id items))"

lemma bi_id_example [simp]: "bi_id (example_item i) = i"
  by (simp add: example_item_def)

theorem plan_partitions_batch_witness:
  "\<exists>groups. concat groups = [example_item ''r1'', example_item ''r2''] \<and> [] \<notin> set groups \<and>
     list_all2 (plan_outcome example_builder example_key 0 3) groups
       (plans (plan_invocations example_builder example_key 0 3 [(''r2'', 7::chan), (''r1'', 8)]
         [example_item ''r1'', example_item ''r2''])) \<and>
     list_all2 (plan_serves [(''r2'', 7::chan), (''r1'', 8)]) groups
       (plans (plan_invocations example_builder example_key 0 3 [(''r2'', 7::chan), (''r1'', 8)]
         [example_item ''r1'', example_item ''r2''])) \<and>
     mset (concat (map plan_pending (plans (plan_invocations example_builder example_key 0 3
       [(''r2'', 7::chan), (''r1'', 8)] [example_item ''r1'', example_item ''r2''])))) =
     mset [(''r2'', 7::chan), (''r1'', 8)]"
  by (rule plan_partitions_batch) auto

text \<open>When every batch can be encoded and every single item fits the limit, no caller is failed by
  the planner: every plan is an invocation and no item is counted as oversized.\<close>

theorem plan_all_invoked:
  assumes "\<And>grp. \<exists>payload. builder key ts grp = Inr payload"
    and "\<And>i. i \<in> set items \<Longrightarrow> \<exists>payload. builder key ts [i] = Inr payload \<and> length payload \<le> mx"
    and "items \<noteq> []"
  shows "list_all (\<lambda>p. \<exists>pd pl. p = Invoke pd pl) (plans (plan_invocations builder key ts mx pending items)) \<and>
    oversized_single_count (plan_invocations builder key ts mx pending items) = 0"
  using plan_no_fail [of items builder key ts mx pending] assms by (simp add: list_all_iff)

theorem plan_all_invoked_witness:
  "list_all (\<lambda>p. \<exists>pd pl. p = Invoke pd pl) (plans (plan_invocations example_builder example_key 0 3 [(''r1'', 8::chan)]
      [example_item ''r1'', example_item ''r2''])) \<and>
    oversized_single_count (plan_invocations example_builder example_key 0 3 [(''r1'', 8::chan)]
      [example_item ''r1'', example_item ''r2'']) = 0"
  by (rule plan_all_invoked) (auto simp: example_builder_def)

end
