(* ===== verification/Response_Parts.thy ===== *)
theory Response_Parts
  imports Planner
begin

text \<open>
  \<open>response_dispatch/parts.rs\<close>: the HTTP response of one record (status, headers, cookies,
  body), and the \<open>fail_all\<close> helpers of \<open>response_dispatch.rs\<close>. A send on a caller's channel is
  an entry of the output list, in the order of the code.
\<close>

fun headers_from_map_loop ::
  "ext_lib \<Rightarrow> header_map \<Rightarrow> (string \<times> string) list \<Rightarrow> header_map res" where
  "headers_from_map_loop ext headers [] = Inr headers"
| "headers_from_map_loop ext headers ((k, v) # rest) =
     (case header_name_from_bytes ext k of
        Inl e \<Rightarrow> Inl e
      | Inr name \<Rightarrow>
          (case header_value_from_str ext v of
             Inl e \<Rightarrow> Inl e
           | Inr val \<Rightarrow> headers_from_map_loop ext (hdr_insert name val headers) rest))"

definition headers_from_map :: "ext_lib \<Rightarrow> (string, string) hashmap \<Rightarrow> header_map res" where
  "headers_from_map ext headers_in = headers_from_map_loop ext [] headers_in"

fun append_cookies :: "ext_lib \<Rightarrow> header_map \<Rightarrow> string list \<Rightarrow> header_map res" where
  "append_cookies ext headers [] = Inr headers"
| "append_cookies ext headers (c # cookies) =
     (if trim c = [] then append_cookies ext headers cookies
      else (case header_value_from_str ext (trim c) of
              Inl e \<Rightarrow> Inl e
            | Inr val \<Rightarrow> append_cookies ext (hdr_append ''set-cookie'' val headers) cookies))"

definition decode_body_bytes :: "ext_lib \<Rightarrow> string \<Rightarrow> bool \<Rightarrow> bytes res" where
  "decode_body_bytes ext body is_base64_encoded =
     (if is_base64_encoded then b64_decode ext body else Inr body)"

definition build_gateway_response_parts ::
  "ext_lib \<Rightarrow> u16 \<Rightarrow> (string, string) hashmap \<Rightarrow> string list \<Rightarrow> string \<Rightarrow> bool \<Rightarrow> gateway_response res" where
  "build_gateway_response_parts ext status_code headers_in cookies body is_base64_encoded =
     (case status_from_u16 ext status_code of
        Inl e \<Rightarrow> Inl e
      | Inr status \<Rightarrow>
          (case headers_from_map ext headers_in of
             Inl e \<Rightarrow> Inl e
           | Inr headers \<Rightarrow>
               (case append_cookies ext headers cookies of
                  Inl e \<Rightarrow> Inl e
                | Inr headers \<Rightarrow>
                    (case decode_body_bytes ext body is_base64_encoded of
                       Inl e \<Rightarrow> Inl e
                     | Inr body_bytes \<Rightarrow>
                         Inr \<lparr>gr_status = status, gr_headers = headers, gr_body = body_bytes,
                              gr_meta = None\<rparr>))))"

subsection \<open>Failing every waiting caller\<close>

definition fail_all_buffered_impl ::
  "(string, chan) hashmap \<Rightarrow> nat \<Rightarrow> u64 \<Rightarrow> u64 option \<Rightarrow> u16 \<Rightarrow> string \<Rightarrow> (chan \<times> gateway_response) list" where
  "fail_all_buffered_impl pending batch_size wait_ms target_elapsed_ms status msg =
     map (\<lambda>(_, tx). (tx, with_meta batch_size wait_ms target_elapsed_ms (response_text status msg))) pending"

text \<open>
  On the streaming side a caller has an init channel (taken once) and a body channel. Dropping an
  init sender that was not used tells the caller that no response will come; dropping the body
  sender ends the body.
\<close>

datatype stream_out =
    SendInit chan stream_init
  | DropInit chan
  | SendBody chan bytes
  | DropBody chan

definition drop_pending :: "stream_pending \<Rightarrow> stream_out list" where
  "drop_pending e = (case sp_init e of None \<Rightarrow> [] | Some tx \<Rightarrow> [DropInit tx]) @ [DropBody (sp_body e)]"

definition fail_stream_entry ::
  "nat \<Rightarrow> u64 \<Rightarrow> u64 option \<Rightarrow> u16 \<Rightarrow> string \<Rightarrow> stream_pending \<Rightarrow> stream_out list" where
  "fail_stream_entry batch_size wait_ms target_elapsed_ms status msg e =
     (case sp_init e of
        Some init \<Rightarrow> [SendInit init (InitResponse
            (with_meta batch_size wait_ms target_elapsed_ms (response_text status msg)))]
      | None \<Rightarrow> []) @ [DropBody (sp_body e)]"

definition fail_all_stream_impl ::
  "(string, stream_pending) hashmap \<Rightarrow> nat \<Rightarrow> u64 \<Rightarrow> u64 option \<Rightarrow> u16 \<Rightarrow> string \<Rightarrow> stream_out list" where
  "fail_all_stream_impl pending batch_size wait_ms target_elapsed_ms status msg =
     concat (map (\<lambda>(_, e). fail_stream_entry batch_size wait_ms target_elapsed_ms status msg e) pending)"

subsection \<open>Lemmas\<close>

lemma fail_all_buffered_chans [exactly_once]:
  "map fst (fail_all_buffered_impl pending n w el st msg) = map snd pending"
  by (induction pending) (auto simp: fail_all_buffered_impl_def)

lemma append_cookies_values:
  assumes "\<And>s v. header_value_from_str ext s = Inr v \<Longrightarrow> v = s"
  shows "append_cookies ext h cookies = Inr h' \<Longrightarrow>
    hdr_get_all h' n = hdr_get_all h n @
      (if n = ''set-cookie'' then filter (\<lambda>c. c \<noteq> []) (map trim cookies) else [])"
proof (induction cookies arbitrary: h)
  case Nil
  then show ?case by simp
next
  case (Cons c cookies)
  show ?case
  proof (cases "trim c = []")
    case True
    then show ?thesis using Cons by simp
  next
    case False
    then obtain v where v: "header_value_from_str ext (trim c) = Inr v"
      "append_cookies ext (hdr_append ''set-cookie'' v h) cookies = Inr h'"
      using Cons.prems by (auto split: sum.splits)
    show ?thesis using Cons.IH [OF v(2)] assms [OF v(1)] False by auto
  qed
qed

lemma headers_from_map_loop_get:
  assumes name: "\<And>s v. header_name_from_bytes ext s = Inr v \<Longrightarrow> v = ascii_lower s"
    and val: "\<And>s v. header_value_from_str ext s = Inr v \<Longrightarrow> v = s"
  shows "headers_from_map_loop ext h xs = Inr h' \<Longrightarrow>
    hdr_get_all h' n = (case find (\<lambda>p. ascii_lower (fst p) = n) (rev xs) of
       Some p \<Rightarrow> [snd p] | None \<Rightarrow> hdr_get_all h n)"
proof (induction xs arbitrary: h)
  case Nil
  then show ?case by simp
next
  case (Cons x rest)
  obtain k v where x: "x = (k, v)" by (cases x)
  have f: "find P (xs @ [y]) = (case find P xs of Some z \<Rightarrow> Some z | None \<Rightarrow> if P y then Some y else None)"
    for P :: "string \<times> string \<Rightarrow> bool" and xs y
    by (induction xs) auto
  from Cons.prems obtain k' v' where kv: "header_name_from_bytes ext k = Inr k'"
    "header_value_from_str ext v = Inr v'"
    and rest: "headers_from_map_loop ext (hdr_insert k' v' h) rest = Inr h'"
    by (auto simp: x split: sum.splits)
  show ?case
    using Cons.IH [OF rest] name [OF kv(1)] val [OF kv(2)] by (auto simp: f x split: option.splits)
qed

lemma build_parts_Inr:
  "build_gateway_response_parts ext sc hs cs body b64 = Inr r \<Longrightarrow>
   \<exists>h0. status_from_u16 ext sc = Inr (gr_status r) \<and> headers_from_map ext hs = Inr h0 \<and>
     append_cookies ext h0 cs = Inr (gr_headers r) \<and> decode_body_bytes ext body b64 = Inr (gr_body r) \<and>
     gr_meta r = None"
  by (auto simp: build_gateway_response_parts_def split: sum.splits)

lemma encode_body_decodes:
  assumes "\<And>b. b64_decode ext (b64_encode ext b) = Inr b"
  shows "encode_body ext body = (enc, b64) \<Longrightarrow>
    decode_body_bytes ext (case enc of Some s \<Rightarrow> s | None \<Rightarrow> []) b64 = Inr body"
  using assms by (auto simp: encode_body_def decode_body_bytes_def split: if_splits)

end
