(* ===== verification/Buffered.thy ===== *)
theory Buffered
  imports Response_Parts
begin

text \<open>
  \<open>response_dispatch/buffered.rs\<close>: one buffered invocation response is parsed and handed out to
  the waiting callers. The output is the list of sends, in order. \<open>buffered_answer\<close> is the
  abstract contract: what the caller with a given request id must receive.
\<close>

definition buffered_response :: "ext_lib \<Rightarrow> batch_response_item \<Rightarrow> gateway_response" where
  "buffered_response ext item =
     (case build_gateway_response_parts ext (bri_status_code item) (bri_headers item) (bri_cookies item)
             (bri_body item) (bri_is_base64_encoded item) of
        Inr r \<Rightarrow> r
      | Inl err \<Rightarrow> response_text BAD_GATEWAY (''bad response: '' @ err))"

fun dispatch_buffered_loop ::
  "ext_lib \<Rightarrow> nat \<Rightarrow> u64 \<Rightarrow> u64 \<Rightarrow> (string, chan) hashmap \<Rightarrow> batch_response_item list \<Rightarrow>
   (chan \<times> gateway_response) list \<times> (string, chan) hashmap" where
  "dispatch_buffered_loop ext batch_size wait_ms target_elapsed_ms pending [] = ([], pending)"
| "dispatch_buffered_loop ext batch_size wait_ms target_elapsed_ms pending (item # items) =
     (case hm_get pending (bri_id item) of
        None \<Rightarrow> dispatch_buffered_loop ext batch_size wait_ms target_elapsed_ms pending items
      | Some tx \<Rightarrow>
          let resp = with_meta batch_size wait_ms (Some target_elapsed_ms) (buffered_response ext item);
              (sends, rest) = dispatch_buffered_loop ext batch_size wait_ms target_elapsed_ms
                (hm_delete (bri_id item) pending) items
          in ((tx, resp) # sends, rest))"

definition dispatch_buffered_impl ::
  "ext_lib \<Rightarrow> batch_key \<Rightarrow> u64 \<Rightarrow> u64 \<Rightarrow> bytes \<Rightarrow> (string, chan) hashmap \<Rightarrow> (chan \<times> gateway_response) list" where
  "dispatch_buffered_impl ext key wait_ms target_elapsed_ms resp_bytes pending =
     (let batch_size = length pending in
      case batch_response_from_slice ext resp_bytes of
        Inl err \<Rightarrow>
          fail_all_buffered_impl pending batch_size wait_ms (Some target_elapsed_ms) BAD_GATEWAY
            (''decode response: '' @ err)
      | Inr parsed \<Rightarrow>
          if br_v parsed \<noteq> 1 then
            fail_all_buffered_impl pending batch_size wait_ms (Some target_elapsed_ms) BAD_GATEWAY
              (''unsupported response version: '' @ dec (unat (br_v parsed)))
          else
            let (sends, missing) = dispatch_buffered_loop ext batch_size wait_ms target_elapsed_ms
                  pending (br_responses parsed)
            in sends @ fail_all_buffered_impl missing batch_size wait_ms (Some target_elapsed_ms)
                 BAD_GATEWAY ''missing response record'')"

subsection \<open>The contract\<close>

text \<open>The first record of an id answers it; an id without a record gets the missing-record error.\<close>

definition record_answer :: "ext_lib \<Rightarrow> batch_response_item list \<Rightarrow> string \<Rightarrow> gateway_response" where
  "record_answer ext items i =
     (case find (\<lambda>r. bri_id r = i) items of
        Some item \<Rightarrow> buffered_response ext item
      | None \<Rightarrow> response_text BAD_GATEWAY ''missing response record'')"

definition buffered_answer :: "ext_lib \<Rightarrow> bytes \<Rightarrow> string \<Rightarrow> gateway_response" where
  "buffered_answer ext resp_bytes i =
     (case batch_response_from_slice ext resp_bytes of
        Inl err \<Rightarrow> response_text BAD_GATEWAY (''decode response: '' @ err)
      | Inr parsed \<Rightarrow>
          if br_v parsed \<noteq> 1
          then response_text BAD_GATEWAY (''unsupported response version: '' @ dec (unat (br_v parsed)))
          else record_answer ext (br_responses parsed) i)"

subsection \<open>Lemmas\<close>

lemma dispatch_buffered_loop_spec:
  assumes "hm_ok pending"
    and "dispatch_buffered_loop ext n w el pending items = (sends, rest)"
  shows "mset (sends @ fail_all_buffered_impl rest n w (Some el) BAD_GATEWAY ''missing response record'') =
    mset (map (\<lambda>(i, tx). (tx, with_meta n w (Some el) (record_answer ext items i))) pending)"
  using assms
proof (induction items arbitrary: pending sends rest)
  case Nil
  then show ?case by (simp add: fail_all_buffered_impl_def record_answer_def)
next
  case (Cons item items)
  show ?case
  proof (cases "hm_get pending (bri_id item)")
    case None
    then have eq: "map (\<lambda>(i, tx). (tx, with_meta n w (Some el) (record_answer ext (item # items) i))) pending =
       map (\<lambda>(i, tx). (tx, with_meta n w (Some el) (record_answer ext items i))) pending"
      by (intro map_keys_cong) (use None in \<open>auto simp: record_answer_def hm_get_None_iff\<close>)
    have "dispatch_buffered_loop ext n w el pending items = (sends, rest)"
      using Cons.prems(2) None by simp
    from Cons.IH [OF Cons.prems(1) this] show ?thesis unfolding eq .
  next
    case (Some tx)
    let ?p = "hm_delete (bri_id item) pending"
    obtain sends' where s: "dispatch_buffered_loop ext n w el ?p items = (sends', rest)"
      "sends = (tx, with_meta n w (Some el) (buffered_response ext item)) # sends'"
      using Cons.prems(2) Some by (auto split: prod.splits simp: Let_def)
    have ok: "hm_ok ?p" using Cons.prems(1) by simp
    have keys: "bri_id item \<notin> fst ` set ?p" by simp
    have eq: "map (\<lambda>(i, tx). (tx, with_meta n w (Some el) (record_answer ext items i))) ?p =
       map (\<lambda>(i, tx). (tx, with_meta n w (Some el) (record_answer ext (item # items) i))) ?p"
      by (rule map_keys_cong) (use keys in \<open>auto simp: record_answer_def\<close>)
    have here: "record_answer ext (item # items) (bri_id item) = buffered_response ext item"
      by (simp add: record_answer_def)
    show ?thesis
      using Cons.IH [OF ok s(1)] mset_hm_delete [OF Cons.prems(1) Some]
      by (simp add: s(2) eq here)
  qed
qed

lemma dispatch_buffered_spec [exactly_once]:
  assumes "hm_ok pending"
  shows "mset (dispatch_buffered_impl ext key w el bytes pending) =
    mset (map (\<lambda>(i, tx). (tx, with_meta (length pending) w (Some el) (buffered_answer ext bytes i))) pending)"
proof (cases "batch_response_from_slice ext bytes")
  case (Inl err)
  then show ?thesis
    by (simp add: dispatch_buffered_impl_def fail_all_buffered_impl_def buffered_answer_def)
next
  case (Inr parsed)
  show ?thesis
  proof (cases "br_v parsed = 1")
    case False
    then show ?thesis using Inr
      by (simp add: dispatch_buffered_impl_def fail_all_buffered_impl_def buffered_answer_def)
  next
    case True
    obtain sends rest where lp:
      "dispatch_buffered_loop ext (length pending) w el pending (br_responses parsed) = (sends, rest)"
      by (cases "dispatch_buffered_loop ext (length pending) w el pending (br_responses parsed)")
    show ?thesis using dispatch_buffered_loop_spec [OF assms lp] True Inr lp
      by (simp add: dispatch_buffered_impl_def buffered_answer_def)
  qed
qed

lemma dispatch_buffered_chans [exactly_once]:
  assumes "hm_ok pending"
  shows "mset (map fst (dispatch_buffered_impl ext key w el bytes pending)) = mset (map snd pending)"
proof -
  have "mset (map fst (dispatch_buffered_impl ext key w el bytes pending)) =
    image_mset fst (mset (dispatch_buffered_impl ext key w el bytes pending))" by simp
  then show ?thesis
    by (simp add: dispatch_buffered_spec [OF assms] multiset.map_comp comp_def case_prod_beta)
qed

subsection \<open>Properties\<close>

text \<open>C9: A buffered invocation response answers every waiting caller exactly once, and with the answer
  the contract names for its request id: the first record of that id turned into a response (or a 502
  when that record is malformed), a 502 when no record has the id, and the same 502 for all when the
  whole body cannot be decoded or has another version. Each answer carries the batch size and timings.\<close>

theorem buffered_dispatch_contract:
  assumes "hm_ok pending"
  shows "mset (dispatch_buffered_impl ext key wait_ms elapsed resp_bytes pending) =
    mset (map (\<lambda>(i, tx). (tx, with_meta (length pending) wait_ms (Some elapsed)
      (buffered_answer ext resp_bytes i))) pending)"
  by (rule dispatch_buffered_spec [OF assms])

definition example_record :: "string \<Rightarrow> u16 \<Rightarrow> batch_response_item" where
  "example_record i sc = \<lparr>bri_id = i, bri_status_code = sc, bri_headers = [(''x-a'', ''1'')],
     bri_cookies = ['' c=1 '', []], bri_body = ''ok'', bri_is_base64_encoded = False\<rparr>"

definition example_ext :: ext_lib where
  "example_ext = \<lparr>status_from_u16 = (\<lambda>s. if 100 \<le> s \<and> s < 1000 then Inr s else Inl ''invalid status code''),
     header_name_from_bytes = (\<lambda>s. Inr (ascii_lower s)), header_value_from_str = Inr,
     b64_encode = (\<lambda>s. CHR ''!'' # s), b64_decode = (\<lambda>s. Inr (tl s)),
     json_from_slice = (\<lambda>s. Inr (JString s)), json_to_vec = (\<lambda>j. Inr ''json''),
     batch_response_from_slice = (\<lambda>s. Inr \<lparr>br_v = 1,
       br_responses = [example_record ''b'' 200, example_record ''a'' 7, example_record ''b'' 500]\<rparr>),
     legacy_from_value = (\<lambda>j. Inl ''legacy''), interleaved_from_value = (\<lambda>j. Inl ''interleaved'')\<rparr>"

theorem buffered_dispatch_contract_witness:
  "mset (dispatch_buffered_impl example_ext example_key 5 9 ''x'' [(''a'', 1), (''b'', 2), (''c'', 3)]) =
    mset (map (\<lambda>(i, tx). (tx, with_meta 3 5 (Some 9) (buffered_answer example_ext ''x'' i)))
      [(''a'', 1), (''b'', 2), (''c'', 3)])"
  using buffered_dispatch_contract [of "[(''a'', 1), (''b'', 2), (''c'', 3)]" example_ext example_key 5 9 "''x''"]
  by (simp add: numeral_3_eq_3)

text \<open>C32: A request body survives the encoding the gateway sends and the decoding its peer applies
  (the same rule as for response bodies), whatever its bytes: text without NUL travels as it is,
  anything else as base64, the empty body as an absent field.\<close>

theorem body_round_trip:
  assumes "\<And>b. b64_decode ext (b64_encode ext b) = Inr b"
  shows "(case encode_body ext body of (enc, b64) \<Rightarrow>
     decode_body_bytes ext (case enc of Some s \<Rightarrow> s | None \<Rightarrow> []) b64 = Inr body \<and>
     (enc = None \<longleftrightarrow> body = []) \<and>
     (\<not> b64 \<longrightarrow> CHR 0x00 \<notin> set body \<and> (body = [] \<or> utf8_valid body)))"
proof (cases "encode_body ext body")
  case (Pair enc b64)
  then show ?thesis using encode_body_decodes [OF assms Pair]
    by (auto simp: encode_body_def split: if_splits)
qed

theorem body_round_trip_witness:
  "(case encode_body example_ext [CHR ''a'', CHR 0x00] of (enc, b64) \<Rightarrow>
     decode_body_bytes example_ext (case enc of Some s \<Rightarrow> s | None \<Rightarrow> []) b64 = Inr [CHR ''a'', CHR 0x00] \<and>
     (enc = None \<longleftrightarrow> [CHR ''a'', CHR 0x00] = []) \<and>
     (\<not> b64 \<longrightarrow> CHR 0x00 \<notin> set [CHR ''a'', CHR 0x00] \<and>
       ([CHR ''a'', CHR 0x00] = [] \<or> utf8_valid [CHR ''a'', CHR 0x00])))"
  by (rule body_round_trip) (simp add: example_ext_def)

text \<open>The response built from a record has the record's status, its decoded body, one value per header
  name (the last one given for the name), and after those of the headers one \<open>set-cookie\<close> value per
  non-blank cookie, trimmed and in order.\<close>

theorem response_parts_contents:
  assumes "\<And>s v. header_name_from_bytes ext s = Inr v \<Longrightarrow> v = ascii_lower s"
    and "\<And>s v. header_value_from_str ext s = Inr v \<Longrightarrow> v = s"
    and "build_gateway_response_parts ext sc hs cookies body b64 = Inr r"
  shows "status_from_u16 ext sc = Inr (gr_status r) \<and> decode_body_bytes ext body b64 = Inr (gr_body r) \<and>
    (\<forall>n. hdr_get_all (gr_headers r) n =
       (case find (\<lambda>p. ascii_lower (fst p) = n) (rev hs) of Some p \<Rightarrow> [snd p] | None \<Rightarrow> []) @
       (if n = ''set-cookie'' then filter (\<lambda>c. c \<noteq> []) (map trim cookies) else []))"
proof -
  obtain h0 where h0: "status_from_u16 ext sc = Inr (gr_status r)" "headers_from_map ext hs = Inr h0"
    "append_cookies ext h0 cookies = Inr (gr_headers r)" "decode_body_bytes ext body b64 = Inr (gr_body r)"
    using build_parts_Inr [OF assms(3)] by blast
  show ?thesis
    using h0(1,4) append_cookies_values [OF assms(2) h0(3)]
      headers_from_map_loop_get [OF assms(1,2) h0(2) [unfolded headers_from_map_def]]
    by (simp add: hdr_get_all_def split: option.splits)
qed

theorem response_parts_contents_witness:
  "\<exists>r. build_gateway_response_parts example_ext 200 [(''X-A'', ''1'')] ['' c=1 ''] ''ok'' False = Inr r \<and>
    status_from_u16 example_ext 200 = Inr (gr_status r) \<and> decode_body_bytes example_ext ''ok'' False = Inr (gr_body r) \<and>
    (\<forall>n. hdr_get_all (gr_headers r) n =
       (case find (\<lambda>p. ascii_lower (fst p) = n) (rev [(''X-A'', ''1'')]) of Some p \<Rightarrow> [snd p] | None \<Rightarrow> []) @
       (if n = ''set-cookie'' then filter (\<lambda>c. c \<noteq> []) (map trim ['' c=1 '']) else []))"
proof -
  have n: "header_name_from_bytes example_ext s = Inr v \<Longrightarrow> v = ascii_lower s"
    and v: "header_value_from_str example_ext s = Inr v \<Longrightarrow> v = s" for s v
    by (simp_all add: example_ext_def)
  have "\<exists>r. build_gateway_response_parts example_ext 200 [(''X-A'', ''1'')] ['' c=1 ''] ''ok'' False = Inr r"
    by (simp add: build_gateway_response_parts_def headers_from_map_def decode_body_bytes_def example_ext_def)
  then show ?thesis using response_parts_contents [OF n v] by blast
qed

end
