(* ===== verification/Stream_Dispatch.thy ===== *)
theory Stream_Dispatch
  imports Buffered
begin

text \<open>
  \<open>response_dispatch/stream.rs\<close>: the NDJSON records of a streamed invocation response drive the
  init and body channels of the waiting callers. The state is the pending map and the log of what
  was done to the channels so far. Two readings of the environment are functions of the log:
  \<open>alive hist\<close> says whether the receiver of the last logged send was still there, \<open>elapsed hist\<close>
  is the elapsed time read at that point. A sender dropped by an early return is logged as dropped.
  Sends do not wait here; \<open>Backpressure\<close> carries the same operations out against bounded channels.
\<close>

type_synonym stream_map = "(string, stream_pending) hashmap"
type_synonym stream_log = "stream_out list"

record stream_env =
  alive :: "stream_log \<Rightarrow> bool"
  elapsed :: "stream_log \<Rightarrow> u64"

definition MAX_BUFFER_BYTES :: nat where
  "MAX_BUFFER_BYTES = 8 * 1024 * 1024"

subsection \<open>One record\<close>

definition send_stream_head ::
  "ext_lib \<Rightarrow> stream_env \<Rightarrow> nat \<Rightarrow> u64 \<Rightarrow> u64 \<Rightarrow> u16 \<Rightarrow> (string, string) hashmap \<Rightarrow> string list \<Rightarrow>
   stream_pending \<Rightarrow> stream_log \<Rightarrow> (stream_pending \<times> stream_log) \<times> bool res" where
  "send_stream_head ext env batch_size wait_ms target_elapsed_ms status_code headers cookies entry hist =
     (case sp_init entry of
        None \<Rightarrow> ((entry, hist), Inr True)
      | Some init \<Rightarrow>
          let taken = entry\<lparr>sp_init := None\<rparr> in
          (case map_err (\<lambda>err. ''bad status code: '' @ err) (status_from_u16 ext status_code) of
             Inl e \<Rightarrow> ((taken, hist @ [DropInit init]), Inl e)
           | Inr status \<Rightarrow>
               (case map_err (\<lambda>err. ''bad response headers: '' @ err) (headers_from_map ext headers) of
                  Inl e \<Rightarrow> ((taken, hist @ [DropInit init]), Inl e)
                | Inr hs \<Rightarrow>
                    (case map_err (\<lambda>err. ''bad response cookies: '' @ err) (append_cookies ext hs cookies) of
                       Inl e \<Rightarrow> ((taken, hist @ [DropInit init]), Inl e)
                     | Inr hs \<Rightarrow>
                         let hist' = hist @ [SendInit init (InitStream \<lparr>sh_status = status, sh_headers = hs,
                               sh_meta = \<lparr>gm_batch_size = batch_size, gm_batch_wait_ms = wait_ms,
                                          gm_target_elapsed_ms = Some target_elapsed_ms\<rparr>\<rparr>)]
                         in ((taken, hist'), Inr (alive env hist'))))))"

definition parse_stream_record :: "ext_lib \<Rightarrow> bytes \<Rightarrow> stream_response_record res" where
  "parse_stream_record ext line =
     (case map_err (\<lambda>err. ''bad ndjson record: '' @ err) (json_from_slice ext line) of
        Inl e \<Rightarrow> Inl e
      | Inr val \<Rightarrow>
          if json_get val ''type'' \<noteq> None then
            (case map_err (\<lambda>err. ''bad ndjson record: '' @ err) (interleaved_from_value ext val) of
               Inl e \<Rightarrow> Inl e | Inr r \<Rightarrow> Inr (Interleaved r))
          else
            (case map_err (\<lambda>err. ''bad ndjson record: '' @ err) (legacy_from_value ext val) of
               Inl e \<Rightarrow> Inl e | Inr r \<Rightarrow> Inr (Legacy r)))"

definition legacy_record ::
  "ext_lib \<Rightarrow> nat \<Rightarrow> u64 \<Rightarrow> u64 \<Rightarrow> stream_record_legacy \<Rightarrow> stream_map \<Rightarrow> stream_log \<Rightarrow>
   (stream_map \<times> stream_log) \<times> unit res" where
  "legacy_record ext batch_size wait_ms target_elapsed_ms r pending hist =
     (if sl_v r \<noteq> 1 then ((pending, hist), Inl (''unsupported record version: '' @ dec (unat (sl_v r))))
      else case hm_get pending (sl_id r) of
        None \<Rightarrow> ((pending, hist), Inr ())
      | Some entry \<Rightarrow>
          let pending = hm_delete (sl_id r) pending in
          (case map_err (\<lambda>err. ''bad response: '' @ err)
                  (build_gateway_response_parts ext (sl_status_code r) (sl_headers r) (sl_cookies r)
                     (sl_body r) (sl_is_base64_encoded r)) of
             Inl e \<Rightarrow> ((pending, hist @ drop_pending entry), Inl e)
           | Inr resp \<Rightarrow>
               let resp = with_meta batch_size wait_ms (Some target_elapsed_ms) resp;
                   sent = (case sp_init entry of Some init \<Rightarrow> [SendInit init (InitResponse resp)] | None \<Rightarrow> [])
               in ((pending, hist @ sent @ [DropBody (sp_body entry)]), Inr ())))"

definition head_record ::
  "ext_lib \<Rightarrow> stream_env \<Rightarrow> nat \<Rightarrow> u64 \<Rightarrow> u64 \<Rightarrow> stream_record_interleaved \<Rightarrow> stream_map \<Rightarrow> stream_log \<Rightarrow>
   (stream_map \<times> stream_log) \<times> unit res" where
  "head_record ext env batch_size wait_ms target_elapsed_ms r pending hist =
     (case hm_get pending (si_id r) of
        None \<Rightarrow> ((pending, hist), Inr ())
      | Some entry \<Rightarrow>
          let pending = hm_delete (si_id r) pending;
              status_code = (case si_status_code r of Some s \<Rightarrow> s | None \<Rightarrow> 200)
          in (case send_stream_head ext env batch_size wait_ms target_elapsed_ms status_code
                     (si_headers r) (si_cookies r) entry hist of
                ((entry, hist), Inl e) \<Rightarrow> ((pending, hist @ drop_pending entry), Inl e)
              | ((entry, hist), Inr keep) \<Rightarrow>
                  if keep then ((hm_insert (si_id r) entry pending, hist), Inr ())
                  else ((pending, hist @ drop_pending entry), Inr ())))"

definition chunk_record ::
  "ext_lib \<Rightarrow> stream_env \<Rightarrow> nat \<Rightarrow> u64 \<Rightarrow> u64 \<Rightarrow> stream_record_interleaved \<Rightarrow> stream_map \<Rightarrow> stream_log \<Rightarrow>
   (stream_map \<times> stream_log) \<times> unit res" where
  "chunk_record ext env batch_size wait_ms target_elapsed_ms r pending hist =
     (case hm_get pending (si_id r) of
        None \<Rightarrow> ((pending, hist), Inr ())
      | Some entry \<Rightarrow>
          let pending = hm_delete (si_id r) pending in
          (case (if sp_init entry \<noteq> None
                 then send_stream_head ext env batch_size wait_ms target_elapsed_ms 200 [] [] entry hist
                 else ((entry, hist), Inr True)) of
             ((entry, hist), Inl e) \<Rightarrow> ((pending, hist @ drop_pending entry), Inl e)
           | ((entry, hist), Inr keep) \<Rightarrow>
               if \<not> keep then ((pending, hist @ drop_pending entry), Inr ())
               else
                 let body = (case si_body r of Some b \<Rightarrow> b | None \<Rightarrow> []) in
                 (case map_err (\<lambda>err. ''bad chunk body: '' @ err)
                         (decode_body_bytes ext body (si_is_base64_encoded r)) of
                    Inl e \<Rightarrow> ((pending, hist @ drop_pending entry), Inl e)
                  | Inr bs \<Rightarrow>
                      let hist = hist @ [SendBody (sp_body entry) bs] in
                      if \<not> alive env hist then ((pending, hist @ drop_pending entry), Inr ())
                      else ((hm_insert (si_id r) entry pending, hist), Inr ()))))"

definition end_record ::
  "ext_lib \<Rightarrow> stream_env \<Rightarrow> nat \<Rightarrow> u64 \<Rightarrow> u64 \<Rightarrow> stream_record_interleaved \<Rightarrow> stream_map \<Rightarrow> stream_log \<Rightarrow>
   (stream_map \<times> stream_log) \<times> unit res" where
  "end_record ext env batch_size wait_ms target_elapsed_ms r pending hist =
     (case hm_get pending (si_id r) of
        None \<Rightarrow> ((pending, hist), Inr ())
      | Some entry \<Rightarrow>
          let pending = hm_delete (si_id r) pending in
          (case (if sp_init entry \<noteq> None
                 then send_stream_head ext env batch_size wait_ms target_elapsed_ms 200 [] [] entry hist
                 else ((entry, hist), Inr True)) of
             ((entry, hist), Inl e) \<Rightarrow> ((pending, hist @ drop_pending entry), Inl e)
           | ((entry, hist), Inr _) \<Rightarrow> ((pending, hist @ drop_pending entry), Inr ())))"

definition error_record ::
  "ext_lib \<Rightarrow> nat \<Rightarrow> u64 \<Rightarrow> u64 \<Rightarrow> stream_record_interleaved \<Rightarrow> stream_map \<Rightarrow> stream_log \<Rightarrow>
   (stream_map \<times> stream_log) \<times> unit res" where
  "error_record ext batch_size wait_ms target_elapsed_ms r pending hist =
     (case hm_get pending (si_id r) of
        None \<Rightarrow> ((pending, hist), Inr ())
      | Some entry \<Rightarrow>
          let pending = hm_delete (si_id r) pending;
              sent = (case sp_init entry of
                  None \<Rightarrow> []
                | Some init \<Rightarrow>
                    let status = (case si_status_code r of Some s \<Rightarrow> s | None \<Rightarrow> 502);
                        msg = (case si_message r of Some m \<Rightarrow> m | None \<Rightarrow> ''error'');
                        resp = response_text
                          (case status_from_u16 ext status of Inr s \<Rightarrow> s | Inl _ \<Rightarrow> BAD_GATEWAY) msg
                    in [SendInit init (InitResponse (with_meta batch_size wait_ms (Some target_elapsed_ms) resp))])
          in ((pending, hist @ sent @ [DropBody (sp_body entry)]), Inr ()))"

definition dispatch_stream_record ::
  "ext_lib \<Rightarrow> stream_env \<Rightarrow> nat \<Rightarrow> u64 \<Rightarrow> u64 \<Rightarrow> stream_response_record \<Rightarrow> stream_map \<Rightarrow> stream_log \<Rightarrow>
   (stream_map \<times> stream_log) \<times> unit res" where
  "dispatch_stream_record ext env batch_size wait_ms target_elapsed_ms rec pending hist =
     (case rec of
        Legacy r \<Rightarrow> legacy_record ext batch_size wait_ms target_elapsed_ms r pending hist
      | Interleaved r \<Rightarrow>
          if si_v r \<noteq> 1 then ((pending, hist), Inl (''unsupported record version: '' @ dec (unat (si_v r))))
          else (case si_record_type r of
             Head \<Rightarrow> head_record ext env batch_size wait_ms target_elapsed_ms r pending hist
           | Chunk \<Rightarrow> chunk_record ext env batch_size wait_ms target_elapsed_ms r pending hist
           | End \<Rightarrow> end_record ext env batch_size wait_ms target_elapsed_ms r pending hist
           | Error \<Rightarrow> error_record ext batch_size wait_ms target_elapsed_ms r pending hist))"

subsection \<open>The whole stream\<close>

definition fail_rest ::
  "stream_env \<Rightarrow> nat \<Rightarrow> u64 \<Rightarrow> string \<Rightarrow> stream_map \<Rightarrow> stream_log \<Rightarrow> stream_log" where
  "fail_rest env batch_size wait_ms msg pending hist =
     hist @ fail_all_stream_impl pending batch_size wait_ms (Some (elapsed env hist)) BAD_GATEWAY msg"

text \<open>One line: \<open>Inl hist\<close> when the dispatch ended there, after failing everyone left.\<close>

definition process_line ::
  "ext_lib \<Rightarrow> stream_env \<Rightarrow> nat \<Rightarrow> u64 \<Rightarrow> bytes \<Rightarrow> stream_map \<Rightarrow> stream_log \<Rightarrow>
   stream_log + (stream_map \<times> stream_log)" where
  "process_line ext env batch_size wait_ms line pending hist =
     (case parse_stream_record ext line of
        Inl err \<Rightarrow> Inl (fail_rest env batch_size wait_ms err pending hist)
      | Inr rec \<Rightarrow>
          (case dispatch_stream_record ext env batch_size wait_ms (elapsed env hist) rec pending hist of
             ((pending, hist), Inl msg) \<Rightarrow> Inl (fail_rest env batch_size wait_ms msg pending hist)
           | ((pending, hist), Inr _) \<Rightarrow> Inr (pending, hist)))"

text \<open>The complete lines of the buffer are processed in order; the rest stays buffered.\<close>

function drain_lines ::
  "ext_lib \<Rightarrow> stream_env \<Rightarrow> nat \<Rightarrow> u64 \<Rightarrow> bytes \<Rightarrow> stream_map \<Rightarrow> stream_log \<Rightarrow>
   stream_log + (bytes \<times> stream_map \<times> stream_log)" where
  "drain_lines ext env batch_size wait_ms buf pending hist =
     (case split_once newline buf of
        None \<Rightarrow> Inr (buf, pending, hist)
      | Some (line, rest) \<Rightarrow>
          if strip_cr line = [] then drain_lines ext env batch_size wait_ms rest pending hist
          else (case process_line ext env batch_size wait_ms (strip_cr line) pending hist of
                  Inl hist \<Rightarrow> Inl hist
                | Inr (pending, hist) \<Rightarrow> drain_lines ext env batch_size wait_ms rest pending hist))"
  by pat_completeness auto
termination
  by (relation "measure (\<lambda>(x, e, n, w, buf, p, l). length buf)") (auto simp: split_once_Some)

declare drain_lines.simps [simp del]

definition strip_eol :: "bytes \<Rightarrow> bytes" where
  "strip_eol buf = rev (dropWhile (\<lambda>c. c = newline \<or> c = carriage) (rev buf))"

definition finish_stream ::
  "ext_lib \<Rightarrow> stream_env \<Rightarrow> nat \<Rightarrow> u64 \<Rightarrow> bytes \<Rightarrow> stream_map \<Rightarrow> stream_log \<Rightarrow> stream_log" where
  "finish_stream ext env batch_size wait_ms buf pending hist =
     (case (if strip_eol buf = [] then Inr (pending, hist)
            else process_line ext env batch_size wait_ms (strip_eol buf) pending hist) of
        Inl hist \<Rightarrow> hist
      | Inr (pending, hist) \<Rightarrow> fail_rest env batch_size wait_ms ''missing response record'' pending hist)"

text \<open>The stream is the list of received items; its end is the close of the channel.\<close>

fun stream_loop ::
  "ext_lib \<Rightarrow> stream_env \<Rightarrow> nat \<Rightarrow> u64 \<Rightarrow> bytes res list \<Rightarrow> bytes \<Rightarrow> stream_map \<Rightarrow> stream_log \<Rightarrow> stream_log" where
  "stream_loop ext env batch_size wait_ms [] buf pending hist =
     finish_stream ext env batch_size wait_ms buf pending hist"
| "stream_loop ext env batch_size wait_ms (Inl err # stream) buf pending hist =
     fail_rest env batch_size wait_ms (''response stream error: '' @ err) pending hist"
| "stream_loop ext env batch_size wait_ms (Inr chunk # stream) buf pending hist =
     (let buf = buf @ chunk in
      if length buf > MAX_BUFFER_BYTES
      then fail_rest env batch_size wait_ms ''response stream too large'' pending hist
      else (case drain_lines ext env batch_size wait_ms buf pending hist of
              Inl hist \<Rightarrow> hist
            | Inr (rest, pending, hist) \<Rightarrow> stream_loop ext env batch_size wait_ms stream rest pending hist))"

definition dispatch_response_stream_impl ::
  "ext_lib \<Rightarrow> stream_env \<Rightarrow> batch_key \<Rightarrow> u64 \<Rightarrow> bytes res list \<Rightarrow> stream_map \<Rightarrow> stream_log" where
  "dispatch_response_stream_impl ext env key wait_ms stream pending =
     stream_loop ext env (length pending) wait_ms stream [] pending []"

subsection \<open>The contract: what one waiting caller may see\<close>

text \<open>
  \<open>caller_moves e outs r\<close>: handling one record (or failing) makes the channel operations \<open>outs\<close>
  on the entry \<open>e\<close> and leaves it as \<open>r\<close>, or removes it. \<open>stream_rel p q outs\<close>: a sequence of
  such moves takes the pending map \<open>p\<close> to \<open>q\<close>. This is the abstract machine that the
  dispatcher refines.
\<close>

inductive caller_moves :: "stream_pending \<Rightarrow> stream_log \<Rightarrow> stream_pending option \<Rightarrow> bool" where
  stay: "sp_init e = None \<Longrightarrow> caller_moves e (map (SendBody (sp_body e)) bs) (Some e)"
| head: "sp_init e = Some i \<Longrightarrow>
    caller_moves e (SendInit i (InitStream h) # map (SendBody (sp_body e)) bs) (Some (e\<lparr>sp_init := None\<rparr>))"
| close: "sp_init e = None \<Longrightarrow> caller_moves e (map (SendBody (sp_body e)) bs @ [DropBody (sp_body e)]) None"
| head_close: "sp_init e = Some i \<Longrightarrow>
    caller_moves e (SendInit i (InitStream h) # map (SendBody (sp_body e)) bs @ [DropBody (sp_body e)]) None"
| answer: "sp_init e = Some i \<Longrightarrow> caller_moves e [SendInit i (InitResponse r), DropBody (sp_body e)] None"
| dropped: "sp_init e = Some i \<Longrightarrow> caller_moves e [DropInit i, DropBody (sp_body e)] None"

inductive stream_rel :: "stream_map \<Rightarrow> stream_map \<Rightarrow> stream_log \<Rightarrow> bool" where
  nothing: "stream_rel p p []"
| keeps: "hm_get p k = Some e \<Longrightarrow> caller_moves e outs (Some e') \<Longrightarrow>
    stream_rel (hm_insert k e' (hm_delete k p)) q rest \<Longrightarrow> stream_rel p q (outs @ rest)"
| closes: "hm_get p k = Some e \<Longrightarrow> caller_moves e outs None \<Longrightarrow>
    stream_rel (hm_delete k p) q rest \<Longrightarrow> stream_rel p q (outs @ rest)"

definition caller_trace :: "stream_pending \<Rightarrow> stream_log \<Rightarrow> bool" where
  "caller_trace e t \<longleftrightarrow>
     (case sp_init e of
        None \<Rightarrow> \<exists>bs. t = map (SendBody (sp_body e)) bs @ [DropBody (sp_body e)]
      | Some i \<Rightarrow>
          (\<exists>r. t = [SendInit i (InitResponse r), DropBody (sp_body e)]) \<or>
          t = [DropInit i, DropBody (sp_body e)] \<or>
          (\<exists>h bs. t = SendInit i (InitStream h) # map (SendBody (sp_body e)) bs @ [DropBody (sp_body e)]))"

text \<open>The part of the log that concerns the channels of one entry.\<close>

fun concerns :: "stream_pending \<Rightarrow> stream_out \<Rightarrow> bool" where
  "concerns e (SendInit c _) \<longleftrightarrow> sp_init e = Some c"
| "concerns e (DropInit c) \<longleftrightarrow> sp_init e = Some c"
| "concerns e (SendBody c _) \<longleftrightarrow> sp_body e = c"
| "concerns e (DropBody c) \<longleftrightarrow> sp_body e = c"

definition separate :: "stream_map \<Rightarrow> bool" where
  "separate p \<longleftrightarrow> (\<forall>x \<in> set p. \<forall>y \<in> set p. fst x \<noteq> fst y \<longrightarrow>
     sp_body (snd x) \<noteq> sp_body (snd y) \<and>
     (sp_init (snd x) \<noteq> None \<longrightarrow> sp_init (snd x) \<noteq> sp_init (snd y)))"

subsection \<open>The dispatcher refines the contract\<close>

lemma stream_rel_trans: "stream_rel p q a \<Longrightarrow> stream_rel q r b \<Longrightarrow> stream_rel p r (a @ b)"
  by (induction rule: stream_rel.induct) (auto intro: stream_rel.keeps stream_rel.closes)

lemma stream_rel_keep: "hm_get p k = Some e \<Longrightarrow> caller_moves e outs (Some e') \<Longrightarrow>
  stream_rel p (hm_insert k e' (hm_delete k p)) outs"
  using stream_rel.keeps [OF _ _ stream_rel.nothing] by fastforce

lemma stream_rel_close: "hm_get p k = Some e \<Longrightarrow> caller_moves e outs None \<Longrightarrow> stream_rel p (hm_delete k p) outs"
  using stream_rel.closes [OF _ _ stream_rel.nothing] by fastforce

lemma hm_set_delete: "set (hm_delete k p) = {x \<in> set p. fst x \<noteq> k}"
  by (induction p) auto

lemma set_reinsert: "set (hm_insert k e (hm_delete k p)) = insert (k, e) {x \<in> set p. fst x \<noteq> k}"
  by (subst hm_insert_absent) (auto simp: hm_set_delete)

lemma drop_pending_moves: "caller_moves e (drop_pending e) None"
  using close [of e "[]"] dropped [of e] by (auto simp: drop_pending_def split: option.splits)

lemma fail_entry_moves: "caller_moves e (fail_stream_entry n w el st msg e) None"
  using close [of e "[]"] answer [of e] by (auto simp: fail_stream_entry_def split: option.splits)

lemma fail_all_rel:
  "hm_ok p \<Longrightarrow> stream_rel p [] (fail_all_stream_impl p n w el st msg)"
proof (induction p)
  case Nil
  then show ?case by (simp add: fail_all_stream_impl_def stream_rel.nothing)
next
  case (Cons x p)
  obtain k e where x: "x = (k, e)" by (cases x)
  have d: "hm_delete k (x # p) = p" using Cons.prems by (simp add: x hm_delete_absent)
  have r: "stream_rel (hm_delete k (x # p)) [] (fail_all_stream_impl p n w el st msg)"
    unfolding d using Cons by simp
  have g: "hm_get (x # p) k = Some e" by (simp add: x)
  show ?case
    using stream_rel.closes [OF g fail_entry_moves r] by (simp add: fail_all_stream_impl_def x)
qed

text \<open>What a head does to its entry: the three ways \<open>send_stream_head\<close> can end.\<close>

lemma send_head_cases:
  assumes "send_stream_head ext env n w el st hs cs e hist = ((e', hist'), r)"
  obtains (no_init) "sp_init e = None" "e' = e" "hist' = hist" "r = Inr True"
  | (sent) i h where "sp_init e = Some i" "e' = e\<lparr>sp_init := None\<rparr>"
      "hist' = hist @ [SendInit i (InitStream h)]" "\<exists>b. r = Inr b"
  | (failed) i where "sp_init e = Some i" "e' = e\<lparr>sp_init := None\<rparr>"
      "hist' = hist @ [DropInit i]" "\<exists>m. r = Inl m"
  using assms by (cases "sp_init e") (auto simp: send_stream_head_def Let_def split: sum.splits)

text \<open>Sending the head, then some body parts, and keeping or dropping the entry.\<close>

lemma head_then_drop:
  assumes "send_stream_head ext env n w el st hs cs e hist = ((e', hist'), r)"
  shows "\<exists>outs. hist' @ drop_pending e' = hist @ outs \<and> caller_moves e outs None"
  using assms
proof (cases rule: send_head_cases)
  case no_init
  then show ?thesis using drop_pending_moves by auto
next
  case (sent i h)
  then show ?thesis using head_close [of e i h "[]"] by (auto simp: drop_pending_def)
next
  case (failed i)
  then show ?thesis using dropped [of e i] by (auto simp: drop_pending_def)
qed

lemma head_then_body:
  assumes "send_stream_head ext env n w el st hs cs e hist = ((e', hist'), Inr b)"
  shows "\<exists>outs. hist' @ map (SendBody (sp_body e')) bs = hist @ outs \<and> caller_moves e outs (Some e')"
    and "\<exists>outs. hist' @ map (SendBody (sp_body e')) bs @ drop_pending e' = hist @ outs \<and> caller_moves e outs None"
  using assms stay [of e bs] head [of e _ _ bs] close [of e bs] head_close [of e _ _ bs]
  by (auto elim!: send_head_cases simp: drop_pending_def)

definition moves_to :: "stream_map \<Rightarrow> stream_log \<Rightarrow> (stream_map \<times> stream_log) \<Rightarrow> bool" where
  "moves_to p hist s \<longleftrightarrow> (\<exists>outs. snd s = hist @ outs \<and> stream_rel p (fst s) outs)"

lemma moves_to_refl [simp]: "moves_to p hist (p, hist)"
  unfolding moves_to_def using stream_rel.nothing by force

lemma moves_to_close:
  "hm_get p k = Some e \<Longrightarrow> \<exists>outs. hist' = hist @ outs \<and> caller_moves e outs None \<Longrightarrow>
   moves_to p hist (hm_delete k p, hist')"
  unfolding moves_to_def using stream_rel_close by fastforce

lemma moves_to_keep:
  "hm_get p k = Some e \<Longrightarrow> \<exists>outs. hist' = hist @ outs \<and> caller_moves e outs (Some e') \<Longrightarrow>
   moves_to p hist (hm_insert k e' (hm_delete k p), hist')"
  unfolding moves_to_def using stream_rel_keep by fastforce

lemma moves_to_trans: "moves_to p h (q, h') \<Longrightarrow> moves_to q h' s \<Longrightarrow> moves_to p h s"
  unfolding moves_to_def using stream_rel_trans by fastforce

lemma legacy_moves: "moves_to p hist (fst (legacy_record ext n w el r p hist))"
proof (cases "sl_v r \<noteq> 1 \<or> hm_get p (sl_id r) = None")
  case True
  then show ?thesis by (auto simp: legacy_record_def)
next
  case False
  then obtain e where e: "hm_get p (sl_id r) = Some e" and v: "sl_v r = 1" by auto
  have moves: "caller_moves e (drop_pending e) None"
    "\<And>resp. caller_moves e ((case sp_init e of Some init \<Rightarrow> [SendInit init (InitResponse resp)] | None \<Rightarrow> []) @
       [DropBody (sp_body e)]) None"
    using drop_pending_moves close [of e "[]"] answer [of e] by (auto split: option.splits)
  show ?thesis
    by (auto simp: legacy_record_def e v Let_def split: sum.splits
        intro!: moves_to_close [OF e] moves)
qed

lemma error_moves: "moves_to p hist (fst (error_record ext n w el r p hist))"
proof (cases "hm_get p (si_id r)")
  case None
  then show ?thesis by (simp add: error_record_def)
next
  case (Some e)
  have e: "\<exists>outs. h = hist @ outs \<and> caller_moves e outs None \<Longrightarrow> moves_to p hist (hm_delete (si_id r) p, h)" for h
    by (rule moves_to_close [OF Some])
  show ?thesis
  proof (cases "sp_init e")
    case None
    then show ?thesis using e close [of e "[]"] by (simp add: error_record_def Some Let_def)
  next
    case (Some i)
    then show ?thesis using e answer [of e i]
      by (simp add: error_record_def \<open>hm_get p (si_id r) = Some e\<close> Let_def)
  qed
qed

lemma head_moves: "moves_to p hist (fst (head_record ext env n w el r p hist))"
proof (cases "hm_get p (si_id r)")
  case None
  then show ?thesis by (simp add: head_record_def)
next
  case (Some e)
  obtain e' hist' b where s: "send_stream_head ext env n w el
      (case si_status_code r of Some s \<Rightarrow> s | None \<Rightarrow> 200) (si_headers r) (si_cookies r) e hist = ((e', hist'), b)"
    by (metis prod.collapse)
  note dropped = moves_to_close [OF Some head_then_drop [OF s]]
  show ?thesis
  proof (cases b)
    case (Inl m)
    then show ?thesis using dropped s by (simp add: head_record_def Some)
  next
    case (Inr keep)
    then show ?thesis
      using dropped moves_to_keep [OF Some head_then_body(1) [OF s [unfolded Inr], of "[]"]] s
      by (simp add: head_record_def Some Let_def)
  qed
qed

text \<open>\<open>Chunk\<close> and \<open>End\<close> send the default head first when none was sent.\<close>

lemma optional_head:
  "(if sp_init e \<noteq> None then send_stream_head ext env n w el 200 [] [] e hist else ((e, hist), Inr True)) =
   send_stream_head ext env n w el 200 [] [] e hist"
  by (simp add: send_stream_head_def)

lemmas chunk_record_eq = chunk_record_def [unfolded optional_head]
lemmas end_record_eq = end_record_def [unfolded optional_head]

lemma chunk_moves: "moves_to p hist (fst (chunk_record ext env n w el r p hist))"
proof (cases "hm_get p (si_id r)")
  case None
  then show ?thesis by (simp add: chunk_record_def)
next
  case (Some e)
  obtain e' hist' b where s: "send_stream_head ext env n w el 200 [] [] e hist = ((e', hist'), b)"
    by (metis prod.collapse)
  note dropped = moves_to_close [OF Some head_then_drop [OF s]]
  show ?thesis
  proof (cases "\<exists>bs. b = Inr True \<and> decode_body_bytes ext
      (case si_body r of Some b \<Rightarrow> b | None \<Rightarrow> []) (si_is_base64_encoded r) = Inr bs")
    case False
    then show ?thesis using dropped
      by (auto simp: chunk_record_eq Some s Let_def split: sum.splits)
  next
    case True
    then obtain bs where b: "b = Inr True" and bs: "decode_body_bytes ext
      (case si_body r of Some b \<Rightarrow> b | None \<Rightarrow> []) (si_is_base64_encoded r) = Inr bs" by blast
    note s' = s [unfolded b]
    show ?thesis
      using moves_to_close [OF Some head_then_body(2) [OF s', of "[bs]"]]
        moves_to_keep [OF Some head_then_body(1) [OF s', of "[bs]"]]
      by (auto simp: chunk_record_eq Some s b bs Let_def)
  qed
qed

lemma end_moves: "moves_to p hist (fst (end_record ext env n w el r p hist))"
proof (cases "hm_get p (si_id r)")
  case None
  then show ?thesis by (simp add: end_record_def)
next
  case (Some e)
  obtain e' hist' b where s: "send_stream_head ext env n w el 200 [] [] e hist = ((e', hist'), b)"
    by (metis prod.collapse)
  show ?thesis using moves_to_close [OF Some head_then_drop [OF s]]
    by (auto simp: end_record_eq Some s Let_def split: sum.splits)
qed

lemma record_moves: "moves_to p hist (fst (dispatch_stream_record ext env n w el rec p hist))"
  by (cases rec) (auto simp: dispatch_stream_record_def legacy_moves error_moves head_moves chunk_moves
      end_moves split: stream_record_type.splits)

lemma stream_rel_ok: "stream_rel p q outs \<Longrightarrow> hm_ok p \<Longrightarrow> hm_ok q"
  by (induction rule: stream_rel.induct) auto

definition finishes :: "stream_map \<Rightarrow> stream_log \<Rightarrow> stream_log \<Rightarrow> bool" where
  "finishes p hist final \<longleftrightarrow> moves_to p hist ([], final)"

lemma finishes_trans: "moves_to p h (q, h') \<Longrightarrow> finishes q h' final \<Longrightarrow> finishes p h final"
  unfolding finishes_def by (rule moves_to_trans)

lemma fail_rest_finishes: "hm_ok p \<Longrightarrow> finishes p hist (fail_rest env n w msg p hist)"
  by (auto simp: finishes_def moves_to_def fail_rest_def intro: fail_all_rel)

lemma moves_to_ok: "moves_to p h (q, h') \<Longrightarrow> hm_ok p \<Longrightarrow> hm_ok q"
  by (auto simp: moves_to_def intro: stream_rel_ok)

lemma process_line_moves:
  assumes "hm_ok p"
  shows "case process_line ext env n w line p hist of
     Inl final \<Rightarrow> finishes p hist final
   | Inr (q, hist') \<Rightarrow> moves_to p hist (q, hist') \<and> hm_ok q"
proof (cases "parse_stream_record ext line")
  case (Inl e)
  then show ?thesis using assms by (simp add: process_line_def fail_rest_finishes)
next
  case (Inr rec)
  obtain q hist' r where d: "dispatch_stream_record ext env n w (elapsed env hist) rec p hist = ((q, hist'), r)"
    by (metis prod.collapse)
  have m: "moves_to p hist (q, hist')" using record_moves [of p hist ext env n w _ rec] d by (metis fst_conv)
  then have ok: "hm_ok q" using assms by (rule moves_to_ok)
  show ?thesis
  proof (cases r)
    case (Inl msg)
    then show ?thesis
      using finishes_trans [OF m fail_rest_finishes [OF ok, of _ env n w msg]] by (simp add: process_line_def Inr d)
  next
    case (Inr u)
    then show ?thesis using m ok \<open>parse_stream_record ext line = Inr rec\<close> by (simp add: process_line_def d)
  qed
qed

lemma drain_lines_moves:
  "hm_ok p \<Longrightarrow> (case drain_lines ext env n w buf p hist of
     Inl final \<Rightarrow> finishes p hist final
   | Inr (rest, q, hist') \<Rightarrow> moves_to p hist (q, hist') \<and> hm_ok q)"
proof (induction ext env n w buf p hist rule: drain_lines.induct)
  case (1 ext env n w buf p hist)
  show ?case
  proof (cases "split_once newline buf")
    case None
    then show ?thesis using "1.prems" by (simp add: drain_lines.simps [of ext env n w buf])
  next
    case (Some lr)
    obtain line rest where lr: "lr = (line, rest)" by (cases lr)
    note s = Some [unfolded lr]
    show ?thesis
    proof (cases "strip_cr line = []")
      case True
      then show ?thesis using "1.IH"(1) [OF s refl True "1.prems"] s
        by (simp add: drain_lines.simps [of ext env n w buf])
    next
      case False
      note pl = process_line_moves [OF "1.prems", where line = "strip_cr line" and ext = ext and env = env and n = n and w = w and hist = hist]
      show ?thesis
      proof (cases "process_line ext env n w (strip_cr line) p hist")
        case (Inl final)
        then show ?thesis using pl s False by (simp add: drain_lines.simps [of ext env n w buf])
      next
        case (Inr qh)
        obtain q h' where qh: "qh = (q, h')" by (cases qh)
        have m: "moves_to p hist (q, h')" "hm_ok q" using pl by (simp_all add: Inr qh)
        from "1.IH"(2) [OF s refl False Inr qh [symmetric] m(2)] show ?thesis
          using s False Inr qh m(1)
          by (auto simp: drain_lines.simps [of ext env n w buf] split: sum.splits
              intro: finishes_trans moves_to_trans)
      qed
    qed
  qed
qed

lemma stream_loop_finishes:
  "hm_ok p \<Longrightarrow> finishes p hist (stream_loop ext env n w stream buf p hist)"
proof (induction ext env n w stream buf p hist rule: stream_loop.induct)
  case (1 ext env n w buf p hist)
  then show ?case
    using process_line_moves [OF "1.prems", where line = "strip_eol buf" and ext = ext and env = env and n = n and w = w and hist = hist]
    by (auto simp: finish_stream_def split: sum.splits intro: fail_rest_finishes finishes_trans)
next
  case (2 ext env n w err stream buf p hist)
  then show ?case by (simp add: fail_rest_finishes)
next
  case (3 ext env n w chunk stream buf p hist)
  show ?case
  proof (cases "length (buf @ chunk) > MAX_BUFFER_BYTES")
    case True
    then show ?thesis using "3.prems" by (simp add: fail_rest_finishes)
  next
    case False
    note d = drain_lines_moves [OF "3.prems", where ext = ext and env = env and n = n and w = w and hist = hist and buf = "buf @ chunk"]
    show ?thesis
    proof (cases "drain_lines ext env n w (buf @ chunk) p hist")
      case (Inl final)
      then show ?thesis using d False by simp
    next
      case (Inr x)
      obtain rest q h' where x: "x = (rest, q, h')" by (cases x)
      have "moves_to p hist (q, h')" "hm_ok q" using d by (simp_all add: Inr x)
      then show ?thesis using "3.IH" [OF refl False Inr x [symmetric] refl] Inr x False
        by (auto intro: finishes_trans)
    qed
  qed
qed

lemma dispatch_stream_refines:
  "hm_ok pending \<Longrightarrow> stream_rel pending [] (dispatch_response_stream_impl ext env key w stream pending)"
  using stream_loop_finishes [where hist = "[]" and p = pending]
  by (simp add: dispatch_response_stream_impl_def finishes_def moves_to_def)

subsection \<open>What each caller sees\<close>

lemma moves_concern: "caller_moves e outs r \<Longrightarrow> x \<in> set outs \<Longrightarrow> concerns e x"
  by (induction rule: caller_moves.induct) auto

lemma moves_after: "caller_moves e outs (Some e') \<Longrightarrow> e' = e \<or> e' = e\<lparr>sp_init := None\<rparr>"
  by (cases rule: caller_moves.cases) auto

lemma concerns_no_init: "concerns (e\<lparr>sp_init := None\<rparr>) x \<Longrightarrow> concerns e x"
  by (cases x) auto

lemma moves_trace_keep: "caller_moves e outs (Some e') \<Longrightarrow> caller_trace e' t \<Longrightarrow> caller_trace e (outs @ t)"
  by (cases rule: caller_moves.cases, assumption) (auto simp: caller_trace_def simp flip: map_append append_assoc)

lemma moves_trace_close: "caller_moves e outs None \<Longrightarrow> caller_trace e outs"
  by (cases rule: caller_moves.cases, assumption) (auto simp: caller_trace_def)

lemma rel_concerns: "stream_rel p q outs \<Longrightarrow> x \<in> set outs \<Longrightarrow> \<exists>y \<in> set p. concerns (snd y) x"
proof (induction rule: stream_rel.induct)
  case (nothing p)
  then show ?case by simp
next
  case (keeps p k e outs e' q rest)
  have k: "(k, e) \<in> set p" using keeps(1) by (rule hm_get_SomeD)
  show ?case
  proof (cases "x \<in> set outs")
    case True
    then show ?thesis using moves_concern [OF keeps(2)] k by force
  next
    case False
    then obtain y where "y \<in> set (hm_insert k e' (hm_delete k p))" "concerns (snd y) x"
      using keeps.IH keeps.prems by auto
    then show ?thesis using k moves_after [OF keeps(2)] concerns_no_init by (force simp: set_reinsert)
  qed
next
  case (closes p k e outs q rest)
  have "(k, e) \<in> set p" using closes(1) by (rule hm_get_SomeD)
  then show ?case using moves_concern [OF closes(2)] closes.IH closes.prems by (force simp: hm_set_delete)
qed

lemma separate_concerns:
  "separate p \<Longrightarrow> x \<in> set p \<Longrightarrow> y \<in> set p \<Longrightarrow> fst x \<noteq> fst y \<Longrightarrow> concerns (snd x) z \<Longrightarrow> \<not> concerns (snd y) z"
  unfolding separate_def by (cases z) fastforce+

lemma separate_delete: "separate p \<Longrightarrow> separate (hm_delete k p)"
  unfolding separate_def by (simp add: hm_set_delete)

lemma separate_reinsert:
  assumes "separate p" "(k, e) \<in> set p" "e' = e \<or> e' = e\<lparr>sp_init := None\<rparr>"
  shows "separate (hm_insert k e' (hm_delete k p))"
proof -
  have "sp_body e' = sp_body e" "sp_init e' \<noteq> None \<Longrightarrow> sp_init e' = sp_init e"
    using assms(3) by auto
  then show ?thesis using assms(1,2) unfolding separate_def set_reinsert
    by (intro ballI) (auto; metis fst_conv snd_conv option.discI)
qed

lemma hm_get_set: "hm_ok p \<Longrightarrow> (k, e) \<in> set p \<Longrightarrow> hm_get p k = Some e"
  by (simp add: hm_get_def)

text \<open>After an entry moved, nobody left in the map touches its channels any more.\<close>

lemma rest_untouched:
  assumes "separate p" "(k, e) \<in> set p" "stream_rel (hm_delete k p) q rest"
  shows "filter (concerns e) rest = []"
proof -
  have "\<not> concerns e x" if x: "x \<in> set rest" for x
  proof -
    obtain y where y: "y \<in> set p" "fst y \<noteq> k" "concerns (snd y) x"
      using rel_concerns [OF assms(3) x] by (auto simp: hm_set_delete)
    then show ?thesis using separate_concerns [OF assms(1) y(1) assms(2) _ y(3)] by simp
  qed
  then show ?thesis by (simp add: filter_empty_conv)
qed

lemma rest_same:
  assumes "separate p" "(k, e) \<in> set p" "e' = e \<or> e' = e\<lparr>sp_init := None\<rparr>"
    and "stream_rel (hm_insert k e' (hm_delete k p)) q rest"
  shows "filter (concerns e) rest = filter (concerns e') rest"
proof (rule filter_cong [OF refl])
  fix x assume x: "x \<in> set rest"
  have bwd: "concerns e' x \<Longrightarrow> concerns e x" using assms(3) concerns_no_init by auto
  obtain y where y: "y \<in> set (hm_insert k e' (hm_delete k p))" "concerns (snd y) x"
    using rel_concerns [OF assms(4) x] by blast
  show "concerns e x \<longleftrightarrow> concerns e' x"
  proof (cases "y = (k, e')")
    case True
    then show ?thesis using y(2) bwd by auto
  next
    case False
    then have "y \<in> set p" "fst y \<noteq> k" using y(1) by (auto simp: set_reinsert)
    then have "\<not> concerns e x" using separate_concerns [OF assms(1) _ assms(2) _ y(2)] by simp
    then show ?thesis using bwd by blast
  qed
qed

lemma stream_rel_traces:
  "stream_rel p q outs \<Longrightarrow> q = [] \<Longrightarrow> hm_ok p \<Longrightarrow> separate p \<Longrightarrow> (k, e) \<in> set p \<Longrightarrow>
   caller_trace e (filter (concerns e) outs)"
proof (induction arbitrary: k e rule: stream_rel.induct)
  case (nothing p)
  then show ?case by simp
next
  case (keeps p k0 e0 outs e' q rest)
  have k0: "(k0, e0) \<in> set p" using keeps(1) by (rule hm_get_SomeD)
  note after = moves_after [OF keeps(2)]
  have sep: "separate (hm_insert k0 e' (hm_delete k0 p))"
    by (rule separate_reinsert [OF keeps.prems(3) k0 after])
  have ok: "hm_ok (hm_insert k0 e' (hm_delete k0 p))" using keeps.prems(2) by auto
  show ?case
  proof (cases "k = k0")
    case True
    then have e: "e = e0" using hm_get_set [OF keeps.prems(2,4)] keeps(1) by simp
    have "caller_trace e' (filter (concerns e') rest)"
      by (rule keeps.IH [OF keeps.prems(1) ok sep, of k0]) (simp add: set_reinsert)
    then have "caller_trace e0 (outs @ filter (concerns e') rest)" by (rule moves_trace_keep [OF keeps(2)])
    moreover have "filter (concerns e0) outs = outs" using moves_concern [OF keeps(2)] by (simp add: filter_id_conv)
    ultimately show ?thesis using rest_same [OF keeps.prems(3) k0 after keeps(3)] by (simp add: e)
  next
    case False
    have "filter (concerns e) outs = []"
      using separate_concerns [OF keeps.prems(3) k0 keeps.prems(4)] False moves_concern [OF keeps(2)]
      by (auto simp: filter_empty_conv)
    moreover have "caller_trace e (filter (concerns e) rest)"
      by (rule keeps.IH [OF keeps.prems(1) ok sep, of k]) (use keeps.prems(4) False in \<open>simp add: set_reinsert\<close>)
    ultimately show ?thesis by simp
  qed
next
  case (closes p k0 e0 outs q rest)
  have k0: "(k0, e0) \<in> set p" using closes(1) by (rule hm_get_SomeD)
  show ?case
  proof (cases "k = k0")
    case True
    then have e: "e = e0" using hm_get_set [OF closes.prems(2,4)] closes(1) by simp
    have "filter (concerns e0) outs = outs" using moves_concern [OF closes(2)] by (simp add: filter_id_conv)
    then show ?thesis
      using moves_trace_close [OF closes(2)] rest_untouched [OF closes.prems(3) k0 closes(3)] by (simp add: e)
  next
    case False
    have "filter (concerns e) outs = []"
      using separate_concerns [OF closes.prems(3) k0 closes.prems(4)] False moves_concern [OF closes(2)]
      by (auto simp: filter_empty_conv)
    moreover have "caller_trace e (filter (concerns e) rest)"
      by (rule closes.IH [OF closes.prems(1), of k])
        (use closes.prems False in \<open>auto simp: hm_set_delete separate_delete\<close>)
    ultimately show ?thesis by simp
  qed
qed

subsection \<open>The chunking of the stream does not matter\<close>

lemma split_once_append:
  "split_once c (a @ b) = (case split_once c a of Some (l, r) \<Rightarrow> Some (l, r @ b)
     | None \<Rightarrow> map_option (\<lambda>(l, r). (a @ l, r)) (split_once c b))"
  by (induction a) (auto split: option.splits simp: option.map_comp option.map_id comp_def case_prod_beta
      intro!: option.map_cong)

lemma drain_lines_append:
  "drain_lines ext env n w (buf @ suffix1) p hist =
     (case drain_lines ext env n w buf p hist of
        Inl final \<Rightarrow> Inl final
      | Inr (rest, q, h) \<Rightarrow> drain_lines ext env n w (rest @ suffix1) q h)"
proof (induction ext env n w buf p hist rule: drain_lines.induct)
  case (1 ext env n w buf p hist)
  show ?case
  proof (cases "split_once newline buf")
    case None
    then show ?thesis by (simp add: drain_lines.simps [of ext env n w buf])
  next
    case (Some lr)
    obtain line rest where lr: "lr = (line, rest)" by (cases lr)
    note s = Some [unfolded lr]
    have s': "split_once newline (buf @ suffix1) = Some (line, rest @ suffix1)"
      using s by (simp add: split_once_append)
    show ?thesis
    proof (cases "strip_cr line = []")
      case True
      then show ?thesis using "1.IH"(1) [OF s refl True] s s'
        by (simp add: drain_lines.simps [of ext env n w buf] drain_lines.simps [of ext env n w "buf @ suffix1"])
    next
      case False
      show ?thesis
      proof (cases "process_line ext env n w (strip_cr line) p hist")
        case (Inl final)
        then show ?thesis using s s' False
          by (simp add: drain_lines.simps [of ext env n w buf] drain_lines.simps [of ext env n w "buf @ suffix1"])
      next
        case (Inr qh)
        obtain q h' where qh: "qh = (q, h')" by (cases qh)
        from "1.IH"(2) [OF s refl False Inr qh [symmetric]] show ?thesis
          using s s' False Inr qh
          by (simp add: drain_lines.simps [of ext env n w buf] drain_lines.simps [of ext env n w "buf @ suffix1"])
      qed
    qed
  qed
qed

text \<open>How far the buffer of the dispatcher grows: after each piece it holds the bytes since the last newline.\<close>

definition unterminated :: "bytes \<Rightarrow> bytes" where
  "unterminated bs = rev (takeWhile (\<lambda>c. c \<noteq> newline) (rev bs))"

fun buffers_fit :: "bytes \<Rightarrow> bytes list \<Rightarrow> bool" where
  "buffers_fit buf [] = True"
| "buffers_fit buf (c # chunks) = (length (buf @ c) \<le> MAX_BUFFER_BYTES \<and> buffers_fit (unterminated (buf @ c)) chunks)"

lemma length_unterminated: "length (unterminated bs) \<le> length bs"
  by (metis length_rev length_takeWhile_le unterminated_def)

lemma concat_fits: "length buf + length (concat chunks) \<le> MAX_BUFFER_BYTES \<Longrightarrow> buffers_fit buf chunks"
proof (induction chunks arbitrary: buf)
  case (Cons c chunks)
  then show ?case using length_unterminated [of "buf @ c"] by simp
qed simp

lemma unterminated_none: "newline \<notin> set bs \<Longrightarrow> unterminated bs = bs"
proof -
  assume "newline \<notin> set bs"
  then have all: "takeWhile (\<lambda>c. c \<noteq> newline) (rev bs) = rev bs" unfolding takeWhile_eq_all_conv by auto
  show ?thesis unfolding unterminated_def all by simp
qed

lemma unterminated_line: "unterminated (line @ newline # rest) = unterminated rest"
proof (cases "newline \<in> set rest")
  case True
  then show ?thesis by (simp add: unterminated_def takeWhile_append1 [of newline])
next
  case False
  then show ?thesis unfolding unterminated_none [OF False] by (simp add: unterminated_def takeWhile_append takeWhile_append2)
qed

lemma drain_lines_rest:
  "drain_lines ext env n w buf p hist = Inr (rest, q, h) \<Longrightarrow> rest = unterminated buf"
proof (induction ext env n w buf p hist rule: drain_lines.induct)
  case (1 ext env n w buf p hist)
  show ?case
  proof (cases "split_once newline buf")
    case None
    then have "newline \<notin> set buf" by (simp add: split_once_None)
    from unterminated_none [OF this] show ?thesis using None "1.prems" by (simp add: drain_lines.simps [of ext env n w buf])
  next
    case (Some lr)
    obtain line tl where lr: "lr = (line, tl)" by (cases lr)
    note s = Some [unfolded lr]
    have u: "unterminated buf = unterminated tl" using s by (auto simp: split_once_Some unterminated_line)
    show ?thesis
    proof (cases "strip_cr line = []")
      case True
      then show ?thesis using "1.IH"(1) [OF s refl True] "1.prems" s u
        by (simp add: drain_lines.simps [of ext env n w buf])
    next
      case False
      then show ?thesis using "1.IH"(2) [OF s refl False] "1.prems" s u
        by (auto simp: drain_lines.simps [of ext env n w buf] split: sum.splits)
    qed
  qed
qed

lemma stream_loop_chunks:
  "buffers_fit buf chunks \<Longrightarrow> drain_lines ext env n w buf p hist = Inr (buf, p, hist) \<Longrightarrow>
   stream_loop ext env n w (map Inr chunks) buf p hist =
     (case drain_lines ext env n w (buf @ concat chunks) p hist of
        Inl final \<Rightarrow> final
      | Inr (rest, q, h) \<Rightarrow> finish_stream ext env n w rest q h)"
proof (induction chunks arbitrary: buf p hist)
  case Nil
  then show ?case by simp
next
  case (Cons c chunks)
  have a: "drain_lines ext env n w (buf @ c @ concat chunks) p hist =
     (case drain_lines ext env n w (buf @ c) p hist of
        Inl final \<Rightarrow> Inl final
      | Inr (rest, q, h) \<Rightarrow> drain_lines ext env n w (rest @ concat chunks) q h)"
    using drain_lines_append [of ext env n w "buf @ c" "concat chunks" p hist] by simp
  show ?case
  proof (cases "drain_lines ext env n w (buf @ c) p hist")
    case (Inl final)
    then show ?thesis using Cons.prems(1) by (simp add: a)
  next
    case (Inr x)
    obtain rest q h where x: "x = (rest, q, h)" by (cases x) 
    note d = Inr [unfolded x]
    have fit: "buffers_fit rest chunks" using drain_lines_rest [OF d] Cons.prems(1) by simp
    have idem: "drain_lines ext env n w rest q h = Inr (rest, q, h)"
      using drain_lines_append [of ext env n w "buf @ c" "[]" p hist] d by simp
    show ?thesis using Cons.IH [OF fit idem] Cons.prems(1) d by (simp add: a)
  qed
qed

lemma dispatch_chunks_concat:
  "length (concat chunks) \<le> MAX_BUFFER_BYTES \<Longrightarrow>
   dispatch_response_stream_impl ext env key w (map Inr chunks) pending =
   dispatch_response_stream_impl ext env key w [Inr (concat chunks)] pending"
  using stream_loop_chunks [of "[]" chunks ext env "length pending" w pending "[]"]
    stream_loop_chunks [of "[]" "[concat chunks]" ext env "length pending" w pending "[]"] concat_fits [of "[]" chunks]
  by (simp add: dispatch_response_stream_impl_def drain_lines.simps [of ext env _ w "[]"])

subsection \<open>Properties\<close>

text \<open>C10: Whatever a streamed response contains and however it ends (bad record, transport error, over-long
  buffer, missing records, callers gone), each waiting caller sees one complete exchange on its own
  channels: either one whole response, or a head followed by body parts, or the drop of its init sender;
  and then its body channel is closed. So the init sender is used or dropped exactly once, no body part
  precedes the head, nothing follows the close, and no caller is left waiting.\<close>

theorem stream_caller_trace:
  assumes "hm_ok pending" "separate pending" "(k, e) \<in> set pending"
  shows "caller_trace e (filter (concerns e) (dispatch_response_stream_impl ext env key wait_ms stream pending))"
  by (rule stream_rel_traces [OF dispatch_stream_refines [OF assms(1)] refl assms])

definition example_stream_env :: stream_env where
  "example_stream_env = \<lparr>alive = (\<lambda>_. True), elapsed = (\<lambda>h. of_nat (length h))\<rparr>"

definition example_callers :: stream_map where
  "example_callers = [(''a'', \<lparr>sp_init = Some 1, sp_body = 2\<rparr>), (''b'', \<lparr>sp_init = Some 3, sp_body = 4\<rparr>)]"

theorem stream_caller_trace_witness:
  "caller_trace \<lparr>sp_init = Some 3, sp_body = 4\<rparr> (filter (concerns \<lparr>sp_init = Some 3, sp_body = 4\<rparr>)
     (dispatch_response_stream_impl example_ext example_stream_env example_key 5 [Inr ''x'', Inl ''reset''] example_callers))"
  by (rule stream_caller_trace [of _ "''b''"]) (auto simp: example_callers_def separate_def)

text \<open>C13: The dispatcher is a run of the abstract caller machine that ends with nobody waiting: every channel
  operation belongs to a move of one entry of the pending map.\<close>

theorem stream_dispatch_refines_machine:
  assumes "hm_ok pending"
  shows "stream_rel pending [] (dispatch_response_stream_impl ext env key wait_ms stream pending)"
  by (rule dispatch_stream_refines [OF assms])

theorem stream_dispatch_refines_machine_witness:
  "stream_rel example_callers [] (dispatch_response_stream_impl example_ext example_stream_env example_key 5
     [Inr ''x''] example_callers)"
  by (rule stream_dispatch_refines_machine) (simp add: example_callers_def)

text \<open>C22: How the transport cuts the response into chunks does not matter: as long as the whole body stays
  within the buffer limit, every chunking gives the same channel operations as the body in one piece.\<close>

theorem stream_chunking_irrelevant:
  assumes "concat chunks1 = concat chunks2" "length (concat chunks1) \<le> MAX_BUFFER_BYTES"
  shows "dispatch_response_stream_impl ext env key wait_ms (map Inr chunks1) pending =
    dispatch_response_stream_impl ext env key wait_ms (map Inr chunks2) pending"
  using dispatch_chunks_concat [of chunks1 ext env key wait_ms pending]
    dispatch_chunks_concat [of chunks2 ext env key wait_ms pending] assms by simp

theorem stream_chunking_irrelevant_witness:
  "dispatch_response_stream_impl example_ext example_stream_env example_key 5
     (map Inr [''{a'', ''}'' @ [newline] @ ''{'', ''b}'']) example_callers =
   dispatch_response_stream_impl example_ext example_stream_env example_key 5
     (map Inr [''{a}'', [], [newline] @ ''{b}'']) example_callers"
  by (rule stream_chunking_irrelevant) (simp_all add: MAX_BUFFER_BYTES_def)

end
