(* ===== verification/Lambda.thy ===== *)
theory Lambda
  imports External
begin

text \<open>
  \<open>gateway/src/lambda.rs\<close>: the result of an invocation, the parser of the \<open>REPORT\<close> line in the
  log tail, and the two invocation modes of the AWS invoker. The SDK is the environment: what a call
  returned and the events of the response stream are arguments.
\<close>

record lambda_invoke_report =
  lr_duration_ms :: "f64 option"
  lr_billed_duration_ms :: "f64 option"
  lr_init_duration_ms :: "f64 option"
  lr_memory_size_mb :: "u64 option"
  lr_max_memory_used_mb :: "u64 option"
  lr_raw_report_line :: "string option"

definition empty_report :: lambda_invoke_report where
  "empty_report = \<lparr>lr_duration_ms = None, lr_billed_duration_ms = None, lr_init_duration_ms = None,
     lr_memory_size_mb = None, lr_max_memory_used_mb = None, lr_raw_report_line = None\<rparr>"

text \<open>
  A response stream is the list of items its receiver will yield; the report receiver of a stream
  is the report that will arrive, if any.
\<close>

datatype lambda_invoke_result =
    ResBuffered bytes "lambda_invoke_report option"
  | ResStream "bytes res list" "lambda_invoke_report option"

text \<open>The trait \<open>LambdaInvoker\<close>.\<close>

type_synonym lambda_invoker = "string \<Rightarrow> bytes \<Rightarrow> invoke_mode \<Rightarrow> bool \<Rightarrow> lambda_invoke_result res"

subsection \<open>The report\<close>

definition parse_ms :: "string \<Rightarrow> f64 option" where
  "parse_ms v =
     (let digits = takeWhile (\<lambda>c. is_ascii_digit c \<or> c = CHR ''.'') v in
      if digits = [] then None
      else map_option (\<lambda>(m, k). rnd (of_nat m / 10 ^ k)) (parse_decimal (trim digits)))"

definition parse_mb :: "string \<Rightarrow> u64 option" where
  "parse_mb v =
     (let digits = takeWhile is_ascii_digit v in
      if digits = [] then None else parse_u64 (trim digits))"

fun report_fields :: "string list \<Rightarrow> (string, string) hashmap \<Rightarrow> (string, string) hashmap" where
  "report_fields [] flds = flds"
| "report_fields (part # parts) flds =
     (case split_once CHR '':'' part of
        None \<Rightarrow> report_fields parts flds
      | Some (k, v) \<Rightarrow>
          report_fields parts
            (if trim k \<noteq> [] \<and> trim v \<noteq> [] then hm_insert (trim k) (trim v) flds else flds))"

definition field :: "(string, string) hashmap \<Rightarrow> string \<Rightarrow> (string \<Rightarrow> 'a option) \<Rightarrow> 'a option" where
  "field flds name parse = (case hm_get flds name of None \<Rightarrow> None | Some v \<Rightarrow> parse v)"

definition text_report :: "string \<Rightarrow> lambda_invoke_report" where
  "text_report report_line =
     (let flds = report_fields (split_on CHR 0x09 report_line) []
      in \<lparr>lr_duration_ms = field flds ''Duration'' parse_ms,
          lr_billed_duration_ms = field flds ''Billed Duration'' parse_ms,
          lr_init_duration_ms = field flds ''Init Duration'' parse_ms,
          lr_memory_size_mb = field flds ''Memory Size'' parse_mb,
          lr_max_memory_used_mb = field flds ''Max Memory Used'' parse_mb,
          lr_raw_report_line = Some report_line\<rparr>)"

definition or_else :: "'a option \<Rightarrow> 'a option \<Rightarrow> 'a option" where
  "or_else a b = (case a of Some x \<Rightarrow> Some x | None \<Rightarrow> b)"

definition json_member :: "json \<Rightarrow> string \<Rightarrow> (json \<Rightarrow> 'a option) \<Rightarrow> 'a option" where
  "json_member j name f = (case json_get j name of None \<Rightarrow> None | Some x \<Rightarrow> f x)"

definition json_mb :: "json \<Rightarrow> u64 option" where
  "json_mb n = or_else (json_as_u64 n)
     (case json_as_i64 n of Some i \<Rightarrow> if 0 \<le> i then Some (word_of_int i) else None | None \<Rightarrow> None)"

definition json_report :: "json \<Rightarrow> string \<Rightarrow> lambda_invoke_report" where
  "json_report m line =
     \<lparr>lr_duration_ms = json_member m ''durationMs'' json_as_f64,
      lr_billed_duration_ms = json_member m ''billedDurationMs''
        (\<lambda>n. or_else (json_as_f64 n) (map_option f_of_int (json_as_i64 n))),
      lr_init_duration_ms = json_member m ''initDurationMs'' json_as_f64,
      lr_memory_size_mb = json_member m ''memorySizeMB'' json_mb,
      lr_max_memory_used_mb = json_member m ''maxMemoryUsedMB'' json_mb,
      lr_raw_report_line = Some line\<rparr>"

text \<open>The structured log: the last \<open>platform.report\<close> object decides, even when it has no metrics.\<close>

fun find_json_report :: "ext_lib \<Rightarrow> string list \<Rightarrow> lambda_invoke_report option" where
  "find_json_report ext [] = None"
| "find_json_report ext (l # ls) =
     (let line = trim l in
      if \<not> starts_with ''{'' line then find_json_report ext ls
      else (case json_from_slice ext line of
         Inl _ \<Rightarrow> find_json_report ext ls
       | Inr v \<Rightarrow>
           if json_member v ''type'' json_as_str \<noteq> Some ''platform.report'' then find_json_report ext ls
           else (case json_member v ''record'' (\<lambda>r. json_get r ''metrics'') of
              None \<Rightarrow> None
            | Some m \<Rightarrow> Some (json_report m line))))"

definition parse_lambda_report_from_log_result :: "ext_lib \<Rightarrow> string \<Rightarrow> lambda_invoke_report option" where
  "parse_lambda_report_from_log_result ext log_result_b64 =
     (case b64_decode ext log_result_b64 of
        Inl _ \<Rightarrow> None
      | Inr decoded \<Rightarrow>
          let ls = rev (str_lines (from_utf8_lossy decoded)) in
          (case find (\<lambda>l. starts_with ''REPORT '' (trim_start l)) ls of
             Some l \<Rightarrow> Some (text_report (trim l))
           | None \<Rightarrow> find_json_report ext ls))"

subsection \<open>The AWS invoker\<close>

record aws_invoke_output =
  ao_function_error :: "string option"
  ao_log_result :: "string option"
  ao_payload :: "bytes option"

definition bind_option :: "'a option \<Rightarrow> ('a \<Rightarrow> 'b option) \<Rightarrow> 'b option" where
  "bind_option x f = (case x of None \<Rightarrow> None | Some y \<Rightarrow> f y)"

definition aws_invoke_buffered ::
  "ext_lib \<Rightarrow> string \<Rightarrow> bool \<Rightarrow> aws_invoke_output res \<Rightarrow> lambda_invoke_result res" where
  "aws_invoke_buffered ext function_name profiling sent =
     (case sent of
        Inl err \<Rightarrow> Inl err
      | Inr out \<Rightarrow>
          (case ao_function_error out of
             Some function_error \<Rightarrow>
               Inl (''lambda function error ('' @ function_error @ '') for '' @ function_name)
           | None \<Rightarrow>
               let report = (if profiling
                     then bind_option (ao_log_result out) (parse_lambda_report_from_log_result ext) else None)
               in Inr (ResBuffered (case ao_payload out of Some b \<Rightarrow> b | None \<Rightarrow> []) report)))"

datatype stream_event =
    PayloadChunk "bytes option"
  | InvokeComplete "string option" "string option" "string option"
  | OtherEvent

text \<open>
  The task that forwards the event stream. An input is one result of \<open>stream.recv()\<close>:
  an error, the end, or an event. \<open>can_send\<close> turns off when the receiver is gone
  (\<open>alive n\<close>: the \<open>n\<close>-th send reaches it). The outputs are the items sent and the report.
\<close>

datatype pump_out = PumpItem "bytes res" | PumpReport lambda_invoke_report

fun aws_stream_pump ::
  "ext_lib \<Rightarrow> (nat \<Rightarrow> bool) \<Rightarrow> nat \<Rightarrow> bool \<Rightarrow> bool \<Rightarrow> stream_event option res list \<Rightarrow> pump_out list" where
  "aws_stream_pump ext alive n can_send has_report [] = []"
| "aws_stream_pump ext alive n can_send has_report (Inr None # es) = []"
| "aws_stream_pump ext alive n can_send has_report (Inl err # es) =
     (if can_send then [PumpItem (Inl (''event stream recv: '' @ err))] else [])"
| "aws_stream_pump ext alive n can_send has_report (Inr (Some (PayloadChunk chunk)) # es) =
     (if \<not> can_send then aws_stream_pump ext alive n can_send has_report es
      else (case chunk of
         None \<Rightarrow> aws_stream_pump ext alive n can_send has_report es
       | Some payload \<Rightarrow>
           PumpItem (Inr payload) # aws_stream_pump ext alive (n + 1) (alive n) has_report es))"
| "aws_stream_pump ext alive n can_send has_report
     (Inr (Some (InvokeComplete log_result error_code error_details)) # es) =
     (if has_report
      then [PumpReport (case bind_option log_result (parse_lambda_report_from_log_result ext) of
              Some r \<Rightarrow> r | None \<Rightarrow> empty_report)]
      else []) @
     (case error_code of
        None \<Rightarrow> []
      | Some code \<Rightarrow>
          if can_send
          then [PumpItem (Inl (''lambda stream error ('' @ code @ ''): '' @
                  (case error_details of Some d \<Rightarrow> d | None \<Rightarrow> [])))]
          else [])"
| "aws_stream_pump ext alive n can_send has_report (Inr (Some OtherEvent) # es) =
     aws_stream_pump ext alive n can_send has_report es"

definition aws_invoke_stream ::
  "ext_lib \<Rightarrow> (nat \<Rightarrow> bool) \<Rightarrow> string \<Rightarrow> bool \<Rightarrow> (int \<times> stream_event option res list) res \<Rightarrow> lambda_invoke_result res" where
  "aws_invoke_stream ext alive function_name profiling sent =
     (case sent of
        Inl err \<Rightarrow> Inl err
      | Inr (status_code, events) \<Rightarrow>
          if status_code \<noteq> 200 then
            Inl (''InvokeWithResponseStream failed for '' @ function_name @ '' (status '' @
                 (if status_code < 0 then ''-'' @ dec (nat (- status_code)) else dec (nat status_code)) @ '')'')
          else
            let outs = aws_stream_pump ext alive 0 True profiling events
            in Inr (ResStream (concat (map (\<lambda>o1. case o1 of PumpItem i \<Rightarrow> [i] | PumpReport _ \<Rightarrow> []) outs))
                      (case concat (map (\<lambda>o1. case o1 of PumpReport r \<Rightarrow> [r] | PumpItem _ \<Rightarrow> []) outs) of
                         r # _ \<Rightarrow> Some r | [] \<Rightarrow> None)))"

subsection \<open>Lemmas\<close>

definition pump_items :: "pump_out list \<Rightarrow> bytes res list" where
  "pump_items outs = concat (map (\<lambda>o1. case o1 of PumpItem i \<Rightarrow> [i] | PumpReport _ \<Rightarrow> []) outs)"

lemma pump_items_simps [simp]:
  "pump_items [] = []"
  "pump_items (PumpItem i # outs) = i # pump_items outs"
  "pump_items (PumpReport r # outs) = pump_items outs"
  "pump_items (xs @ ys) = pump_items xs @ pump_items ys"
  by (simp_all add: pump_items_def)

text \<open>What the function sent: its payload chunks up to the end of the stream, and how it ended.\<close>

fun stream_payloads :: "stream_event option res list \<Rightarrow> bytes list" where
  "stream_payloads (Inr (Some (PayloadChunk (Some p))) # es) = p # stream_payloads es"
| "stream_payloads (Inr (Some (PayloadChunk None)) # es) = stream_payloads es"
| "stream_payloads (Inr (Some OtherEvent) # es) = stream_payloads es"
| "stream_payloads _ = []"

fun stream_failure :: "stream_event option res list \<Rightarrow> string option" where
  "stream_failure (Inr (Some (PayloadChunk _)) # es) = stream_failure es"
| "stream_failure (Inr (Some OtherEvent) # es) = stream_failure es"
| "stream_failure (Inl err # _) = Some (''event stream recv: '' @ err)"
| "stream_failure (Inr (Some (InvokeComplete _ (Some code) d)) # _) =
     Some (''lambda stream error ('' @ code @ ''): '' @ (case d of Some x \<Rightarrow> x | None \<Rightarrow> []))"
| "stream_failure _ = None"

lemma pump_muted: "pump_items (aws_stream_pump ext alive n False has_report es) = []"
  by (induction ext alive n False has_report es rule: aws_stream_pump.induct) (auto split: option.splits)

lemma pump_alive:
  "(\<And>k. alive k) \<Longrightarrow>
   pump_items (aws_stream_pump ext alive n True has_report es) =
     map Inr (stream_payloads es) @ (case stream_failure es of Some e \<Rightarrow> [Inl e] | None \<Rightarrow> [])"
  by (induction ext alive n True has_report es rule: aws_stream_pump.induct) (auto split: option.splits)

lemma pump_prefix:
  "\<exists>k rest. pump_items (aws_stream_pump ext alive n can_send has_report es) =
     map Inr (take k (stream_payloads es)) @ rest \<and> (rest = [] \<or> (\<exists>e. rest = [Inl e] \<and> stream_failure es = Some e))"
proof (induction ext alive n can_send has_report es rule: aws_stream_pump.induct)
  case (4 ext alive n can_send has_report chunk es)
  show ?case
  proof (cases can_send)
    case False
    then show ?thesis by (intro exI [of _ 0] exI [of _ "[]"]) (simp add: pump_muted)
  next
    case True
    show ?thesis
    proof (cases chunk)
      case None
      then show ?thesis using True 4(2) by simp
    next
      case (Some p)
      then obtain k rest where "pump_items (aws_stream_pump ext alive (n + 1) (alive n) has_report es) =
          map Inr (take k (stream_payloads es)) @ rest"
        "rest = [] \<or> (\<exists>e. rest = [Inl e] \<and> stream_failure es = Some e)"
        using True 4(3) by blast
      then show ?thesis using True Some by (intro exI [of _ "Suc k"] exI [of _ rest]) simp
    qed
  qed
next
  case (3 ext alive n can_send has_report err es)
  show ?case by (rule exI [of _ 0], rule exI [of _ "if can_send then [Inl (''event stream recv: '' @ err)] else []"]) simp
next
  case (5 ext alive n can_send has_report log_result error_code error_details es)
  show ?case
    by (rule exI [of _ 0], rule exI [of _ "pump_items (aws_stream_pump ext alive n can_send has_report
        (Inr (Some (InvokeComplete log_result error_code error_details)) # es))"]) (simp split: option.splits)
qed simp_all

subsection \<open>Properties\<close>

text \<open>The response stream a dispatcher reads is what the function sent: the payload chunks in order and
  then, when the stream broke or the function reported an error, that error as the last item. If the
  dispatcher stops listening, it has got a prefix of this.\<close>

theorem aws_stream_forwards:
  "(\<exists>k rest. pump_items (aws_stream_pump ext alive 0 True profiling es) =
      map Inr (take k (stream_payloads es)) @ rest \<and>
      (rest = [] \<or> (\<exists>e. rest = [Inl e] \<and> stream_failure es = Some e))) \<and>
   pump_items (aws_stream_pump ext (\<lambda>_. True) 0 True profiling es) =
     map Inr (stream_payloads es) @ (case stream_failure es of Some e \<Rightarrow> [Inl e] | None \<Rightarrow> [])"
  by (rule conjI, rule pump_prefix, rule pump_alive, rule TrueI)

subsection \<open>\<open>LambdaInvoker\<close> on the AWS invoker\<close>

text \<open>
  The request that is sent, and \<open>invoke\<close> as a whole: the client answers a request of each operation.
  \<open>AwsLambdaInvoker::new\<close> overrides the region of the environment when one is configured.
\<close>

datatype aws_operation = InvokeOperation | InvokeWithResponseStreamOperation

record aws_request =
  aq_operation :: aws_operation
  aq_function_name :: string
  aq_payload :: bytes
  aq_log_tail :: bool

record aws_client =
  ac_region :: "string option"
  ac_invoke :: "aws_request \<Rightarrow> aws_invoke_output res"
  ac_invoke_stream :: "aws_request \<Rightarrow> (int \<times> stream_event option res list) res"

definition aws_invoker_new :: "aws_client \<Rightarrow> string option \<Rightarrow> aws_client" where
  "aws_invoker_new env_client region =
     (case region of Some r \<Rightarrow> env_client\<lparr>ac_region := Some r\<rparr> | None \<Rightarrow> env_client)"

definition aws_request_for :: "string \<Rightarrow> bytes \<Rightarrow> invoke_mode \<Rightarrow> bool \<Rightarrow> aws_request" where
  "aws_request_for function_name payload mode profiling =
     \<lparr>aq_operation = (case mode of Buffered \<Rightarrow> InvokeOperation | ResponseStream \<Rightarrow> InvokeWithResponseStreamOperation),
      aq_function_name = function_name, aq_payload = payload, aq_log_tail = profiling\<rparr>"

definition aws_invoke :: "ext_lib \<Rightarrow> (nat \<Rightarrow> bool) \<Rightarrow> aws_client \<Rightarrow> lambda_invoker" where
  "aws_invoke ext alive client function_name payload mode profiling =
     (let req = aws_request_for function_name payload mode profiling
      in case mode of
           Buffered \<Rightarrow> aws_invoke_buffered ext function_name profiling (ac_invoke client req)
         | ResponseStream \<Rightarrow> aws_invoke_stream ext alive function_name profiling (ac_invoke_stream client req))"

text \<open>An invocation never comes back in the other mode, and without profiling it has no report.\<close>

lemma pump_no_report: "PumpReport r \<notin> set (aws_stream_pump ext alive n can_send False es)"
  by (induction ext alive n can_send "False" es rule: aws_stream_pump.induct) (auto split: option.splits)

lemma no_reports: "(\<And>r. PumpReport r \<notin> set outs) \<Longrightarrow> concat (map (\<lambda>o1. case o1 of PumpReport r \<Rightarrow> [r] | PumpItem _ \<Rightarrow> []) outs) = []"
  by (induction outs) (auto split: pump_out.splits)

lemma pump_reports:
  "concat (map (\<lambda>o1. case o1 of PumpReport r \<Rightarrow> [r] | PumpItem _ \<Rightarrow> []) (aws_stream_pump ext alive n can_send False es)) = []"
  by (rule no_reports) (rule pump_no_report)

lemma aws_invoke_mode:
  assumes "aws_invoke ext alive client function_name payload mode profiling = Inr res"
  shows "case res of
      ResBuffered out report \<Rightarrow> mode = Buffered \<and> (report = None \<or> profiling)
    | ResStream items report \<Rightarrow> mode = ResponseStream \<and> (report = None \<or> profiling)"
proof (cases mode)
  case Buffered
  then show ?thesis using assms
    by (auto simp: aws_invoke_def aws_invoke_buffered_def Let_def split: sum.splits option.splits if_splits)
next
  case ResponseStream
  then show ?thesis using assms
    by (cases profiling) (auto simp: aws_invoke_def aws_invoke_stream_def Let_def pump_reports split: sum.splits if_splits prod.splits)
qed

end
