(* ===== verification/Invocation.thy ===== *)
theory Invocation
  imports Stream_Dispatch Lambda
begin

text \<open>
  \<open>batching/invocation.rs\<close>, \<open>batching/probe_feedback.rs\<close> and the trait of
  \<open>response_dispatch.rs\<close>: an invocation job carries the callers of one invocation; it is failed, or
  run to completion by the dispatcher, which never has more jobs in flight than the semaphore has
  permits. What a call of the invoker returned and the clock readings are arguments.

  The traits \<open>ResponseDispatcher\<close> and \<open>ProbeFeedbackReporter\<close> are records of functions (the
  trait object); the contract of each is a locale, interpreted on the gateway's implementation.
\<close>

subsection \<open>Effects and callers\<close>

record duration_feedback =
  fb_is_probe :: bool
  fb_success :: bool
  fb_elapsed_ms :: u64

datatype effect =
    Answer chan gateway_response
  | DropAnswer chan
  | StreamEff stream_out
  | FeedbackSent chan duration_feedback

datatype caller = BufCaller chan | StrCaller chan

text \<open>The callers whose wait an effect ends: an answer or the drop of the sender they wait for.\<close>

fun resolves :: "effect \<Rightarrow> caller list" where
  "resolves (Answer c _) = [BufCaller c]"
| "resolves (DropAnswer c) = [BufCaller c]"
| "resolves (StreamEff (SendInit c _)) = [StrCaller c]"
| "resolves (StreamEff (DropInit c)) = [StrCaller c]"
| "resolves _ = []"

definition resolved :: "effect list \<Rightarrow> caller multiset" where
  "resolved effs = mset (concat (map resolves effs))"

definition buf_callers :: "(string, chan) hashmap \<Rightarrow> caller multiset" where
  "buf_callers p = mset (map (\<lambda>(_, c). BufCaller c) p)"

definition entry_callers :: "stream_pending \<Rightarrow> caller list" where
  "entry_callers e = (case sp_init e of Some i \<Rightarrow> [StrCaller i] | None \<Rightarrow> [])"

definition str_callers :: "stream_map \<Rightarrow> caller multiset" where
  "str_callers p = mset (concat (map (\<lambda>(_, e). entry_callers e) p))"

definition feedbacks :: "effect list \<Rightarrow> (chan \<times> duration_feedback) list" where
  "feedbacks effs = concat (map (\<lambda>e. case e of FeedbackSent c f \<Rightarrow> [(c, f)] | _ \<Rightarrow> []) effs)"

lemma resolved_simps [simp]:
  "resolved [] = {#}"
  "resolved (e # es) = mset (resolves e) + resolved es"
  "resolved (xs @ ys) = resolved xs + resolved ys"
  by (simp_all add: resolved_def)

lemma feedbacks_simps [simp]:
  "feedbacks [] = []"
  "feedbacks (xs @ ys) = feedbacks xs @ feedbacks ys"
  "feedbacks (Answer c r # es) = feedbacks es"
  "feedbacks (DropAnswer c # es) = feedbacks es"
  "feedbacks (StreamEff x # es) = feedbacks es"
  "feedbacks (FeedbackSent c f # es) = (c, f) # feedbacks es"
  by (simp_all add: feedbacks_def)

subsection \<open>The two traits\<close>

record response_dispatcher_ops =
  dispatch_buffered :: "batch_key \<Rightarrow> u64 \<Rightarrow> u64 \<Rightarrow> bytes \<Rightarrow> (string, chan) hashmap \<Rightarrow> (chan \<times> gateway_response) list"
  dispatch_response_stream :: "batch_key \<Rightarrow> u64 \<Rightarrow> bytes res list \<Rightarrow> stream_map \<Rightarrow> stream_out list"
  fail_all_buffered :: "(string, chan) hashmap \<Rightarrow> nat \<Rightarrow> u64 \<Rightarrow> u64 option \<Rightarrow> u16 \<Rightarrow> string \<Rightarrow> (chan \<times> gateway_response) list"
  fail_all_stream :: "stream_map \<Rightarrow> nat \<Rightarrow> u64 \<Rightarrow> u64 option \<Rightarrow> u16 \<Rightarrow> string \<Rightarrow> stream_out list"

definition default_dispatcher :: "ext_lib \<Rightarrow> stream_env \<Rightarrow> response_dispatcher_ops" where
  "default_dispatcher ext env =
     \<lparr>dispatch_buffered = dispatch_buffered_impl ext,
      dispatch_response_stream = dispatch_response_stream_impl ext env,
      fail_all_buffered = fail_all_buffered_impl,
      fail_all_stream = fail_all_stream_impl\<rparr>"

record feedback_reporter_ops =
  report_best_effort :: "chan option \<Rightarrow> bool \<Rightarrow> u64 \<Rightarrow> effect list"
  report_async :: "chan option \<Rightarrow> bool \<Rightarrow> u64 \<Rightarrow> effect list"

text \<open>
  Both reports try to send at once and otherwise wait for room in the channel (the best-effort
  one in a task of its own), so both send one message when there is a channel.
\<close>

definition report_default :: "chan option \<Rightarrow> bool \<Rightarrow> u64 \<Rightarrow> effect list" where
  "report_default duration_feedback_tx success elapsed_ms =
     (case duration_feedback_tx of
        None \<Rightarrow> []
      | Some tx \<Rightarrow> [FeedbackSent tx \<lparr>fb_is_probe = True, fb_success = success, fb_elapsed_ms = elapsed_ms\<rparr>])"

definition default_reporter :: feedback_reporter_ops where
  "default_reporter = \<lparr>report_best_effort = report_default, report_async = report_default\<rparr>"

subsection \<open>Jobs\<close>

record job_info =
  ji_key :: batch_key
  ji_wait_ms :: u64
  ji_estimated_rps :: "f64 option"
  ji_is_probe :: bool
  ji_duration_feedback_tx :: "chan option"
  ji_payload :: bytes

datatype invocation_job =
    JobBuffered job_info "(string, chan) hashmap"
  | JobStream job_info stream_map

abbreviation answers :: "(chan \<times> gateway_response) list \<Rightarrow> effect list" where
  "answers sends \<equiv> map (\<lambda>(c, r). Answer c r) sends"

fun job_fail ::
  "response_dispatcher_ops \<Rightarrow> feedback_reporter_ops \<Rightarrow> u16 \<Rightarrow> string \<Rightarrow> invocation_job \<Rightarrow> effect list" where
  "job_fail d rep status msg (JobBuffered ji pending) =
     (if ji_is_probe ji then report_best_effort rep (ji_duration_feedback_tx ji) False 0 else []) @
     answers (fail_all_buffered d pending (length pending) (ji_wait_ms ji) None status msg)"
| "job_fail d rep status msg (JobStream ji pending) =
     (if ji_is_probe ji then report_best_effort rep (ji_duration_feedback_tx ji) False 0 else []) @
     map StreamEff (fail_all_stream d pending (length pending) (ji_wait_ms ji) None status msg)"

text \<open>
  \<open>el1\<close> and \<open>el2\<close> are the elapsed milliseconds read for the answers and for the feedback.
  A buffered success reads the clock once and uses the reading twice.
\<close>

definition run_buffered_job ::
  "response_dispatcher_ops \<Rightarrow> feedback_reporter_ops \<Rightarrow> lambda_invoke_result res \<Rightarrow> u64 \<Rightarrow> u64 \<Rightarrow>
   job_info \<Rightarrow> (string, chan) hashmap \<Rightarrow> effect list" where
  "run_buffered_job d rep outcome el1 el2 ji pending =
     (let batch_size = length pending;
          feedback = (\<lambda>success el. if ji_is_probe ji
             then report_async rep (ji_duration_feedback_tx ji) success el else [])
      in case outcome of
           Inr (ResBuffered payload report) \<Rightarrow>
             answers (dispatch_buffered d (ji_key ji) (ji_wait_ms ji) el1 payload pending) @ feedback True el1
         | Inr (ResStream stream report) \<Rightarrow>
             answers (fail_all_buffered d pending batch_size (ji_wait_ms ji) (Some el1) BAD_GATEWAY
               ''unexpected response stream'') @ feedback False el2
         | Inl err \<Rightarrow>
             answers (fail_all_buffered d pending batch_size (ji_wait_ms ji) (Some el1) BAD_GATEWAY
               (''invoke: '' @ err)) @ feedback False el2)"

definition run_stream_job ::
  "response_dispatcher_ops \<Rightarrow> feedback_reporter_ops \<Rightarrow> lambda_invoke_result res \<Rightarrow> u64 \<Rightarrow> u64 \<Rightarrow>
   job_info \<Rightarrow> stream_map \<Rightarrow> effect list" where
  "run_stream_job d rep outcome el1 el2 ji pending =
     (let batch_size = length pending;
          feedback = (\<lambda>success el. if ji_is_probe ji
             then report_async rep (ji_duration_feedback_tx ji) success el else [])
      in case outcome of
           Inr (ResBuffered payload report) \<Rightarrow>
             map StreamEff (fail_all_stream d pending batch_size (ji_wait_ms ji) (Some el1) BAD_GATEWAY
               ''unexpected buffered response'') @ feedback False el2
         | Inr (ResStream stream report) \<Rightarrow>
             map StreamEff (dispatch_response_stream d (ji_key ji) (ji_wait_ms ji) stream pending) @ feedback True el2
         | Inl err \<Rightarrow>
             map StreamEff (fail_all_stream d pending batch_size (ji_wait_ms ji) (Some el1) BAD_GATEWAY
               (''invoke: '' @ err)) @ feedback False el2)"

fun run_invocation_job ::
  "response_dispatcher_ops \<Rightarrow> feedback_reporter_ops \<Rightarrow> lambda_invoke_result res \<Rightarrow> u64 \<Rightarrow> u64 \<Rightarrow>
   invocation_job \<Rightarrow> effect list" where
  "run_invocation_job d rep outcome el1 el2 (JobBuffered ji pending) =
     run_buffered_job d rep outcome el1 el2 ji pending"
| "run_invocation_job d rep outcome el1 el2 (JobStream ji pending) =
     run_stream_job d rep outcome el1 el2 ji pending"

lemmas run_job_parts [simp] = run_buffered_job_def run_stream_job_def

fun job_info_of :: "invocation_job \<Rightarrow> job_info" where
  "job_info_of (JobBuffered ji _) = ji"
| "job_info_of (JobStream ji _) = ji"

fun job_callers :: "invocation_job \<Rightarrow> caller multiset" where
  "job_callers (JobBuffered _ p) = buf_callers p"
| "job_callers (JobStream _ p) = str_callers p"

fun job_ok :: "invocation_job \<Rightarrow> bool" where
  "job_ok (JobBuffered _ p) \<longleftrightarrow> hm_ok p"
| "job_ok (JobStream _ p) \<longleftrightarrow> hm_ok p"

subsection \<open>The contracts of the traits\<close>

lemma resolved_answers: "resolved (answers sends) = mset (map (\<lambda>(c, _). BufCaller c) sends)"
  by (induction sends) auto

lemma resolved_by_chans:
  assumes "mset (map fst sends) = mset (map snd p)"
  shows "resolved (answers sends) = buf_callers p"
proof -
  have "image_mset BufCaller (mset (map fst sends)) = image_mset BufCaller (mset (map snd p))"
    by (simp only: assms)
  then show ?thesis unfolding resolved_answers buf_callers_def
    by (simp add: multiset.map_comp comp_def split_def)
qed

lemma feedbacks_answers [simp]: "feedbacks (answers sends) = []"
  by (induction sends) auto

lemma feedbacks_stream [simp]: "feedbacks (map StreamEff outs) = []"
  by (induction outs) auto

lemma moves_resolve:
  "caller_moves e outs r \<Longrightarrow>
   resolved (map StreamEff outs) + (case r of Some e' \<Rightarrow> mset (entry_callers e') | None \<Rightarrow> {#}) = mset (entry_callers e)"
proof -
  have bodies: "resolved (map StreamEff (map (SendBody c) bs)) = {#}" for c bs by (induction bs) auto
  show "caller_moves e outs r \<Longrightarrow> ?thesis"
    by (induction rule: caller_moves.induct) (simp_all add: entry_callers_def bodies del: map_map)
qed

lemma str_callers_Cons: "str_callers ((k, e) # p) = mset (entry_callers e) + str_callers p"
  by (simp add: str_callers_def)

lemma str_callers_remove:
  "hm_ok p \<Longrightarrow> hm_get p k = Some e \<Longrightarrow> str_callers p = mset (entry_callers e) + str_callers (hm_delete k p)"
proof (induction p)
  case Nil
  then show ?case by simp
next
  case (Cons x p)
  then show ?case by (cases x) (auto simp: str_callers_Cons hm_delete_absent)
qed

lemma str_callers_reinsert:
  "str_callers (hm_insert k e (hm_delete k p)) = str_callers (hm_delete k p) + mset (entry_callers e)"
  by (subst hm_insert_absent) (auto simp: str_callers_def)

lemma stream_rel_resolves:
  "stream_rel p q outs \<Longrightarrow> hm_ok p \<Longrightarrow> resolved (map StreamEff outs) + str_callers q = str_callers p"
proof (induction rule: stream_rel.induct)
  case (nothing p)
  then show ?case by simp
next
  case (keeps p k e outs e' q rest)
  have ok: "hm_ok (hm_insert k e' (hm_delete k p))" using keeps.prems by auto
  have "resolved (map StreamEff rest) + str_callers q = mset (entry_callers e') + str_callers (hm_delete k p)"
    using keeps.IH [OF ok] by (simp add: str_callers_reinsert add.commute)
  moreover have "resolved (map StreamEff outs) + mset (entry_callers e') = mset (entry_callers e)"
    using moves_resolve [OF keeps(2)] by simp
  ultimately show ?case unfolding str_callers_remove [OF keeps.prems keeps(1)]
    by (metis (no_types, lifting) add.assoc map_append resolved_simps(3))
next
  case (closes p k e outs q rest)
  have ok: "hm_ok (hm_delete k p)" using closes.prems by auto
  show ?case
    using closes.IH [OF ok] moves_resolve [OF closes(2)] str_callers_remove [OF closes.prems closes(1)]
    by (simp add: add_ac)
qed

text \<open>
  Every operation of a response dispatcher ends the wait of exactly the callers it is given. This
  is all that jobs, flushes and batchers rely on.
\<close>

locale response_dispatcher =
  fixes d :: response_dispatcher_ops
  assumes dispatch_buffered_all: "hm_ok p \<Longrightarrow>
      resolved (answers (dispatch_buffered d key w el payload p)) = buf_callers p"
    and dispatch_stream_all: "hm_ok ps \<Longrightarrow>
      resolved (map StreamEff (dispatch_response_stream d key w stream ps)) = str_callers ps"
    and fail_buffered_all: "hm_ok p \<Longrightarrow>
      resolved (answers (fail_all_buffered d p n w elo status msg)) = buf_callers p"
    and fail_stream_all: "hm_ok ps \<Longrightarrow>
      resolved (map StreamEff (fail_all_stream d ps n w elo status msg)) = str_callers ps"

text \<open>A feedback reporter sends one probe message when there is a channel, and answers nobody.\<close>

locale feedback_reporter =
  fixes rep :: feedback_reporter_ops
  assumes best_effort: "feedbacks (report_best_effort rep tx ok el) =
      (case tx of None \<Rightarrow> [] | Some c \<Rightarrow> [(c, \<lparr>fb_is_probe = True, fb_success = ok, fb_elapsed_ms = el\<rparr>)])"
    and async: "feedbacks (report_async rep tx ok el) =
      (case tx of None \<Rightarrow> [] | Some c \<Rightarrow> [(c, \<lparr>fb_is_probe = True, fb_success = ok, fb_elapsed_ms = el\<rparr>)])"
    and no_answers: "resolved (report_best_effort rep tx ok el) = {#}" "resolved (report_async rep tx ok el) = {#}"

locale invocation = response_dispatcher d + feedback_reporter rep
  for d :: response_dispatcher_ops and rep :: feedback_reporter_ops
begin

lemma job_fail_resolves: "job_ok job \<Longrightarrow> resolved (job_fail d rep status msg job) = job_callers job"
  by (cases job) (simp_all add: no_answers fail_buffered_all fail_stream_all)

lemma run_resolves: "job_ok job \<Longrightarrow> resolved (run_invocation_job d rep outcome el1 el2 job) = job_callers job"
  by (cases job)
    (auto simp: Let_def no_answers dispatch_buffered_all dispatch_stream_all fail_buffered_all fail_stream_all
      split: sum.split lambda_invoke_result.split)

lemma job_fail_feedback:
  "feedbacks (job_fail d rep status msg job) =
    (if ji_is_probe (job_info_of job)
     then (case ji_duration_feedback_tx (job_info_of job) of None \<Rightarrow> []
           | Some c \<Rightarrow> [(c, \<lparr>fb_is_probe = True, fb_success = False, fb_elapsed_ms = 0\<rparr>)]) else [])"
  by (cases job) (simp_all add: best_effort)

lemma run_feedback:
  "\<exists>ok el. feedbacks (run_invocation_job d rep outcome el1 el2 job) =
    (if ji_is_probe (job_info_of job)
     then (case ji_duration_feedback_tx (job_info_of job) of None \<Rightarrow> []
           | Some c \<Rightarrow> [(c, \<lparr>fb_is_probe = True, fb_success = ok, fb_elapsed_ms = el\<rparr>)]) else [])"
  by (cases job; cases outcome) (auto simp: async Let_def split: lambda_invoke_result.split)

end

interpretation default_dispatch: response_dispatcher "default_dispatcher ext env" for ext env
proof
  show "hm_ok p \<Longrightarrow> resolved (answers (dispatch_buffered (default_dispatcher ext env) key w el payload p)) = buf_callers p"
    for p key w el payload
    unfolding default_dispatcher_def response_dispatcher_ops.simps
    by (intro resolved_by_chans dispatch_buffered_chans)
  show "hm_ok p \<Longrightarrow> resolved (answers (fail_all_buffered (default_dispatcher ext env) p n w elo status msg)) = buf_callers p"
    for p n w elo status msg
    unfolding default_dispatcher_def response_dispatcher_ops.simps
    by (intro resolved_by_chans) (simp only: fail_all_buffered_chans)
  show "hm_ok ps \<Longrightarrow> resolved (map StreamEff (dispatch_response_stream (default_dispatcher ext env) key w stream ps)) =
      str_callers ps" for ps key w stream
    using stream_rel_resolves [OF dispatch_stream_refines] by (simp add: default_dispatcher_def str_callers_def)
  show "hm_ok ps \<Longrightarrow> resolved (map StreamEff (fail_all_stream (default_dispatcher ext env) ps n w elo status msg)) =
      str_callers ps" for ps n w elo status msg
    using stream_rel_resolves [OF fail_all_rel] by (simp add: default_dispatcher_def str_callers_def)
qed

interpretation default_feedback: feedback_reporter default_reporter
  by unfold_locales (auto simp: default_reporter_def report_default_def split: option.splits)

interpretation default_invocation: invocation "default_dispatcher ext env" default_reporter for ext env ..

end
