(* ===== verification/Job_Queue.thy ===== *)
theory Job_Queue
  imports Invocation
begin

text \<open>
  The bounded queue of invocation jobs between the batchers and \<open>invocation_dispatcher\<close>
  (\<open>batching/invocation.rs\<close>), with the semaphore that bounds the invocations in flight, as a
  partial step function over the events of the three parties: a batcher that tries to enqueue
  (\<open>enqueue_invocation_job\<close> of \<open>flush.rs\<close>), the dispatcher loop, and the spawned job tasks. A job task makes all its
  sends in the step that ends it; what waits while a streamed response is written is the subject of \<open>Backpressure\<close>.
\<close>

record job_queue =
  jq_capacity :: nat
  jq_open :: bool
  jq_jobs :: "invocation_job list"
  jq_holding :: "invocation_job option"
  jq_permits :: nat
  jq_running :: "invocation_job list"

text \<open>\<open>BatcherManager::new\<close>: the channel has room for at least one job.\<close>

definition queue_new :: "nat \<Rightarrow> nat \<Rightarrow> job_queue" where
  "queue_new max_inflight_invocations max_pending_invocations =
     \<lparr>jq_capacity = max max_pending_invocations 1, jq_open = True, jq_jobs = [], jq_holding = None,
      jq_permits = max_inflight_invocations, jq_running = []\<rparr>"

datatype try_send_result = SendOk | SendFull | SendClosed

definition try_send_job :: "job_queue \<Rightarrow> try_send_result" where
  "try_send_job q =
     (if \<not> jq_open q then SendClosed
      else if length (jq_jobs q) < jq_capacity q then SendOk else SendFull)"

text \<open>What happens to a job that could not be sent.\<close>

definition rejected_job ::
  "response_dispatcher_ops \<Rightarrow> feedback_reporter_ops \<Rightarrow> try_send_result \<Rightarrow> invocation_job \<Rightarrow> effect list" where
  "rejected_job d rep r job =
     (case r of
        SendOk \<Rightarrow> []
      | SendFull \<Rightarrow> job_fail d rep TOO_MANY_REQUESTS ''gateway overloaded'' job
      | SendClosed \<Rightarrow> job_fail d rep BAD_GATEWAY ''gateway shutting down'' job)"

definition enqueue_invocation_job ::
  "response_dispatcher_ops \<Rightarrow> feedback_reporter_ops \<Rightarrow> invocation_job \<Rightarrow> job_queue \<Rightarrow> job_queue \<times> effect list" where
  "enqueue_invocation_job d rep job q =
     (if try_send_job q = SendOk then (q\<lparr>jq_jobs := jq_jobs q @ [job]\<rparr>, [])
      else (q, rejected_job d rep (try_send_job q) job))"

datatype queue_event =
    TryEnqueue invocation_job
  | DispatcherRecv
  | AcquirePermit
  | SemaphoreClosed
  | JobDone nat "lambda_invoke_result res" u64 u64

fun queue_step ::
  "response_dispatcher_ops \<Rightarrow> feedback_reporter_ops \<Rightarrow> job_queue \<Rightarrow> queue_event \<Rightarrow> (job_queue \<times> effect list) option" where
  "queue_step d rep q (TryEnqueue job) = Some (enqueue_invocation_job d rep job q)"
| "queue_step d rep q DispatcherRecv =
     (case (jq_holding q, jq_jobs q) of
        (None, job # jobs) \<Rightarrow> Some (q\<lparr>jq_holding := Some job, jq_jobs := jobs\<rparr>, [])
      | _ \<Rightarrow> None)"
| "queue_step d rep q AcquirePermit =
     (case jq_holding q of
        Some job \<Rightarrow>
          if jq_permits q = 0 then None
          else Some (q\<lparr>jq_holding := None, jq_permits := jq_permits q - 1, jq_running := jq_running q @ [job]\<rparr>, [])
      | None \<Rightarrow> None)"
| "queue_step d rep q SemaphoreClosed =
     (case jq_holding q of
        Some job \<Rightarrow> Some (q\<lparr>jq_holding := None\<rparr>, job_fail d rep BAD_GATEWAY ''gateway shutting down'' job)
      | None \<Rightarrow> None)"
| "queue_step d rep q (JobDone i outcome el1 el2) =
     (if i < length (jq_running q)
      then Some (q\<lparr>jq_permits := jq_permits q + 1,
                   jq_running := take i (jq_running q) @ drop (Suc i) (jq_running q)\<rparr>,
                 run_invocation_job d rep outcome el1 el2 (jq_running q ! i))
      else None)"

subsection \<open>Invariants\<close>

definition held_jobs :: "job_queue \<Rightarrow> invocation_job list" where
  "held_jobs q = jq_jobs q @ (case jq_holding q of Some j \<Rightarrow> [j] | None \<Rightarrow> []) @ jq_running q"

definition queue_callers :: "job_queue \<Rightarrow> caller multiset" where
  "queue_callers q = sum_list (map job_callers (held_jobs q))"

fun offered :: "queue_event \<Rightarrow> caller multiset" where
  "offered (TryEnqueue job) = job_callers job"
| "offered _ = {#}"

fun event_ok :: "queue_event \<Rightarrow> bool" where
  "event_ok (TryEnqueue job) \<longleftrightarrow> job_ok job"
| "event_ok _ \<longleftrightarrow> True"

definition queue_inv :: "nat \<Rightarrow> nat \<Rightarrow> job_queue \<Rightarrow> bool" where
  "queue_inv inflight cap q \<longleftrightarrow>
     jq_permits q + length (jq_running q) = inflight \<and> jq_capacity q = cap \<and> length (jq_jobs q) \<le> cap \<and>
     (\<forall>job \<in> set (held_jobs q). job_ok job)"

lemma queue_new_inv: "queue_inv inflight (max pending 1) (queue_new inflight pending)"
  by (simp add: queue_inv_def queue_new_def held_jobs_def)

lemma nth_split: "i < length xs \<Longrightarrow> xs = take i xs @ xs ! i # drop (Suc i) xs"
  by (rule id_take_nth_drop)

lemma set_without: "set (take i xs @ drop (Suc i) xs) \<subseteq> set xs"
  using set_take_subset [of i xs] set_drop_subset [of "Suc i" xs] by auto

lemma queue_step_inv:
  assumes "queue_step d rep q e = Some (q', effs)" "queue_inv inflight cap q" "event_ok e"
  shows "queue_inv inflight cap q'"
proof (cases e)
  case (JobDone i outcome el1 el2)
  then have i: "i < length (jq_running q)" using assms(1) by (auto split: if_splits)
  have "length (take i (jq_running q) @ drop (Suc i) (jq_running q)) + 1 = length (jq_running q)"
    using i by simp
  moreover have "\<forall>job \<in> set (take i (jq_running q) @ drop (Suc i) (jq_running q)). job_ok job"
    using set_without [of i "jq_running q"] assms(2) unfolding queue_inv_def held_jobs_def by auto
  ultimately show ?thesis
    using JobDone i assms(1,2)
    by (auto simp: queue_inv_def held_jobs_def split: option.splits)
qed (use assms in \<open>auto simp: queue_inv_def held_jobs_def enqueue_invocation_job_def try_send_job_def
      split: option.splits list.splits if_splits\<close>)

context invocation
begin

lemma rejected_resolves: "job_ok job \<Longrightarrow> r \<noteq> SendOk \<Longrightarrow> resolved (rejected_job d rep r job) = job_callers job"
  by (cases r) (simp_all add: rejected_job_def job_fail_resolves)

lemma queue_step_resolves:
  assumes "queue_step d rep q e = Some (q', effs)" "queue_inv inflight cap q" "event_ok e"
  shows "resolved effs + queue_callers q' = queue_callers q + offered e"
proof (cases e)
  case (TryEnqueue job)
  then show ?thesis using assms rejected_resolves [of job "try_send_job q"]
    by (auto simp: enqueue_invocation_job_def queue_callers_def held_jobs_def add_ac split: if_splits)
next
  case (JobDone i outcome el1 el2)
  then have i: "i < length (jq_running q)" using assms(1) by (auto split: if_splits)
  have "job_ok (jq_running q ! i)" using assms(2) i by (auto simp: queue_inv_def held_jobs_def)
  then have r: "resolved effs = job_callers (jq_running q ! i)"
    using JobDone i assms(1) run_resolves by auto
  have "sum_list (map job_callers (jq_running q)) =
      job_callers (jq_running q ! i) + sum_list (map job_callers (take i (jq_running q) @ drop (Suc i) (jq_running q)))"
    by (subst nth_split [OF i]) (simp add: add_ac)
  then show ?thesis using JobDone i assms(1)
    by (auto simp: r queue_callers_def held_jobs_def add_ac split: option.splits)
next
  case SemaphoreClosed
  then show ?thesis using assms
    by (auto simp: queue_callers_def held_jobs_def queue_inv_def job_fail_resolves add_ac split: option.splits)
qed (use assms in \<open>auto simp: queue_callers_def held_jobs_def add_ac split: option.splits list.splits if_splits\<close>)

lemma queue_run_resolves:
  "run (queue_step d rep) q es = Some (q', effs) \<Longrightarrow> queue_inv inflight cap q \<Longrightarrow> list_all event_ok es \<Longrightarrow>
   queue_inv inflight cap q' \<and>
   resolved effs + queue_callers q' = queue_callers q + sum_list (map offered es)"
proof (induction es arbitrary: q effs)
  case Nil
  then show ?case by simp
next
  case (Cons e es)
  from Cons.prems(1) obtain q1 o1 o2 where s: "queue_step d rep q e = Some (q1, o1)"
    "run (queue_step d rep) q1 es = Some (q', o2)" "effs = o1 @ o2" by (rule run_ConsE)
  have ok: "event_ok e" "list_all event_ok es" using Cons.prems(3) by simp_all
  note inv1 = queue_step_inv [OF s(1) Cons.prems(2) ok(1)]
  have 1: "resolved o1 + queue_callers q1 = queue_callers q + offered e"
    by (rule queue_step_resolves [OF s(1) Cons.prems(2) ok(1)])
  have 2: "queue_inv inflight cap q'"
    "resolved o2 + queue_callers q' = queue_callers q1 + sum_list (map offered es)"
    using Cons.IH [OF s(2) inv1 ok(2)] by auto
  have "resolved effs + queue_callers q' = resolved o1 + (queue_callers q1 + sum_list (map offered es))"
    using 2(2) by (simp add: s(3) add.assoc)
  also have "\<dots> = queue_callers q + sum_list (map offered (e # es))"
    using 1 by (simp add: add.assoc [symmetric])
  finally show ?case using 2(1) by simp
qed

end

subsection \<open>Progress\<close>

text \<open>
  Every event that is not a new job brings the queue closer to being empty, and as long as it is not
  empty such an event can occur; so with at least one permit, and when running jobs end, no job waits forever
  behind the others.
\<close>

definition queue_work :: "job_queue \<Rightarrow> nat" where
  "queue_work q = 3 * length (jq_jobs q) + (case jq_holding q of Some _ \<Rightarrow> 2 | None \<Rightarrow> 0) + length (jq_running q)"

lemma queue_work_decreases:
  assumes "queue_step d rep q e = Some (q', effs)" "\<forall>job. e \<noteq> TryEnqueue job"
  shows "queue_work q' < queue_work q"
  using assms by (cases e) (auto simp: queue_work_def split: option.splits list.splits if_splits)

lemma queue_enabled:
  assumes "queue_inv inflight cap q" "0 < inflight" "0 < queue_work q"
  shows "\<exists>e q' effs. (\<forall>job. e \<noteq> TryEnqueue job) \<and> queue_step d rep q e = Some (q', effs)"
proof (cases "jq_running q")
  case (Cons j js)
  then have "\<exists>q' effs. queue_step d rep q (JobDone 0 (Inl []) 0 0) = Some (q', effs)" by simp
  then show ?thesis by blast
next
  case Nil
  then have "0 < jq_permits q" using assms by (simp add: queue_inv_def)
  show ?thesis
  proof (cases "jq_holding q")
    case None
    then obtain j js where "jq_jobs q = j # js" using Nil assms(3) by (cases "jq_jobs q") (auto simp: queue_work_def)
    then have "\<exists>q' effs. queue_step d rep q DispatcherRecv = Some (q', effs)" using None by simp
    then show ?thesis by blast
  next
    case (Some j)
    then have "\<exists>q' effs. queue_step d rep q AcquirePermit = Some (q', effs)" using \<open>0 < jq_permits q\<close> by simp
    then show ?thesis by blast
  qed
qed

lemma queue_drains:
  assumes "0 < inflight"
  shows "queue_inv inflight cap q \<Longrightarrow>
    \<exists>es q' effs. run (queue_step d rep) q es = Some (q', effs) \<and> held_jobs q' = [] \<and>
      list_all event_ok es \<and> sum_list (map offered es) = {#}"
proof (induction "queue_work q" arbitrary: q rule: less_induct)
  case less
  show ?case
  proof (cases "queue_work q = 0")
    case True
    then show ?thesis
      by (intro exI [of _ "[]"]) (auto simp: queue_work_def held_jobs_def split: option.splits)
  next
    case False
    then obtain e q1 o1 where e: "\<forall>job. e \<noteq> TryEnqueue job" "queue_step d rep q e = Some (q1, o1)"
      using queue_enabled [OF less.prems assms] by blast
    have ok: "event_ok e" "offered e = {#}" using e(1) by (cases e; auto)+
    obtain es q' o2 where "run (queue_step d rep) q1 es = Some (q', o2)" "held_jobs q' = []"
      "list_all event_ok es" "sum_list (map offered es) = {#}"
      using less.hyps [OF queue_work_decreases [OF e(2,1)] queue_step_inv [OF e(2) less.prems ok(1)]] by blast
    then show ?thesis using e ok by (intro exI [of _ "e # es"]) simp
  qed
qed

subsection \<open>Properties\<close>

text \<open>Whatever the invocation returned (a payload, a stream, the wrong kind, an error), running a job ends
  the wait of exactly the callers of the job, each once; and so does failing it.\<close>

theorem job_answers_every_caller:
  assumes "job_ok job"
  shows "resolved (run_invocation_job (default_dispatcher ext env) default_reporter outcome el1 el2 job) = job_callers job \<and>
    resolved (job_fail (default_dispatcher ext env) default_reporter status msg job) = job_callers job"
  using default_invocation.run_resolves [OF assms] default_invocation.job_fail_resolves [OF assms] by simp

definition example_job :: "bool \<Rightarrow> invocation_job" where
  "example_job probe = JobBuffered \<lparr>ji_key = example_key, ji_wait_ms = 5, ji_estimated_rps = None, ji_is_probe = probe,
     ji_duration_feedback_tx = Some 9, ji_payload = ''x''\<rparr> [(''a'', 1), (''b'', 2)]"

theorem job_answers_every_caller_witness:
  "resolved (run_invocation_job (default_dispatcher example_ext example_stream_env) default_reporter
     (Inr (ResBuffered ''x'' None)) 7 8 (example_job True)) = job_callers (example_job True) \<and>
   resolved (job_fail (default_dispatcher example_ext example_stream_env) default_reporter 429 ''busy''
     (example_job True)) = job_callers (example_job True)"
  by (rule job_answers_every_caller) (simp add: example_job_def)

text \<open>A job reports to the duration scheduler exactly when it is a probe: one message if it has a feedback
  channel, and never success unless the invocation returned the kind of result the job expects.\<close>

theorem job_feedback_iff_probe:
  "\<exists>ok el. feedbacks (run_invocation_job (default_dispatcher ext env) default_reporter outcome el1 el2 job) =
     (if ji_is_probe (job_info_of job)
      then (case ji_duration_feedback_tx (job_info_of job) of None \<Rightarrow> []
            | Some c \<Rightarrow> [(c, \<lparr>fb_is_probe = True, fb_success = ok, fb_elapsed_ms = el\<rparr>)]) else []) \<and>
     ok = (case (job, outcome) of
        (JobBuffered _ _, Inr (ResBuffered _ _)) \<Rightarrow> True | (JobStream _ _, Inr (ResStream _ _)) \<Rightarrow> True | _ \<Rightarrow> False)"
  by (cases job; cases outcome)
    (auto simp: Let_def default_feedback.async split: lambda_invoke_result.split option.split)

text \<open>C19: In every run of the job queue the number of jobs in flight never exceeds the configured limit (a
  permit is held exactly while a job runs), the queue never exceeds its capacity, and no caller is lost or
  answered twice: the callers of all jobs offered are those already answered plus those of the jobs still
  queued, held or running.\<close>

theorem job_queue_run_invariant:
  assumes "run (queue_step (default_dispatcher ext env) default_reporter) (queue_new inflight pending) es = Some (q, effs)"
    and "list_all event_ok es"
  shows "length (jq_running q) \<le> inflight \<and> jq_permits q + length (jq_running q) = inflight \<and>
    length (jq_jobs q) \<le> max pending 1 \<and>
    resolved effs + queue_callers q = sum_list (map offered es)"
proof -
  have "queue_callers (queue_new inflight pending) = {#}"
    by (simp add: queue_callers_def held_jobs_def queue_new_def)
  then show ?thesis
    using default_invocation.queue_run_resolves [OF assms(1) queue_new_inv assms(2)]
    by (auto simp: queue_inv_def)
qed

theorem job_queue_run_invariant_witness:
  "\<exists>q effs. run (queue_step (default_dispatcher example_ext example_stream_env) default_reporter) (queue_new 1 1)
       [TryEnqueue (example_job False), TryEnqueue (example_job True), DispatcherRecv] = Some (q, effs) \<and>
    (length (jq_running q) \<le> 1 \<and> jq_permits q + length (jq_running q) = 1 \<and> length (jq_jobs q) \<le> max 1 1 \<and>
     resolved effs + queue_callers q = sum_list (map offered
       [TryEnqueue (example_job False), TryEnqueue (example_job True), DispatcherRecv]))"
proof -
  have "\<exists>q effs. run (queue_step (default_dispatcher example_ext example_stream_env) default_reporter) (queue_new 1 1)
       [TryEnqueue (example_job False), TryEnqueue (example_job True), DispatcherRecv] = Some (q, effs)"
    by (simp add: queue_new_def enqueue_invocation_job_def try_send_job_def)
  moreover have "list_all event_ok [TryEnqueue (example_job False), TryEnqueue (example_job True), DispatcherRecv]"
    by (simp add: example_job_def)
  ultimately show ?thesis using job_queue_run_invariant by blast
qed

text \<open>With at least one permit the queue cannot get stuck: from every state it can reach, the dispatcher and
  the running jobs can go on until no job is queued, held or running, without a new job and whatever the
  invocations return; each of these events reduces the remaining work.\<close>

theorem job_queue_progress:
  assumes "queue_inv inflight cap q" "0 < inflight"
  shows "(0 < queue_work q \<longrightarrow> (\<exists>e q' effs. (\<forall>job. e \<noteq> TryEnqueue job) \<and> queue_step d rep q e = Some (q', effs))) \<and>
    (\<forall>e q' effs. (\<forall>job. e \<noteq> TryEnqueue job) \<longrightarrow> queue_step d rep q e = Some (q', effs) \<longrightarrow> queue_work q' < queue_work q) \<and>
    (\<exists>es q' effs. run (queue_step d rep) q es = Some (q', effs) \<and> held_jobs q' = [])"
  using queue_enabled [OF assms] queue_work_decreases queue_drains [OF assms(2,1)] by blast

theorem job_queue_progress_witness:
  "held_jobs ((queue_new 2 1)\<lparr>jq_jobs := [example_job True]\<rparr>) = [example_job True] \<and>
   (\<exists>e q' effs. queue_step (default_dispatcher example_ext example_stream_env) default_reporter
      ((queue_new 2 1)\<lparr>jq_jobs := [example_job True]\<rparr>) e = Some (q', effs)) \<and>
   (\<exists>es q' effs. run (queue_step (default_dispatcher example_ext example_stream_env) default_reporter)
      ((queue_new 2 1)\<lparr>jq_jobs := [example_job True]\<rparr>) es = Some (q', effs) \<and> held_jobs q' = [])"
proof -
  let ?q = "(queue_new 2 1)\<lparr>jq_jobs := [example_job True]\<rparr>"
  have "held_jobs ?q = [example_job True]" by (simp add: held_jobs_def queue_new_def)
  moreover have "0 < queue_work ?q" by (simp add: queue_work_def)
  moreover have "queue_inv 2 1 ?q" by (simp add: queue_inv_def queue_new_def held_jobs_def example_job_def)
  ultimately show ?thesis using job_queue_progress [of 2 1 ?q] by (metis zero_less_numeral)
qed

end
