(* ===== verification/Wait_Policy.thy ===== *)
theory Wait_Policy
  imports Wire
begin

text \<open>
  \<open>gateway/src/batching/wait_policy.rs\<close>: how long a batcher holds a batch open. The two
  policy traits, the rate estimator behind the sigmoid policy and the probe smoothing behind
  the duration policy. \<open>exp\<close> (whose result the standard library does not specify to the last
  bit) and the default hasher are arguments.
\<close>

text \<open>A \<open>Duration\<close> or \<open>Instant\<close> is a number of nanoseconds.\<close>
type_synonym time = nat

definition from_millis :: "u64 \<Rightarrow> time" where
  "from_millis ms = unat ms * 1000000"

definition as_secs_f64 :: "time \<Rightarrow> f64" where
  "as_secs_f64 d = f_add (f_of_nat (d div 1000000000)) (f_div (f_of_nat (d mod 1000000000)) (f_of_nat 1000000000))"

subsection \<open>The wait computations\<close>

definition sigmoid_wait_ms :: "(f64 \<Rightarrow> f64) \<Rightarrow> f64 \<Rightarrow> u64 \<Rightarrow> u64 \<Rightarrow> f64 \<Rightarrow> f64 \<Rightarrow> u64" where
  "sigmoid_wait_ms fexp rps min_wait_ms max_wait_ms target_rps steepness =
     (if max_wait_ms \<le> min_wait_ms then max_wait_ms
      else
        let adjusted = f_mul (f_sub rps target_rps) steepness;
            sigmoid = f_div (Fin 1) (f_add (Fin 1) (fexp (f_neg adjusted)));
            scaled = f_add (f_of_u64 min_wait_ms) (f_mul sigmoid (f_of_u64 (max_wait_ms - min_wait_ms)));
            rounded = f_round scaled;
            clamped = f_trunc (f_clamp rounded (f_of_u64 min_wait_ms) (f_of_u64 max_wait_ms))
        in f_as_u64 clamped)"

text \<open>The traits \<open>DynamicWaitPolicy\<close> and \<open>DurationWaitPolicy\<close>.\<close>

type_synonym dynamic_wait_policy = "f64 \<Rightarrow> u64 \<Rightarrow> u64 \<Rightarrow> f64 \<Rightarrow> f64 \<Rightarrow> u64"

type_synonym duration_wait_policy = "f64 \<Rightarrow> f64 \<Rightarrow> u64 \<Rightarrow> u64 \<Rightarrow> u64"

definition duration_wait_ms :: "f64 \<Rightarrow> f64 \<Rightarrow> u64 \<Rightarrow> u64 \<Rightarrow> u64" where
  "duration_wait_ms probe_ms fraction min_wait_ms max_wait_ms =
     (if max_wait_ms \<le> min_wait_ms then max_wait_ms
      else
        let base = (if f_is_finite probe_ms \<and> Fin 0 < probe_ms then probe_ms else f_of_u64 min_wait_ms);
            computed = f_mul base (f_add (Fin 1) (f_max fraction (Fin 0)));
            rounded = f_round computed;
            clamped = f_trunc (f_clamp rounded (f_of_u64 min_wait_ms) (f_of_u64 max_wait_ms))
        in f_as_u64 clamped)"

subsection \<open>The rate estimator\<close>

record rate_estimator =
  re_interval :: time
  re_window_size :: nat
  re_count :: u64
  re_samples_rps :: "f64 list"

definition estimator_new :: "time \<Rightarrow> nat \<Rightarrow> rate_estimator" where
  "estimator_new interval window_size =
     \<lparr>re_interval = interval, re_window_size = window_size, re_count = 0, re_samples_rps = []\<rparr>"

definition record_request :: "rate_estimator \<Rightarrow> rate_estimator" where
  "record_request est = est\<lparr>re_count := sat_add_u64 (re_count est) 1\<rparr>"

text \<open>\<open>while samples.len() > window_size { samples.pop_front(); }\<close>\<close>

fun pop_excess :: "nat \<Rightarrow> 'a list \<Rightarrow> 'a list" where
  "pop_excess n [] = []"
| "pop_excess n (x # xs) = (if n < length (x # xs) then pop_excess n xs else x # xs)"

definition estimator_tick :: "rate_estimator \<Rightarrow> rate_estimator" where
  "estimator_tick est =
     (let secs = as_secs_f64 (re_interval est);
          rps = (if Fin 0 < secs then f_div (f_of_u64 (re_count est)) secs else Fin 0)
      in est\<lparr>re_count := 0,
             re_samples_rps := pop_excess (re_window_size est) (re_samples_rps est @ [rps])\<rparr>)"

definition smoothed_rps :: "rate_estimator \<Rightarrow> f64" where
  "smoothed_rps est =
     (if re_samples_rps est = [] then Fin 0
      else f_div (foldl f_add (Fin 0) (re_samples_rps est)) (f_of_nat (length (re_samples_rps est))))"

subsection \<open>Probes\<close>

definition stable_probe_offset_ms :: "(batch_key \<Rightarrow> u64) \<Rightarrow> batch_key \<Rightarrow> u64 \<Rightarrow> u64" where
  "stable_probe_offset_ms hasher key probe_jitter_ms =
     (if probe_jitter_ms = 0 then 0
      else
        let h = hasher key;
            range = sat_add_u64 probe_jitter_ms 1
        in if range = 0 then 0 else h mod range)"

definition record_probe_sample :: "f64 list \<Rightarrow> nat \<Rightarrow> u64 \<Rightarrow> f64 list" where
  "record_probe_sample samples window_size elapsed_ms =
     (if window_size = 0 then samples
      else pop_excess window_size (samples @ [f_of_u64 elapsed_ms]))"

fun probe_acc :: "nat \<times> f64 \<times> f64 \<times> f64 \<Rightarrow> f64 \<Rightarrow> nat \<times> f64 \<times> f64 \<times> f64" where
  "probe_acc (cnt, sm, mn, mx) v = (cnt + 1, f_add sm v, f_min mn v, f_max mx v)"

definition smoothed_probe_ms :: "f64 list \<Rightarrow> f64" where
  "smoothed_probe_ms samples =
     (let (cnt, sm, mn, mx) =
            foldl probe_acc (0, Fin 0, PInf, NInf) (filter (\<lambda>v. f_is_finite v \<and> Fin 0 < v) samples)
      in if cnt = 0 then Fin 0
         else if 3 \<le> cnt then f_div (f_sub (f_sub sm mn) mx) (f_of_nat (cnt - 2))
         else f_div sm (f_of_nat cnt))"

subsection \<open>Windows\<close>

lemma pop_excess_drop: "pop_excess n xs = drop (length xs - n) xs"
  by (induction xs) (auto simp: Suc_diff_le)

lemma length_pop_excess: "length (pop_excess n xs) = min n (length xs)"
  by (simp add: pop_excess_drop)

lemma length_record_probe_sample:
  "0 < w \<Longrightarrow> length xs \<le> w \<Longrightarrow> length (record_probe_sample xs w e) \<le> w"
  by (simp add: record_probe_sample_def length_pop_excess)

lemma last_record_probe_sample:
  "0 < w \<Longrightarrow> record_probe_sample xs w e \<noteq> [] \<and> last (record_probe_sample xs w e) = f_of_u64 e"
  by (simp add: record_probe_sample_def pop_excess_drop)

lemma length_estimator_tick: "length (re_samples_rps (estimator_tick est)) \<le> re_window_size est"
  by (simp add: estimator_tick_def Let_def length_pop_excess)

lemma estimator_frame [simp]:
  "re_window_size (estimator_tick est) = re_window_size est"
  "re_interval (estimator_tick est) = re_interval est"
  "re_count (estimator_tick est) = 0"
  "re_window_size (record_request est) = re_window_size est"
  "re_interval (record_request est) = re_interval est"
  "re_samples_rps (record_request est) = re_samples_rps est"
  by (simp_all add: estimator_tick_def record_request_def Let_def)

subsection \<open>Policy interface\<close>

text \<open>
  What the schedulers rely on: a policy maps its signal and the configured bounds to a wait
  that never exceeds the upper bound, and respects the lower bound whenever the signal is
  usable. Bounds above \<open>2 ^ 53\<close> milliseconds are not representable as \<open>f64\<close> and are
  outside the contract.
\<close>

locale wait_policy =
  fixes wait :: "'i \<Rightarrow> u64 \<Rightarrow> u64 \<Rightarrow> u64"
    and usable :: "'i \<Rightarrow> bool"
  assumes wait_upper: "mn \<le> mx \<Longrightarrow> unat mx \<le> 2 ^ 53 \<Longrightarrow> wait i mn mx \<le> mx"
    and wait_lower: "mn \<le> mx \<Longrightarrow> unat mx \<le> 2 ^ 53 \<Longrightarrow> usable i \<Longrightarrow> mn \<le> wait i mn mx"
begin

lemma deadline_upper:
  "mn \<le> mx \<Longrightarrow> unat mx \<le> 2 ^ 53 \<Longrightarrow> t + from_millis (wait i mn mx) \<le> t + from_millis mx"
  using wait_upper [of mn mx i] by (simp add: from_millis_def word_le_nat_alt)

lemma deadline_lower:
  "mn \<le> mx \<Longrightarrow> unat mx \<le> 2 ^ 53 \<Longrightarrow> usable i \<Longrightarrow> t + from_millis mn \<le> t + from_millis (wait i mn mx)"
  using wait_lower [of mn mx i] by (simp add: from_millis_def word_le_nat_alt)

lemma wait_fixed: "unat mx \<le> 2 ^ 53 \<Longrightarrow> usable i \<Longrightarrow> wait i mx mx = mx"
  using wait_upper [of mx mx i] wait_lower [of mx mx i] by (simp add: order.antisym)

end

lemma rounded_wait_bounds:
  assumes "mn \<le> mx" "unat mx \<le> 2 ^ 53"
  shows "f_as_u64 (f_trunc (f_clamp (f_round a) (f_of_u64 mn) (f_of_u64 mx))) \<le> mx \<and>
     (a \<noteq> NaN \<longrightarrow> mn \<le> f_as_u64 (f_trunc (f_clamp (f_round a) (f_of_u64 mn) (f_of_u64 mx))))"
  using clamp_as_u64_bounds [of "unat mn" "unat mx" a] assms
  by (simp add: f_of_u64_def word_le_nat_alt)

lemma f_of_u64_pos:
  assumes "0 < w" "unat w \<le> 2 ^ 53"
  shows "\<exists>x. f_of_u64 w = Fin x \<and> 0 < x"
proof -
  obtain n where n: "unat w = n" by simp
  have "0 < n" using assms(1) n by (simp add: word_less_nat_alt)
  then show ?thesis using assms(2) by (simp add: f_of_u64_def n)
qed

lemma f_neg_not_NaN [simp]: "f_neg a = NaN \<longleftrightarrow> a = NaN"
  by (simp add: f_neg_def split: f64.splits)

lemma rnd_not_NaN [simp]: "rnd x \<noteq> NaN"
  by (simp add: rnd_def rnd_pos_def Let_def)

lemma f_inf_not_NaN [simp]: "f_inf b \<noteq> NaN"
  by (simp add: f_inf_def)

lemma f_add_Fin_not_NaN: "b \<noteq> NaN \<Longrightarrow> f_add (Fin x) b \<noteq> NaN"
  by (simp add: f_add_def split: f64.splits)

lemma f_div_one_not_NaN: "b \<noteq> NaN \<Longrightarrow> f_div (Fin 1) b \<noteq> NaN"
  by (auto simp: f_div_def split: f64.splits)

lemma f_mul_pos_not_NaN: "a \<noteq> NaN \<Longrightarrow> 0 < x \<Longrightarrow> f_mul a (Fin x) \<noteq> NaN"
  by (auto simp: f_mul_def split: f64.splits)

lemma f_mul_nonzero_not_NaN: "x \<noteq> 0 \<Longrightarrow> b \<noteq> NaN \<Longrightarrow> f_mul (Fin x) b \<noteq> NaN"
  by (auto simp: f_mul_def split: f64.splits)

lemma sigmoid_bounds:
  assumes "mn \<le> mx" "unat mx \<le> 2 ^ 53"
  shows "sigmoid_wait_ms fexp rps mn mx target steep \<le> mx \<and>
     (fexp (f_neg (f_mul (f_sub rps target) steep)) \<noteq> NaN \<longrightarrow> mn \<le> sigmoid_wait_ms fexp rps mn mx target steep)"
proof (cases "mx \<le> mn")
  case True
  then show ?thesis using assms by (simp add: sigmoid_wait_ms_def)
next
  case False
  let ?s = "f_div (Fin 1) (f_add (Fin 1) (fexp (f_neg (f_mul (f_sub rps target) steep))))"
  let ?a = "f_add (f_of_u64 mn) (f_mul ?s (f_of_u64 (mx - mn)))"
  have w: "sigmoid_wait_ms fexp rps mn mx target steep =
      f_as_u64 (f_trunc (f_clamp (f_round ?a) (f_of_u64 mn) (f_of_u64 mx)))"
    using False by (simp add: sigmoid_wait_ms_def Let_def)
  have "unat (mx - mn) = unat mx - unat mn" using assms(1) by (rule unat_sub)
  moreover have "unat mn < unat mx" using False by (simp add: word_less_nat_alt not_le)
  ultimately have "0 < mx - mn" "unat (mx - mn) \<le> 2 ^ 53"
    using assms(2) by (simp_all add: word_less_nat_alt)
  then obtain d where d: "f_of_u64 (mx - mn) = Fin d" "0 < d" using f_of_u64_pos by blast
  have "unat mn \<le> 2 ^ 53" using assms by (simp add: word_le_nat_alt)
  then have mn: "f_of_u64 mn = Fin (of_nat (unat mn))" by (simp add: f_of_u64_def)
  have "?a \<noteq> NaN" if "fexp (f_neg (f_mul (f_sub rps target) steep)) \<noteq> NaN"
    unfolding mn d(1) using that d(2)
    by (intro f_add_Fin_not_NaN f_mul_pos_not_NaN f_div_one_not_NaN)
  then show ?thesis using rounded_wait_bounds [OF assms, of ?a] w by simp
qed

lemma duration_bounds:
  assumes "mn \<le> mx" "unat mx \<le> 2 ^ 53"
  shows "duration_wait_ms probe fraction mn mx \<le> mx \<and> mn \<le> duration_wait_ms probe fraction mn mx"
proof (cases "mx \<le> mn")
  case True
  then show ?thesis using assms by (simp add: duration_wait_ms_def)
next
  case False
  let ?b = "if f_is_finite probe \<and> Fin 0 < probe then probe else f_of_u64 mn"
  let ?f = "f_add (Fin 1) (f_max fraction (Fin 0))"
  have w: "duration_wait_ms probe fraction mn mx =
      f_as_u64 (f_trunc (f_clamp (f_round (f_mul ?b ?f)) (f_of_u64 mn) (f_of_u64 mx)))"
    using False by (simp add: duration_wait_ms_def Let_def)
  have mn53: "unat mn \<le> 2 ^ 53" using assms by (simp add: word_le_nat_alt)
  have f: "?f \<noteq> NaN" by (rule f_add_Fin_not_NaN) (auto simp: f_max_def)
  have "mn = 0 \<or> f_mul ?b ?f \<noteq> NaN"
  proof (cases "mn = 0")
    case False
    then have "0 < mn" by (simp add: word_greater_zero_iff)
    then obtain x where "f_of_u64 mn = Fin x" "0 < x"
      using f_of_u64_pos mn53 by blast
    then have "\<exists>x. ?b = Fin x \<and> x \<noteq> 0" by (cases probe) auto
    then obtain y where y: "?b = Fin y" "y \<noteq> 0" by blast
    have "f_mul ?b ?f \<noteq> NaN" unfolding y(1) by (rule f_mul_nonzero_not_NaN [OF y(2) f])
    then show ?thesis ..
  qed simp
  then show ?thesis using rounded_wait_bounds [OF assms, of "f_mul ?b ?f"] w by auto
qed

interpretation sigmoid: wait_policy
  "\<lambda>(rps, target, steep) mn mx. sigmoid_wait_ms fexp rps mn mx target steep"
  "\<lambda>(rps, target, steep). fexp (f_neg (f_mul (f_sub rps target) steep)) \<noteq> NaN" for fexp
  by unfold_locales (auto simp: sigmoid_bounds split: prod.splits)

interpretation duration: wait_policy
  "\<lambda>(probe, fraction) mn mx. duration_wait_ms probe fraction mn mx" "\<lambda>_. True"
  by unfold_locales (auto simp: duration_bounds split: prod.splits)

subsection \<open>Trimmed mean of the probe samples\<close>

text \<open>
  Probe samples are millisecond counts. While their sum is an exact \<open>f64\<close>, the loop computes
  the exact sum, minimum and maximum.
\<close>

abbreviation ms :: "nat \<Rightarrow> f64" where
  "ms n \<equiv> Fin (of_nat n)"

lemma f_add_ms: "a + b \<le> 2 ^ 53 \<Longrightarrow> f_add (ms a) (ms b) = ms (a + b)"
  using rnd_nat_exact [of "a + b"] by (simp add: f_add_def)

lemma f_sub_ms: "b \<le> a \<Longrightarrow> a \<le> 2 ^ 53 \<Longrightarrow> f_sub (ms a) (ms b) = ms (a - b)"
  using rnd_nat_exact [of "a - b"] by (simp add: f_sub_def f_neg_def f_add_def of_nat_diff)

lemma probe_acc_fold:
  "a + sum_list ns \<le> 2 ^ 53 \<Longrightarrow>
   foldl probe_acc (c, ms a, mn, mx) (map ms ns) =
     (c + length ns, ms (a + sum_list ns), foldl f_min mn (map ms ns), foldl f_max mx (map ms ns))"
proof (induction ns arbitrary: a c mn mx)
  case Nil
  then show ?case by simp
next
  case (Cons n ns)
  have "a + n + sum_list ns \<le> 2 ^ 53" using Cons.prems by simp
  from Cons.IH [OF this, of "c + 1" "f_min mn (ms n)" "f_max mx (ms n)"]
  show ?case using Cons.prems by (simp add: f_add_ms add.assoc)
qed

lemma f_min_ms [simp]: "f_min (ms a) (ms b) = ms (min a b)" "f_min PInf (ms b) = ms b"
  by (auto simp: f_min_def min_def less_f64_def)

lemma f_max_ms [simp]: "f_max (ms a) (ms b) = ms (max a b)" "f_max NInf (ms b) = ms b"
  by (auto simp: f_max_def max_def less_f64_def)

lemma fold_f_min: "ns \<noteq> [] \<Longrightarrow> foldl f_min PInf (map ms ns) = ms (Min (set ns))"
proof (induction ns rule: rev_induct)
  case Nil
  then show ?case by simp
next
  case (snoc n ns)
  then show ?case by (cases "ns = []") (simp_all add: min.commute)
qed

lemma fold_f_max: "ns \<noteq> [] \<Longrightarrow> foldl f_max NInf (map ms ns) = ms (Max (set ns))"
proof (induction ns rule: rev_induct)
  case Nil
  then show ?case by simp
next
  case (snoc n ns)
  then show ?case by (cases "ns = []") (simp_all add: max.commute)
qed

lemma filter_positive_ms:
  "\<forall>n \<in> set ns. 0 < n \<Longrightarrow> filter (\<lambda>v. f_is_finite v \<and> Fin 0 < v) (map ms ns) = map ms ns"
  by (induction ns) auto

lemma smoothed_probe_ms_eval:
  assumes "\<forall>n \<in> set ns. 0 < n" "sum_list ns \<le> 2 ^ 53" "ns \<noteq> []"
  shows "smoothed_probe_ms (map ms ns) =
     (if 3 \<le> length ns
      then f_div (f_sub (f_sub (ms (sum_list ns)) (ms (Min (set ns)))) (ms (Max (set ns)))) (f_of_nat (length ns - 2))
      else f_div (ms (sum_list ns)) (f_of_nat (length ns)))"
  using assms probe_acc_fold [of 0 ns 0 PInf NInf]
  by (simp add: smoothed_probe_ms_def filter_positive_ms fold_f_min fold_f_max)

lemma sum_list_between:
  fixes ns :: "nat list"
  assumes "\<forall>n \<in> set ns. lo \<le> n \<and> n \<le> hi"
  shows "lo * length ns \<le> sum_list ns \<and> sum_list ns \<le> hi * length ns"
  using assms by (induction ns) auto

lemma trimmed_sum:
  fixes ns :: "nat list"
  assumes "3 \<le> length ns"
  obtains rest where "set rest \<subseteq> set ns" "length rest = length ns - 2"
    "sum_list ns = sum_list rest + Min (set ns) + Max (set ns)"
proof -
  have ne: "ns \<noteq> []" using assms by auto
  then have mx: "Max (set ns) \<in> set ns" and mn: "Min (set ns) \<in> set ns" by auto
  let ?m = "remove1 (Max (set ns)) ns"
  have len: "length ?m = length ns - 1" using mx by (simp add: length_remove1)
  have mn': "Min (set ns) \<in> set ?m"
  proof (cases "Min (set ns) = Max (set ns)")
    case True
    have "?m \<noteq> []" using len assms by auto
    then obtain x where x: "x \<in> set ?m" by fastforce
    then have "x \<in> set ns" using set_remove1_subset by fast
    then have "x = Min (set ns)" using True by (metis List.finite_set Max_ge Min_le order.antisym)
    with x show ?thesis by simp
  qed (use mn in simp)
  let ?r = "remove1 (Min (set ns)) ?m"
  show ?thesis
  proof (rule that [of ?r])
    show "set ?r \<subseteq> set ns" using set_remove1_subset by (rule order_trans) (rule set_remove1_subset)
    show "length ?r = length ns - 2" using mn' len by (simp add: length_remove1)
    show "sum_list ns = sum_list ?r + Min (set ns) + Max (set ns)"
      using sum_list_map_remove1 [OF mx, of id] sum_list_map_remove1 [OF mn', of id] by simp
  qed
qed

lemma f_div_ms_between:
  assumes "0 < n" "lo * n \<le> s" "s \<le> hi * n" "hi \<le> 2 ^ 53" "0 < s" "n \<le> 2 ^ 53"
  obtains y where "f_div (ms s) (f_of_nat n) = Fin y" "of_nat lo \<le> y" "y \<le> of_nat hi"
proof -
  have "(of_nat (lo * n) :: rat) \<le> of_nat s" "(of_nat s :: rat) \<le> of_nat (hi * n)"
    using assms(2,3) by (simp_all only: of_nat_le_iff)
  then have "(0 :: rat) < of_nat s / of_nat n" "(of_nat lo :: rat) \<le> of_nat s / of_nat n"
      "(of_nat s / of_nat n :: rat) \<le> of_nat hi"
    using assms(1,5) by (simp_all add: field_simps)
  from rnd_between [OF this assms(4)] obtain y where
    "rnd (of_nat s / of_nat n) = Fin y" "of_nat lo \<le> y" "y \<le> of_nat hi" by blast
  then show ?thesis using assms(1,6) by (intro that [of y]) (simp_all add: f_div_def)
qed

lemma map_f_of_nat_ms: "sum_list ns \<le> 2 ^ 53 \<Longrightarrow> map f_of_nat ns = map ms ns"
proof (rule map_cong [OF refl])
  fix n
  assume "sum_list ns \<le> 2 ^ 53" "n \<in> set ns"
  then have "n \<le> 2 ^ 53" using member_le_sum_list [of n ns] by simp
  then show "f_of_nat n = ms n" by simp
qed

lemma smoothed_trimmed:
  assumes pos: "\<forall>n \<in> set ns. 0 < n" and sm: "sum_list ns \<le> 2 ^ 53" and len: "3 \<le> length ns"
  shows "smoothed_probe_ms (map f_of_nat ns) =
      f_div (ms (sum_list ns - Min (set ns) - Max (set ns))) (f_of_nat (length ns - 2)) \<and>
    (\<exists>y. smoothed_probe_ms (map f_of_nat ns) = Fin y \<and>
         of_nat (Min (set ns)) \<le> y \<and> y \<le> of_nat (Max (set ns)))"
proof -
  have ne: "ns \<noteq> []" using len by auto
  obtain rest where rest: "set rest \<subseteq> set ns" "length rest = length ns - 2"
      "sum_list ns = sum_list rest + Min (set ns) + Max (set ns)"
    using trimmed_sum [OF len] by blast
  then have tr: "sum_list ns - Min (set ns) - Max (set ns) = sum_list rest" by simp
  have s1: "f_sub (ms (sum_list ns)) (ms (Min (set ns))) = ms (sum_list ns - Min (set ns))"
    by (rule f_sub_ms) (use rest(3) sm in simp_all)
  have s2: "f_sub (ms (sum_list ns - Min (set ns))) (ms (Max (set ns))) =
      ms (sum_list ns - Min (set ns) - Max (set ns))"
    by (rule f_sub_ms) (use rest(3) sm in simp_all)
  have ev: "smoothed_probe_ms (map f_of_nat ns) = f_div (ms (sum_list rest)) (f_of_nat (length ns - 2))"
    using smoothed_probe_ms_eval [OF pos sm ne] len
    by (simp only: map_f_of_nat_ms [OF sm] s1 s2 tr if_True)
  have between: "\<forall>n \<in> set rest. Min (set ns) \<le> n \<and> n \<le> Max (set ns)"
    using rest(1) by (auto simp: subset_iff)
  have "1 * length ns \<le> sum_list ns"
    using sum_list_between [of ns 1 "Max (set ns)"] pos by (auto simp: Suc_leI)
  then have l53: "length ns - 2 \<le> 2 ^ 53" using sm by simp
  have "0 < Min (set ns)" using pos ne by simp
  then have "0 < sum_list rest"
    using sum_list_between [OF between] rest(2) len by (auto intro: ccontr)
  moreover have "Max (set ns) \<le> 2 ^ 53" using rest(3) sm by simp
  ultimately obtain y where
    "f_div (ms (sum_list rest)) (f_of_nat (length ns - 2)) = Fin y"
    "of_nat (Min (set ns)) \<le> y" "y \<le> of_nat (Max (set ns))"
    using f_div_ms_between [of "length ns - 2" "Min (set ns)" "sum_list rest" "Max (set ns)"]
      sum_list_between [OF between] rest(2) len l53 by (auto simp: mult.commute)
  then show ?thesis using ev tr by auto
qed

subsection \<open>Properties\<close>

text \<open>C30: The sigmoid (adaptive) wait lies between the configured minimum and maximum whenever
  the exponential of its argument is a number, for every request rate, target and steepness.\<close>

theorem sigmoid_wait_within_bounds:
  assumes "mn \<le> mx" "unat mx \<le> 2 ^ 53"
    and "fexp (f_neg (f_mul (f_sub rps target) steepness)) \<noteq> NaN"
  shows "mn \<le> sigmoid_wait_ms fexp rps mn mx target steepness \<and>
     sigmoid_wait_ms fexp rps mn mx target steepness \<le> mx"
  using sigmoid.wait_upper [OF assms(1,2), where i = "(rps, target, steepness)"]
    sigmoid.wait_lower [OF assms(1,2), where i = "(rps, target, steepness)"] assms(3)
  by simp

theorem sigmoid_wait_within_bounds_witness:
  "5 \<le> sigmoid_wait_ms (\<lambda>_. Fin 1) (Fin 0) 5 25 (Fin 50) (Fin 1) \<and>
   sigmoid_wait_ms (\<lambda>_. Fin 1) (Fin 0) 5 25 (Fin 50) (Fin 1) \<le> 25"
  by (rule sigmoid_wait_within_bounds) simp_all

text \<open>C29: The duration (target-aware) wait lies between the configured minimum and maximum,
  for every probe duration and fraction, infinite or NaN ones included.\<close>

theorem duration_wait_within_bounds:
  assumes "mn \<le> mx" "unat mx \<le> 2 ^ 53"
  shows "mn \<le> duration_wait_ms probe_ms fraction mn mx \<and>
     duration_wait_ms probe_ms fraction mn mx \<le> mx"
  using duration.wait_upper [OF assms, where i = "(probe_ms, fraction)"]
    duration.wait_lower [OF assms, where i = "(probe_ms, fraction)"]
  by simp

theorem duration_wait_within_bounds_witness:
  "0 \<le> duration_wait_ms (Fin 80) (Fin (1 / 2)) 0 2000 \<and>
   duration_wait_ms (Fin 80) (Fin (1 / 2)) 0 2000 \<le> 2000"
  by (rule duration_wait_within_bounds) simp_all

text \<open>With at least three positive probe samples, smoothing drops one minimum and one maximum
  and averages the rest, and the result lies between the smallest and the largest sample.\<close>

theorem smoothed_probe_trimmed_mean:
  assumes "\<forall>n \<in> set ns. 0 < n" "sum_list ns \<le> 2 ^ 53" "3 \<le> length ns"
  shows "smoothed_probe_ms (map f_of_nat ns) =
      f_div (ms (sum_list ns - Min (set ns) - Max (set ns))) (f_of_nat (length ns - 2)) \<and>
    (\<exists>y. smoothed_probe_ms (map f_of_nat ns) = Fin y \<and>
         of_nat (Min (set ns)) \<le> y \<and> y \<le> of_nat (Max (set ns)))"
  by (rule smoothed_trimmed [OF assms])

theorem smoothed_probe_trimmed_mean_witness:
  "\<exists>y. smoothed_probe_ms (map f_of_nat [80, 90, 4000]) = Fin y \<and> of_nat 80 \<le> y \<and> y \<le> of_nat 4000"
  using conjunct2 [OF smoothed_probe_trimmed_mean [of "[80, 90, 4000]"]] by simp

subsection \<open>\<open>DefaultWaitPolicy\<close>\<close>

text \<open>The methods of the two policy traits on the default policy, which the batchers use.\<close>

definition dynamic_wait_policy_default :: "(f64 \<Rightarrow> f64) \<Rightarrow> dynamic_wait_policy" where
  "dynamic_wait_policy_default fexp rps min_wait_ms max_wait_ms target_rps steepness =
     sigmoid_wait_ms fexp rps min_wait_ms max_wait_ms target_rps steepness"

definition duration_wait_policy_default :: duration_wait_policy where
  "duration_wait_policy_default probe_ms fraction min_wait_ms max_wait_ms =
     duration_wait_ms probe_ms fraction min_wait_ms max_wait_ms"

end
