(* ===== verification/Flush.thy ===== *)
theory Flush
  imports Job_Queue Wait_Policy
begin

text \<open>
  \<open>batching/flush.rs\<close>: a batch of waiting requests becomes batch items and a map of waiting
  callers, is planned into invocations, and each planned invocation is failed at once or offered to
  the job queue. The result of the \<open>n\<close>-th \<open>try_send\<close> and the wall clock are arguments.
\<close>

record batcher_runtime =
  rt_idle_ttl :: time
  rt_max_invoke_payload_bytes :: nat
  rt_duration_feedback_tx :: "chan option"
  rt_batch_event_builder :: event_builder
  rt_probe_feedback_reporter :: feedback_reporter_ops
  rt_response_dispatcher :: response_dispatcher_ops
  rt_dynamic_wait_policy :: dynamic_wait_policy
  rt_duration_wait_policy :: duration_wait_policy

datatype flush_out = Eff effect | Enqueued invocation_job

subsection \<open>Items and callers of a batch\<close>

definition request_item :: "ext_lib \<Rightarrow> u64 \<Rightarrow> pending_request \<Rightarrow> batch_item" where
  "request_item ext received_at_ms req =
     (let route_key = pr_method req @ '' '' @ pr_route req;
          source_ip = extract_source_ip (pr_headers req);
          user_agent = hm_get (pr_headers req) ''user-agent'';
          cookies = parse_cookie_header (pr_headers req);
          (body, is_base64_encoded) = encode_body ext (pr_body req)
      in \<lparr>bi_id = pr_id req, bi_version = ''2.0'', bi_route_key = route_key, bi_raw_path = pr_path req,
          bi_raw_query_string = pr_raw_query_string req, bi_cookies = cookies, bi_headers = pr_headers req,
          bi_query_string_parameters = pr_query req, bi_path_parameters = pr_path_params req,
          bi_request_context =
            \<lparr>rc_account_id = None, rc_api_id = None, rc_domain_name = None, rc_domain_prefix = None,
             rc_route_key = route_key, rc_stage = ''$default'', rc_request_id = pr_id req, rc_time = None,
             rc_time_epoch = sint received_at_ms,
             rc_http = \<lparr>hd_method = pr_method req, hd_path = pr_path req, hd_protocol = ''HTTP/1.1'',
                        hd_source_ip = source_ip, hd_user_agent = user_agent\<rparr>\<rparr>,
          bi_stage_variables = [], bi_body = body, bi_is_base64_encoded = is_base64_encoded\<rparr>)"

text \<open>
  Inserting a request whose id is already in the map drops the sender stored there; the drop is
  part of the output.
\<close>

fun add_sink ::
  "string \<Rightarrow> response_sink \<Rightarrow> (string, chan) hashmap \<times> stream_map \<Rightarrow>
   ((string, chan) hashmap \<times> stream_map) \<times> effect list" where
  "add_sink i (SinkBuffered tx) (buffered, stream) =
     ((hm_insert i tx buffered, stream),
      (case hm_get buffered i of Some old \<Rightarrow> [DropAnswer old] | None \<Rightarrow> []))"
| "add_sink i (SinkStream init body) (buffered, stream) =
     ((buffered, hm_insert i \<lparr>sp_init = Some init, sp_body = body\<rparr> stream),
      (case hm_get stream i of Some old \<Rightarrow> map StreamEff (drop_pending old) | None \<Rightarrow> []))"

fun collect_sinks ::
  "pending_request list \<Rightarrow> (string, chan) hashmap \<times> stream_map \<Rightarrow>
   ((string, chan) hashmap \<times> stream_map) \<times> effect list" where
  "collect_sinks [] sinks = (sinks, [])"
| "collect_sinks (req # batch) sinks =
     (let (sinks1, effs1) = add_sink (pr_id req) (pr_respond_to req) sinks;
          (sinks2, effs2) = collect_sinks batch sinks1
      in (sinks2, effs1 @ effs2))"

subsection \<open>Flushing\<close>

definition offer_job :: "batcher_runtime \<Rightarrow> try_send_result \<Rightarrow> invocation_job \<Rightarrow> flush_out list" where
  "offer_job rt r job =
     (if r = SendOk then [Enqueued job]
      else map Eff (rejected_job (rt_response_dispatcher rt) (rt_probe_feedback_reporter rt) r job))"

text \<open>
  The loop over the plans. \<open>fail_plan\<close> and \<open>mk_job\<close> are the two bodies of the match, which
  differ between the modes only in the kind of caller.
\<close>

fun run_plans ::
  "batcher_runtime \<Rightarrow> (nat \<Rightarrow> try_send_result) \<Rightarrow> ((string, 'v) hashmap \<Rightarrow> u16 \<Rightarrow> string \<Rightarrow> effect list) \<Rightarrow>
   ((string, 'v) hashmap \<Rightarrow> bytes \<Rightarrow> invocation_job) \<Rightarrow> nat \<Rightarrow> 'v invocation_plan list \<Rightarrow> flush_out list" where
  "run_plans rt sends fail_plan mk_job n [] = []"
| "run_plans rt sends fail_plan mk_job n (Fail pending status msg # rest) =
     map Eff (fail_plan pending status msg) @ run_plans rt sends fail_plan mk_job n rest"
| "run_plans rt sends fail_plan mk_job n (Invoke pending payload # rest) =
     offer_job rt (sends n) (mk_job pending payload) @ run_plans rt sends fail_plan mk_job (n + 1) rest"

definition flush_buffered ::
  "batcher_runtime \<Rightarrow> (nat \<Rightarrow> try_send_result) \<Rightarrow> batch_key \<Rightarrow> u64 \<Rightarrow> job_info \<Rightarrow> batch_item list \<Rightarrow>
   (string, chan) hashmap \<Rightarrow> stream_map \<Rightarrow> flush_out list" where
  "flush_buffered rt sends key received_at_ms ji batch_items pending_buffered pending_stream =
     (let d = rt_response_dispatcher rt;
          unexpected = (if pending_stream = [] then []
            else map StreamEff (fail_all_stream d pending_stream (length pending_stream) (ji_wait_ms ji) None
                   BAD_GATEWAY ''unexpected streaming response sink''));
          planned = plan_invocations (rt_batch_event_builder rt) key received_at_ms
            (rt_max_invoke_payload_bytes rt) pending_buffered batch_items
      in map Eff unexpected @
         run_plans rt sends
           (\<lambda>pending status msg. answers (fail_all_buffered d pending (length pending) (ji_wait_ms ji) None status msg))
           (\<lambda>pending payload. JobBuffered (ji\<lparr>ji_payload := payload\<rparr>) pending) 0 (plans planned))"

definition flush_stream ::
  "batcher_runtime \<Rightarrow> (nat \<Rightarrow> try_send_result) \<Rightarrow> batch_key \<Rightarrow> u64 \<Rightarrow> job_info \<Rightarrow> batch_item list \<Rightarrow>
   (string, chan) hashmap \<Rightarrow> stream_map \<Rightarrow> flush_out list" where
  "flush_stream rt sends key received_at_ms ji batch_items pending_buffered pending_stream =
     (let d = rt_response_dispatcher rt;
          unexpected = (if pending_buffered = [] then []
            else answers (fail_all_buffered d pending_buffered (length pending_buffered) (ji_wait_ms ji) None
                   BAD_GATEWAY ''unexpected buffered response sink''));
          planned = plan_invocations (rt_batch_event_builder rt) key received_at_ms
            (rt_max_invoke_payload_bytes rt) pending_stream batch_items
      in map Eff unexpected @
         run_plans rt sends
           (\<lambda>pending status msg. map StreamEff
              (fail_all_stream d pending (length pending) (ji_wait_ms ji) None status msg))
           (\<lambda>pending payload. JobStream (ji\<lparr>ji_payload := payload\<rparr>) pending) 0 (plans planned))"

definition flush_batch ::
  "ext_lib \<Rightarrow> batch_key \<Rightarrow> batcher_runtime \<Rightarrow> (nat \<Rightarrow> try_send_result) \<Rightarrow> u64 \<Rightarrow> u64 \<Rightarrow> f64 option \<Rightarrow> bool \<Rightarrow>
   pending_request list \<Rightarrow> flush_out list" where
  "flush_batch ext key rt sends received_at_ms wait_ms estimated_rps is_probe batch =
     (let ((pending_buffered, pending_stream), dropped_effs) = collect_sinks batch ([], []);
          batch_items = map (request_item ext received_at_ms) batch;
          ji = \<lparr>ji_key = key, ji_wait_ms = wait_ms, ji_estimated_rps = estimated_rps, ji_is_probe = is_probe,
                ji_duration_feedback_tx = rt_duration_feedback_tx rt, ji_payload = []\<rparr>
      in map Eff dropped_effs @
         (if bk_invoke_mode key = Buffered
          then flush_buffered rt sends key received_at_ms ji batch_items pending_buffered pending_stream
          else flush_stream rt sends key received_at_ms ji batch_items pending_buffered pending_stream))"

subsection \<open>Every caller of the batch is answered or travels with a job\<close>

definition effects_of :: "flush_out list \<Rightarrow> effect list" where
  "effects_of outs = concat (map (\<lambda>x. case x of Eff e \<Rightarrow> [e] | Enqueued _ \<Rightarrow> []) outs)"

definition jobs_of :: "flush_out list \<Rightarrow> invocation_job list" where
  "jobs_of outs = concat (map (\<lambda>x. case x of Eff _ \<Rightarrow> [] | Enqueued j \<Rightarrow> [j]) outs)"

lemma out_simps [simp]:
  "effects_of [] = []" "jobs_of [] = []"
  "effects_of (xs @ ys) = effects_of xs @ effects_of ys" "jobs_of (xs @ ys) = jobs_of xs @ jobs_of ys"
  "effects_of [Enqueued j] = []" "jobs_of [Enqueued j] = [j]"
  by (simp_all add: effects_of_def jobs_of_def)

lemma out_map_Eff [simp]: "effects_of (map Eff es) = es" "jobs_of (map Eff es) = []"
  by (induction es) (simp_all add: effects_of_def jobs_of_def)

definition flush_callers :: "flush_out list \<Rightarrow> caller multiset" where
  "flush_callers outs = resolved (effects_of outs) + sum_list (map job_callers (jobs_of outs))"

lemma flush_callers_append [simp]: "flush_callers (xs @ ys) = flush_callers xs + flush_callers ys"
  by (simp add: flush_callers_def add_ac)

lemma flush_callers_Eff [simp]: "flush_callers (map Eff es) = resolved es"
  by (simp add: flush_callers_def)

lemma flush_callers_Nil [simp]: "flush_callers [] = {#}"
  by (simp add: flush_callers_def)

fun sink_caller :: "response_sink \<Rightarrow> caller" where
  "sink_caller (SinkBuffered tx) = BufCaller tx"
| "sink_caller (SinkStream init _) = StrCaller init"

definition request_callers :: "pending_request list \<Rightarrow> caller multiset" where
  "request_callers batch = mset (map (\<lambda>r. sink_caller (pr_respond_to r)) batch)"

lemma hm_delete_insert [simp]: "hm_delete k (hm_insert k v m) = hm_delete k m"
  by (simp add: hm_delete_def hm_insert_def AList.delete_update_same)

lemma buf_callers_insert:
  assumes "hm_ok p"
  shows "buf_callers (hm_insert k c p) + mset (case hm_get p k of Some old \<Rightarrow> [BufCaller old] | None \<Rightarrow> []) =
    buf_callers p + {#BufCaller c#}"
proof (cases "hm_get p k")
  case None
  then have "k \<notin> fst ` set p" by (simp add: hm_get_None_iff)
  then show ?thesis using None by (simp add: hm_insert_absent buf_callers_def)
next
  case (Some old)
  have "mset (hm_insert k c p) = add_mset (k, c) (mset (hm_delete k p))"
    using mset_hm_delete [of "hm_insert k c p" k c] assms by (simp add: hm_delete_insert)
  then show ?thesis using Some mset_hm_delete [OF assms Some] by (simp add: buf_callers_def)
qed

lemma str_callers_insert:
  assumes "hm_ok p"
  shows "str_callers (hm_insert k e p) + mset (case hm_get p k of Some old \<Rightarrow> entry_callers old | None \<Rightarrow> []) =
    str_callers p + mset (entry_callers e)"
proof -
  have "str_callers (hm_insert k e p) = mset (entry_callers e) + str_callers (hm_delete k p)"
    using str_callers_remove [of "hm_insert k e p" k e] assms by simp
  then show ?thesis using str_callers_remove [OF assms]
    by (cases "hm_get p k") (auto simp: hm_delete_absent hm_get_None_iff [THEN iffD1] add_ac)
qed

lemma drop_pending_resolves: "resolved (map StreamEff (drop_pending e)) = mset (entry_callers e)"
  by (simp add: drop_pending_def entry_callers_def split: option.splits)

definition sinks_ok :: "(string, chan) hashmap \<times> stream_map \<Rightarrow> bool" where
  "sinks_ok s \<longleftrightarrow> hm_ok (fst s) \<and> hm_ok (snd s)"

definition sinks_callers :: "(string, chan) hashmap \<times> stream_map \<Rightarrow> caller multiset" where
  "sinks_callers s = buf_callers (fst s) + str_callers (snd s)"

lemma add_sink_callers:
  assumes "sinks_ok s" "add_sink i sink s = (s', effs)"
  shows "sinks_ok s' \<and> sinks_callers s' + resolved effs = sinks_callers s + {#sink_caller sink#}"
proof (cases s)
  case (Pair b st)
  show ?thesis
  proof (cases sink)
    case (SinkBuffered tx)
    have "resolved effs = mset (case hm_get b i of Some old \<Rightarrow> [BufCaller old] | None \<Rightarrow> [])"
      using assms(2) Pair SinkBuffered by (auto split: option.splits)
    then show ?thesis
      using assms Pair SinkBuffered buf_callers_insert [of b i tx]
      by (auto simp: sinks_ok_def sinks_callers_def add_ac)
  next
    case (SinkStream init body)
    have "resolved effs = mset (case hm_get st i of Some old \<Rightarrow> entry_callers old | None \<Rightarrow> [])"
      using assms(2) Pair SinkStream by (auto split: option.splits simp: drop_pending_resolves)
    then show ?thesis
      using assms Pair SinkStream str_callers_insert [of st i "\<lparr>sp_init = Some init, sp_body = body\<rparr>"]
      by (auto simp: sinks_ok_def sinks_callers_def entry_callers_def add_ac)
  qed
qed

lemma collect_sinks_callers:
  "sinks_ok s \<Longrightarrow> collect_sinks batch s = (s', effs) \<Longrightarrow>
   sinks_ok s' \<and> sinks_callers s' + resolved effs = sinks_callers s + request_callers batch"
proof (induction batch arbitrary: s effs)
  case Nil
  then show ?case by (simp add: request_callers_def)
next
  case (Cons req batch)
  obtain s1 e1 where 1: "add_sink (pr_id req) (pr_respond_to req) s = (s1, e1)" by (metis surj_pair)
  obtain e2 where 2: "collect_sinks batch s1 = (s', e2)" "effs = e1 @ e2"
    using Cons.prems(2) 1 by (auto split: prod.splits)
  note a = add_sink_callers [OF Cons.prems(1) 1]
  have b: "sinks_ok s' \<and> sinks_callers s' + resolved e2 = sinks_callers s1 + request_callers batch"
    using Cons.IH [OF _ 2(1)] a by blast
  have "sinks_callers s' + resolved effs = resolved e1 + (sinks_callers s1 + request_callers batch)"
    using b by (simp add: 2(2) add_ac)
  also have "\<dots> = sinks_callers s + request_callers (req # batch)"
    using a by (simp add: request_callers_def add_ac)
  finally show ?case using b by blast
qed

lemma plan_callers:
  fixes f :: "(string \<times> 'v) \<Rightarrow> caller list"
  assumes "hm_ok pending"
  shows "sum_list (map (\<lambda>p. mset (concat (map f (plan_pending p))))
      (plans (plan_invocations builder key ts mx pending items))) = mset (concat (map f pending))"
proof -
  have m: "mset (concat (map f xs)) = sum_list (map (\<lambda>x. mset (f x)) xs)" for xs :: "(string \<times> 'v) list"
    by (induction xs) auto
  have s: "sum_list (map g xs) = sum_mset (image_mset g (mset xs))"
    for g :: "(string \<times> 'v) \<Rightarrow> caller multiset" and xs
    by (induction xs) auto
  have c: "sum_list (map (\<lambda>p. sum_mset (image_mset (\<lambda>x. mset (f x)) (mset (plan_pending p)))) ps) =
      sum_mset (image_mset (\<lambda>x. mset (f x)) (mset (concat (map plan_pending ps))))"
    for ps :: "'v invocation_plan list"
    by (induction ps) auto
  show ?thesis unfolding m s c plan_conserves [OF assms] ..
qed

lemma jobs_callers_Enqueued [simp]: "flush_callers [Enqueued j] = job_callers j"
  by (simp add: flush_callers_def)

lemma hm_callers_lists:
  "buf_callers p = mset (concat (map (\<lambda>(_, c). [BufCaller c]) p))"
  by (induction p) (auto simp: buf_callers_def)

context invocation
begin

lemma offer_job_callers:
  assumes "rt_response_dispatcher rt = d" "rt_probe_feedback_reporter rt = rep" "job_ok job"
  shows "flush_callers (offer_job rt r job) = job_callers job"
  using assms rejected_resolves [of job r] by (simp add: offer_job_def)

lemma run_plans_callers:
  assumes rt: "rt_response_dispatcher rt = d" "rt_probe_feedback_reporter rt = rep"
    and fail: "\<And>p st msg. hm_ok p \<Longrightarrow> resolved (fail_plan p st msg) = callers p"
    and job: "\<And>p pl. hm_ok p \<Longrightarrow> job_ok (mk_job p pl) \<and> job_callers (mk_job p pl) = callers p"
  shows "(\<forall>p \<in> set ps. hm_ok (plan_pending p)) \<Longrightarrow>
    flush_callers (run_plans rt sends fail_plan mk_job n ps) = sum_list (map (\<lambda>p. callers (plan_pending p)) ps)"
proof (induction ps arbitrary: n)
  case Nil
  then show ?case by simp
next
  case (Cons p ps)
  then have ok: "hm_ok (plan_pending p)" by simp
  show ?case
  proof (cases p)
    case (Fail pending st msg)
    then show ?thesis using Cons fail [of pending st msg] ok by simp
  next
    case (Invoke pending payload)
    then show ?thesis using Cons job [of pending payload] ok offer_job_callers [OF rt] by simp
  qed
qed

lemma run_all_plans_callers:
  assumes rt: "rt_response_dispatcher rt = d" "rt_probe_feedback_reporter rt = rep"
    and fail: "\<And>p st msg. hm_ok p \<Longrightarrow> resolved (fail_plan p st msg) = mset (concat (map f p))"
    and job: "\<And>p pl. hm_ok p \<Longrightarrow> job_ok (mk_job p pl) \<and> job_callers (mk_job p pl) = mset (concat (map f p))"
    and ok: "hm_ok pending"
  shows "flush_callers (run_plans rt sends fail_plan mk_job n
      (plans (plan_invocations builder key ts mx pending items))) = mset (concat (map f pending))"
  using run_plans_callers [of rt fail_plan "\<lambda>p. mset (concat (map f p))" mk_job _ sends n, OF rt fail job]
    plan_pending_ok [OF ok] plan_callers [OF ok, of f builder key ts mx items] by simp

lemma flush_batch_callers:
  assumes rt: "rt_response_dispatcher rt = d" "rt_probe_feedback_reporter rt = rep"
  shows "flush_callers (flush_batch ext key rt sends ts wait_ms rps is_probe batch) = request_callers batch"
proof -
  obtain b st effs where c: "collect_sinks batch ([], []) = ((b, st), effs)" by (metis surj_pair)
  have i: "sinks_ok (b, st) \<and> sinks_callers (b, st) + resolved effs = request_callers batch"
    using collect_sinks_callers [OF _ c] by (simp add: sinks_ok_def sinks_callers_def buf_callers_def str_callers_def)
  then have ok: "hm_ok b" "hm_ok st" by (simp_all add: sinks_ok_def)
  have buf: "hm_ok p \<Longrightarrow> resolved (answers (fail_all_buffered d p n w el stat msg)) = mset (concat (map (\<lambda>(_, c). [BufCaller c]) p))"
    for p n w el stat msg using fail_buffered_all by (simp add: hm_callers_lists)
  have str: "hm_ok p \<Longrightarrow> resolved (map StreamEff (fail_all_stream d p n w el stat msg)) = mset (concat (map (\<lambda>(_, e). entry_callers e) p))"
    for p n w el stat msg using fail_stream_all by (simp add: str_callers_def)
  have B: "flush_callers (flush_buffered rt sends key ts ji items b st) = buf_callers b + str_callers st" for ji items
    unfolding flush_buffered_def Let_def flush_callers_append flush_callers_Eff rt
    by (subst run_all_plans_callers [where f = "\<lambda>(_, c). [BufCaller c]", OF rt _ _ ok(1)])
      (auto simp: buf str_callers_def str ok hm_callers_lists)
  have S: "flush_callers (flush_stream rt sends key ts ji items b st) = buf_callers b + str_callers st" for ji items
    unfolding flush_stream_def Let_def flush_callers_append flush_callers_Eff rt
    by (subst run_all_plans_callers [where f = "\<lambda>(_, e). entry_callers e", OF rt _ _ ok(2)])
      (auto simp: buf str_callers_def str ok hm_callers_lists)
  show ?thesis using i by (simp add: flush_batch_def c Let_def B S sinks_callers_def add_ac)
qed

end

subsection \<open>Probes\<close>

lemma plan_single:
  assumes "length items \<le> 1"
  shows "plans (plan_invocations builder key ts mx pending items) =
    (case builder key ts items of
       Inl err \<Rightarrow> [Fail pending INTERNAL_SERVER_ERROR (''encode: '' @ err)]
     | Inr payload \<Rightarrow> if length payload \<le> mx then [Invoke pending payload]
                      else [Fail pending BAD_GATEWAY ''invoke payload too large''])"
  using assms by (simp add: plan_invocations.simps split: sum.split)

lemma collect_single: "collect_sinks [req] ([], []) = (fst (add_sink (pr_id req) (pr_respond_to req) ([], [])), [])"
  by (cases "pr_respond_to req") simp_all

definition probe_msg :: "bool \<Rightarrow> u64 \<Rightarrow> duration_feedback" where
  "probe_msg ok el = \<lparr>fb_is_probe = True, fb_success = ok, fb_elapsed_ms = el\<rparr>"

lemma flush_single_buffered:
  "flush_buffered rt sends key ts ji [item] b st =
   map Eff (if st = [] then [] else map StreamEff (fail_all_stream (rt_response_dispatcher rt) st (length st)
      (ji_wait_ms ji) None BAD_GATEWAY ''unexpected streaming response sink'')) @
   (case rt_batch_event_builder rt key ts [item] of
      Inl err \<Rightarrow> map Eff (answers (fail_all_buffered (rt_response_dispatcher rt) b (length b) (ji_wait_ms ji) None
        INTERNAL_SERVER_ERROR (''encode: '' @ err)))
    | Inr payload \<Rightarrow>
        if length payload \<le> rt_max_invoke_payload_bytes rt
        then offer_job rt (sends 0) (JobBuffered (ji\<lparr>ji_payload := payload\<rparr>) b)
        else map Eff (answers (fail_all_buffered (rt_response_dispatcher rt) b (length b) (ji_wait_ms ji) None
          BAD_GATEWAY ''invoke payload too large'')))"
  by (simp add: flush_buffered_def Let_def plan_single split: sum.split)

lemma flush_single_stream:
  "flush_stream rt sends key ts ji [item] b st =
   map Eff (if b = [] then [] else answers (fail_all_buffered (rt_response_dispatcher rt) b (length b)
      (ji_wait_ms ji) None BAD_GATEWAY ''unexpected buffered response sink'')) @
   (case rt_batch_event_builder rt key ts [item] of
      Inl err \<Rightarrow> map Eff (map StreamEff (fail_all_stream (rt_response_dispatcher rt) st (length st) (ji_wait_ms ji) None
        INTERNAL_SERVER_ERROR (''encode: '' @ err)))
    | Inr payload \<Rightarrow>
        if length payload \<le> rt_max_invoke_payload_bytes rt
        then offer_job rt (sends 0) (JobStream (ji\<lparr>ji_payload := payload\<rparr>) st)
        else map Eff (map StreamEff (fail_all_stream (rt_response_dispatcher rt) st (length st) (ji_wait_ms ji) None
          BAD_GATEWAY ''invoke payload too large'')))"
  by (simp add: flush_stream_def Let_def plan_single split: sum.split)

context invocation
begin

lemma offer_job_probe:
  assumes "rt_response_dispatcher rt = d" "rt_probe_feedback_reporter rt = rep"
    and "ji_is_probe (job_info_of job)" "ji_duration_feedback_tx (job_info_of job) = Some c"
  shows "jobs_of (offer_job rt r job) = (if r = SendOk then [job] else []) \<and>
    feedbacks (effects_of (offer_job rt r job)) = (if r = SendOk then [] else [(c, probe_msg False 0)])"
  using assms by (cases r) (simp_all add: offer_job_def rejected_job_def job_fail_feedback probe_msg_def)

lemma probe_flush:
  assumes rt: "rt_response_dispatcher rt = d" "rt_probe_feedback_reporter rt = rep" "rt_duration_feedback_tx rt = Some c"
    and outs: "outs = flush_batch ext key rt sends ts w rps True [req]"
  shows "(\<forall>job \<in> set (jobs_of outs). ji_is_probe (job_info_of job) \<and> ji_duration_feedback_tx (job_info_of job) = Some c) \<and>
    (if \<exists>payload. rt_batch_event_builder rt key ts [request_item ext ts req] = Inr payload \<and>
          length payload \<le> rt_max_invoke_payload_bytes rt
     then (if sends 0 = SendOk then length (jobs_of outs) = 1 \<and> feedbacks (effects_of outs) = []
           else jobs_of outs = [] \<and> feedbacks (effects_of outs) = [(c, probe_msg False 0)])
     else jobs_of outs = [] \<and> feedbacks (effects_of outs) = [])"
proof -
  obtain b st where s: "fst (add_sink (pr_id req) (pr_respond_to req) ([], [])) = (b, st)" by (metis surj_pair)
  have cs: "collect_sinks [req] ([], []) = ((b, st), [])" unfolding collect_single s ..
  let ?ji = "\<lparr>ji_key = key, ji_wait_ms = w, ji_estimated_rps = rps, ji_is_probe = True,
    ji_duration_feedback_tx = Some c, ji_payload = []\<rparr>"
  have ji: "ji_is_probe (job_info_of (JobBuffered (?ji\<lparr>ji_payload := pl\<rparr>) b))"
    "ji_duration_feedback_tx (job_info_of (JobBuffered (?ji\<lparr>ji_payload := pl\<rparr>) b)) = Some c"
    "ji_is_probe (job_info_of (JobStream (?ji\<lparr>ji_payload := pl\<rparr>) st))"
    "ji_duration_feedback_tx (job_info_of (JobStream (?ji\<lparr>ji_payload := pl\<rparr>) st)) = Some c" for pl
    by simp_all
  have o: "outs = (if bk_invoke_mode key = Buffered
     then flush_buffered rt sends key ts ?ji [request_item ext ts req] b st
     else flush_stream rt sends key ts ?ji [request_item ext ts req] b st)"
    by (simp add: outs flush_batch_def cs rt Let_def del: collect_sinks.simps)
  show ?thesis
  proof (cases "\<exists>payload. rt_batch_event_builder rt key ts [request_item ext ts req] = Inr payload \<and>
      length payload \<le> rt_max_invoke_payload_bytes rt")
    case False
    then show ?thesis
      by (cases "rt_batch_event_builder rt key ts [request_item ext ts req]")
        (simp_all add: o flush_single_buffered flush_single_stream del: map_map)
  next
    case True
    then obtain payload where pl: "rt_batch_event_builder rt key ts [request_item ext ts req] = Inr payload"
      "length payload \<le> rt_max_invoke_payload_bytes rt" by blast
    let ?job = "if bk_invoke_mode key = Buffered then JobBuffered (?ji\<lparr>ji_payload := payload\<rparr>) b
      else JobStream (?ji\<lparr>ji_payload := payload\<rparr>) st"
    have job: "ji_is_probe (job_info_of ?job)" "ji_duration_feedback_tx (job_info_of ?job) = Some c" by simp_all
    have "jobs_of outs = jobs_of (offer_job rt (sends 0) ?job) \<and>
        feedbacks (effects_of outs) = feedbacks (effects_of (offer_job rt (sends 0) ?job))"
      using pl by (simp add: o flush_single_buffered flush_single_stream del: map_map)
    then show ?thesis using offer_job_probe [OF rt(1,2) job, of "sends 0"] job True by simp
  qed
qed

end

subsection \<open>What the jobs carry\<close>

lemma jobs_of_rejected [simp]: "r \<noteq> SendOk \<Longrightarrow> jobs_of (offer_job rt r job) = []"
  by (simp add: offer_job_def)

lemma run_plans_jobs:
  "job \<in> set (jobs_of (run_plans rt sends fail_plan mk_job n ps)) \<Longrightarrow>
   \<exists>pending payload. Invoke pending payload \<in> set ps \<and> job = mk_job pending payload"
proof (induction ps arbitrary: n)
  case Nil
  then show ?case by simp
next
  case (Cons p ps)
  then show ?case by (cases p) (auto simp: offer_job_def split: if_splits dest!: Cons.IH)
qed

lemma plan_invoke_fits:
  "Invoke pd payload \<in> set (plans (plan_invocations builder key ts mx pending items)) \<longrightarrow> length payload \<le> mx"
  by (rule plan_induct [where P = "\<lambda>pending items pl. Invoke pd payload \<in> set (plans pl) \<longrightarrow> length payload \<le> mx"]) auto

lemma flush_job_facts:
  assumes "job \<in> set (jobs_of (flush_batch ext key rt sends ts w rps is_probe batch))"
  shows "length (ji_payload (job_info_of job)) \<le> rt_max_invoke_payload_bytes rt \<and>
    ji_key (job_info_of job) = key \<and> ji_wait_ms (job_info_of job) = w \<and>
    ji_is_probe (job_info_of job) = is_probe \<and>
    (case job of JobBuffered _ _ \<Rightarrow> bk_invoke_mode key = Buffered | JobStream _ _ \<Rightarrow> bk_invoke_mode key = ResponseStream)"
proof -
  obtain b st effs where c: "collect_sinks batch ([], []) = ((b, st), effs)" by (metis surj_pair)
  have fits: "Invoke pd payload \<in> set (plans (plan_invocations builder key ts mx pending items)) \<Longrightarrow> length payload \<le> mx"
    for pd :: "(string, 'v) hashmap" and payload builder key ts mx pending items using plan_invoke_fits by blast
  show ?thesis
  proof (cases "bk_invoke_mode key")
    case Buffered
    then show ?thesis using assms
      by (auto simp: flush_batch_def c Let_def flush_buffered_def dest!: run_plans_jobs fits)
  next
    case ResponseStream
    then show ?thesis using assms
      by (auto simp: flush_batch_def c Let_def flush_stream_def dest!: run_plans_jobs fits)
  qed
qed

lemma flush_jobs_ok:
  assumes "job \<in> set (jobs_of (flush_batch ext key rt sends ts w rps is_probe batch))"
  shows "job_ok job"
proof -
  obtain b st effs where c: "collect_sinks batch ([], []) = ((b, st), effs)" by (metis surj_pair)
  have "sinks_ok (b, st)" using collect_sinks_callers [OF _ c] by (simp add: sinks_ok_def)
  then have ok: "hm_ok b" "hm_ok st" by (simp_all add: sinks_ok_def)
  show ?thesis
  proof (cases "bk_invoke_mode key")
    case Buffered
    then show ?thesis using assms
      by (auto simp: flush_batch_def c Let_def flush_buffered_def dest!: run_plans_jobs plan_pending_ok [OF ok(1)])
  next
    case ResponseStream
    then show ?thesis using assms
      by (auto simp: flush_batch_def c Let_def flush_stream_def dest!: run_plans_jobs plan_pending_ok [OF ok(2)])
  qed
qed

subsection \<open>Properties\<close>

text \<open>A flush loses no caller and answers none twice, however the batch is split, whatever cannot be
  encoded, does not fit, or finds the job queue full or closed: the callers of the batch are exactly the
  callers whose wait the flush ends plus the callers that travel with the jobs it enqueued.\<close>

theorem flush_conserves_callers:
  "flush_callers (flush_batch ext key
      (rt\<lparr>rt_response_dispatcher := default_dispatcher ext env, rt_probe_feedback_reporter := default_reporter\<rparr>)
      sends received_at_ms wait_ms rps is_probe batch) = request_callers batch"
  by (rule default_invocation.flush_batch_callers) simp_all

text \<open>Every job a flush enqueues respects the payload limit, belongs to the batch key, carries the wait and
  the probe flag of the flush, and has callers of the kind its invocation mode answers.\<close>

theorem flush_jobs_well_formed:
  assumes "job \<in> set (jobs_of (flush_batch ext key rt sends received_at_ms wait_ms rps is_probe batch))"
  shows "length (ji_payload (job_info_of job)) \<le> rt_max_invoke_payload_bytes rt \<and>
    ji_key (job_info_of job) = key \<and> ji_wait_ms (job_info_of job) = wait_ms \<and>
    ji_is_probe (job_info_of job) = is_probe \<and>
    (case job of JobBuffered _ _ \<Rightarrow> bk_invoke_mode key = Buffered | JobStream _ _ \<Rightarrow> bk_invoke_mode key = ResponseStream)"
  by (rule flush_job_facts [OF assms])

definition example_runtime :: batcher_runtime where
  "example_runtime = \<lparr>rt_idle_ttl = 1000, rt_max_invoke_payload_bytes = 3, rt_duration_feedback_tx = Some 9,
     rt_batch_event_builder = example_builder, rt_probe_feedback_reporter = default_reporter,
     rt_response_dispatcher = default_dispatcher example_ext example_stream_env,
     rt_dynamic_wait_policy = (\<lambda>_ mn _ _ _. mn), rt_duration_wait_policy = (\<lambda>_ _ mn _. mn)\<rparr>"

definition example_request :: "string \<Rightarrow> chan \<Rightarrow> pending_request" where
  "example_request i c = \<lparr>pr_id = i, pr_method = ''GET'', pr_path = ''/a'', pr_route = ''/a'', pr_path_params = [],
     pr_key_headers = [], pr_headers = [], pr_query = [], pr_raw_query_string = [], pr_body = [],
     pr_respond_to = SinkBuffered c\<rparr>"

lemma bi_id_request_item [simp]: "bi_id (request_item ext ts req) = pr_id req"
  by (simp add: request_item_def Let_def split_def)

theorem flush_jobs_well_formed_witness:
  "\<exists>job. job \<in> set (jobs_of (flush_batch example_ext example_key example_runtime (\<lambda>_. SendOk) 7 5 None True
       [example_request ''r1'' 1])) \<and>
    (length (ji_payload (job_info_of job)) \<le> rt_max_invoke_payload_bytes example_runtime \<and>
     ji_key (job_info_of job) = example_key \<and> ji_wait_ms (job_info_of job) = 5 \<and>
     ji_is_probe (job_info_of job) = True \<and>
     (case job of JobBuffered _ _ \<Rightarrow> bk_invoke_mode example_key = Buffered
        | JobStream _ _ \<Rightarrow> bk_invoke_mode example_key = ResponseStream))"
proof -
  have "\<exists>job. job \<in> set (jobs_of (flush_batch example_ext example_key example_runtime (\<lambda>_. SendOk) 7 5 None True
       [example_request ''r1'' 1]))"
    by (simp add: flush_batch_def example_key_def example_request_def Let_def flush_single_buffered example_runtime_def
        example_builder_def offer_job_def)
  then show ?thesis using flush_jobs_well_formed by blast
qed

text \<open>What a probe flush does with the scheduler's feedback channel. If the request can be invoked, either
  one probe job is enqueued, which will report, or the rejected job reports failure at once. If the request
  cannot be encoded or does not fit, its plan fails and nothing is enqueued or reported: the scheduler that
  waits for this probe never hears of it.\<close>

theorem probe_flush_feedback:
  fixes rt0 ext env c
  defines "rt \<equiv> rt0\<lparr>rt_response_dispatcher := default_dispatcher ext env,
      rt_probe_feedback_reporter := default_reporter, rt_duration_feedback_tx := Some c\<rparr>"
  shows "list_all (\<lambda>job. ji_is_probe (job_info_of job) \<and> ji_duration_feedback_tx (job_info_of job) = Some c)
      (jobs_of (flush_batch ext key rt sends ts w rps True [req])) \<and>
    (if \<exists>payload. rt_batch_event_builder rt key ts [request_item ext ts req] = Inr payload \<and>
          length payload \<le> rt_max_invoke_payload_bytes rt
     then (if sends 0 = SendOk
           then length (jobs_of (flush_batch ext key rt sends ts w rps True [req])) = 1 \<and>
                feedbacks (effects_of (flush_batch ext key rt sends ts w rps True [req])) = []
           else jobs_of (flush_batch ext key rt sends ts w rps True [req]) = [] \<and>
                feedbacks (effects_of (flush_batch ext key rt sends ts w rps True [req])) = [(c, probe_msg False 0)])
     else jobs_of (flush_batch ext key rt sends ts w rps True [req]) = [] \<and>
          feedbacks (effects_of (flush_batch ext key rt sends ts w rps True [req])) = [])"
  unfolding list_all_iff
  by (rule default_invocation.probe_flush [OF _ _ _ refl]) (simp_all add: rt_def)

end
