(* ===== verification/Scheduler.thy ===== *)
theory Scheduler
  imports Flush
begin

text \<open>
  \<open>batching/scheduler.rs\<close>: the three batcher tasks of a batch key as partial step functions over
  the events at their await points. The phase of a task is what it is waiting for. An event carries
  the clock readings the code makes while handling it; a flush is an output. A deadline is kept in the
  state, \<open>TimerFired\<close> is the expiry of the timer the task is waiting on.
\<close>

record flush_call =
  fc_wait_ms :: u64
  fc_estimated_rps :: "f64 option"
  fc_is_probe :: bool
  fc_batch :: "pending_request list"

text \<open>
  \<open>Recv req t1 t2\<close>: a request was received; \<open>t1\<close> is the first and \<open>t2\<close> the second reading of
  the clock made before the next wait.
\<close>

datatype batcher_event =
    Recv pending_request time time
  | RecvClosed
  | TimerFired
  | FeedbackRecv duration_feedback
  | FeedbackClosed
  | SamplerTick

definition flush_out_of :: "u64 \<Rightarrow> f64 option \<Rightarrow> bool \<Rightarrow> pending_request list \<Rightarrow> flush_call" where
  "flush_out_of wait_ms rps is_probe batch =
     \<lparr>fc_wait_ms = wait_ms, fc_estimated_rps = rps, fc_is_probe = is_probe, fc_batch = batch\<rparr>"

lemma flush_out_of_simps [simp]:
  "fc_batch (flush_out_of w r p b) = b" "fc_is_probe (flush_out_of w r p b) = p"
  "fc_wait_ms (flush_out_of w r p b) = w"
  by (simp_all add: flush_out_of_def)

subsection \<open>Fixed wait\<close>

datatype fixed_state = FixedIdle | FixedFilling "pending_request list" time | FixedStopped

text \<open>The head of the inner loop: stop filling when the batch is full or the deadline has passed.\<close>

definition fixed_fill ::
  "u64 \<Rightarrow> nat \<Rightarrow> time \<Rightarrow> pending_request list \<Rightarrow> time \<Rightarrow> fixed_state \<times> flush_call list" where
  "fixed_fill max_wait_ms max_batch_size now batch flush_at =
     (if length batch < max_batch_size \<and> now < flush_at
      then (FixedFilling batch flush_at, [])
      else (FixedIdle, [flush_out_of max_wait_ms None False batch]))"

fun fixed_step ::
  "u64 \<Rightarrow> nat \<Rightarrow> fixed_state \<Rightarrow> batcher_event \<Rightarrow> (fixed_state \<times> flush_call list) option" where
  "fixed_step max_wait_ms max_batch_size FixedIdle (Recv first t1 t2) =
     Some (if 1 < max_batch_size
           then fixed_fill max_wait_ms max_batch_size t2 [first] (t1 + from_millis max_wait_ms)
           else (FixedIdle, [flush_out_of max_wait_ms None False [first]]))"
| "fixed_step max_wait_ms max_batch_size FixedIdle RecvClosed = Some (FixedStopped, [])"
| "fixed_step max_wait_ms max_batch_size FixedIdle TimerFired = Some (FixedStopped, [])"
| "fixed_step max_wait_ms max_batch_size (FixedFilling batch flush_at) (Recv req t1 t2) =
     Some (fixed_fill max_wait_ms max_batch_size t1 (batch @ [req]) flush_at)"
| "fixed_step max_wait_ms max_batch_size (FixedFilling batch flush_at) RecvClosed =
     Some (FixedIdle, [flush_out_of max_wait_ms None False batch])"
| "fixed_step max_wait_ms max_batch_size (FixedFilling batch flush_at) TimerFired =
     Some (FixedIdle, [flush_out_of max_wait_ms None False batch])"
| "fixed_step _ _ _ _ = None"

subsection \<open>Phases of the other two tasks\<close>

text \<open>
  \<open>Hung\<close> is a loop that never ends: the task is stuck in it, with the request it just took, and
  handles no further event.
\<close>

datatype phase = Idle | Filling "pending_request list" u64 time | Stopped | Hung "pending_request list"

subsection \<open>Wait from probe durations\<close>

record duration_state =
  ds_phase :: phase
  ds_next_probe_at :: time
  ds_samples :: "f64 list"
  ds_inflight :: bool

text \<open>\<open>while next_probe_at <= now { next_probe_at += probe_interval; }\<close>\<close>

partial_function (option) advance_probe :: "time \<Rightarrow> time \<Rightarrow> time \<Rightarrow> time option" where
  "advance_probe next_probe_at probe_interval now =
     (if next_probe_at \<le> now then advance_probe (next_probe_at + probe_interval) probe_interval now
      else Some next_probe_at)"

definition duration_init ::
  "(batch_key \<Rightarrow> u64) \<Rightarrow> batch_key \<Rightarrow> duration_wait_config \<Rightarrow> time \<Rightarrow> duration_state" where
  "duration_init hasher key cfg now =
     \<lparr>ds_phase = Idle,
      ds_next_probe_at = now + from_millis (du_probe_interval_ms cfg) +
        from_millis (stable_probe_offset_ms hasher key (du_probe_jitter_ms cfg)),
      ds_samples = [], ds_inflight = False\<rparr>"

definition handle_feedback :: "duration_wait_config \<Rightarrow> duration_feedback \<Rightarrow> duration_state \<Rightarrow> duration_state" where
  "handle_feedback cfg fb s =
     (if fb_is_probe fb
      then s\<lparr>ds_inflight := False,
             ds_samples := (if fb_success fb
                then record_probe_sample (ds_samples s) (du_smoothing_samples cfg) (fb_elapsed_ms fb)
                else ds_samples s)\<rparr>
      else s)"

text \<open>
  After the first request: reading \<open>now = t1\<close> decides on a probe, reading \<open>t2\<close> starts the window.
\<close>

definition duration_first ::
  "batcher_runtime \<Rightarrow> u64 \<Rightarrow> nat \<Rightarrow> duration_wait_config \<Rightarrow> duration_state \<Rightarrow> pending_request \<Rightarrow> time \<Rightarrow> time \<Rightarrow>
   duration_state \<times> flush_call list" where
  "duration_first rt max_wait_ms max_batch_size cfg s first now t2 =
     (let probe_due = ds_next_probe_at s \<le> now in
      case (if probe_due
            then advance_probe (ds_next_probe_at s) (from_millis (du_probe_interval_ms cfg)) now
            else Some (ds_next_probe_at s)) of
        None \<Rightarrow> (s\<lparr>ds_phase := Hung [first]\<rparr>, [])
      | Some next_probe_at \<Rightarrow>
          let s = s\<lparr>ds_next_probe_at := next_probe_at\<rparr> in
          if \<not> ds_inflight s \<and> probe_due then
            (s\<lparr>ds_inflight := True\<rparr>, [flush_out_of (du_min_wait_ms cfg) None True [first]])
          else
            let probe_ms = (if du_warmup_probes cfg \<le> length (ds_samples s)
                            then smoothed_probe_ms (ds_samples s) else Fin 0);
                wait_ms = rt_duration_wait_policy rt probe_ms (du_fraction cfg) (du_min_wait_ms cfg) max_wait_ms
            in if 1 < max_batch_size
               then (s\<lparr>ds_phase := Filling [first] wait_ms (t2 + from_millis wait_ms)\<rparr>, [])
               else (s, [flush_out_of wait_ms None False [first]]))"

fun duration_step ::
  "batcher_runtime \<Rightarrow> u64 \<Rightarrow> nat \<Rightarrow> duration_wait_config \<Rightarrow> duration_state \<Rightarrow> batcher_event \<Rightarrow>
   (duration_state \<times> flush_call list) option" where
  "duration_step rt max_wait_ms max_batch_size cfg s e =
     (case (ds_phase s, e) of
        (Idle, TimerFired) \<Rightarrow> Some (s\<lparr>ds_phase := Stopped\<rparr>, [])
      | (Idle, FeedbackRecv fb) \<Rightarrow> Some (handle_feedback cfg fb s, [])
      | (Idle, FeedbackClosed) \<Rightarrow> Some (s, [])
      | (Idle, Recv first t1 t2) \<Rightarrow> Some (duration_first rt max_wait_ms max_batch_size cfg s first t1 t2)
      | (Idle, RecvClosed) \<Rightarrow> Some (s\<lparr>ds_phase := Stopped\<rparr>, [])
      | (Filling batch wait_ms flush_at, TimerFired) \<Rightarrow>
          Some (s\<lparr>ds_phase := Idle\<rparr>, [flush_out_of wait_ms None False batch])
      | (Filling batch wait_ms flush_at, FeedbackRecv fb) \<Rightarrow> Some (handle_feedback cfg fb s, [])
      | (Filling batch wait_ms flush_at, FeedbackClosed) \<Rightarrow> Some (s, [])
      | (Filling batch wait_ms flush_at, Recv req t1 t2) \<Rightarrow>
          if length (batch @ [req]) \<ge> max_batch_size
          then Some (s\<lparr>ds_phase := Idle\<rparr>, [flush_out_of wait_ms None False (batch @ [req])])
          else Some (s\<lparr>ds_phase := Filling (batch @ [req]) wait_ms flush_at\<rparr>, [])
      | (Filling batch wait_ms flush_at, RecvClosed) \<Rightarrow>
          Some (s\<lparr>ds_phase := Stopped\<rparr>, [flush_out_of wait_ms None False batch])
      | _ \<Rightarrow> None)"

declare duration_step.simps [simp del]

subsection \<open>Wait from the request rate\<close>

record dynamic_state =
  dy_phase :: phase
  dy_est :: rate_estimator

definition dynamic_init :: "dynamic_wait_config \<Rightarrow> dynamic_state" where
  "dynamic_init cfg =
     \<lparr>dy_phase = Idle,
      dy_est = estimator_new (from_millis (dw_sampling_interval_ms cfg)) (dw_smoothing_samples cfg)\<rparr>"

definition dynamic_flush :: "dynamic_state \<Rightarrow> u64 \<Rightarrow> pending_request list \<Rightarrow> flush_call" where
  "dynamic_flush s wait_ms batch = flush_out_of wait_ms (Some (smoothed_rps (dy_est s))) False batch"

definition dynamic_first ::
  "batcher_runtime \<Rightarrow> u64 \<Rightarrow> nat \<Rightarrow> dynamic_wait_config \<Rightarrow> dynamic_state \<Rightarrow> pending_request \<Rightarrow> time \<Rightarrow>
   dynamic_state \<times> flush_call list" where
  "dynamic_first rt max_wait_ms max_batch_size cfg s first t1 =
     (let s = s\<lparr>dy_est := record_request (dy_est s)\<rparr>;
          wait_ms = rt_dynamic_wait_policy rt (smoothed_rps (dy_est s)) (dw_min_wait_ms cfg) max_wait_ms
                      (dw_target_rps cfg) (dw_steepness cfg)
      in if 1 < max_batch_size
         then (s\<lparr>dy_phase := Filling [first] wait_ms (t1 + from_millis wait_ms)\<rparr>, [])
         else (s, [dynamic_flush s wait_ms [first]]))"

fun dynamic_step ::
  "batcher_runtime \<Rightarrow> u64 \<Rightarrow> nat \<Rightarrow> dynamic_wait_config \<Rightarrow> dynamic_state \<Rightarrow> batcher_event \<Rightarrow>
   (dynamic_state \<times> flush_call list) option" where
  "dynamic_step rt max_wait_ms max_batch_size cfg s e =
     (case (dy_phase s, e) of
        (Idle, TimerFired) \<Rightarrow> Some (s\<lparr>dy_phase := Stopped\<rparr>, [])
      | (Idle, SamplerTick) \<Rightarrow> Some (s\<lparr>dy_est := estimator_tick (dy_est s)\<rparr>, [])
      | (Idle, Recv first t1 t2) \<Rightarrow> Some (dynamic_first rt max_wait_ms max_batch_size cfg s first t1)
      | (Idle, RecvClosed) \<Rightarrow> Some (s\<lparr>dy_phase := Stopped\<rparr>, [])
      | (Filling batch wait_ms flush_at, TimerFired) \<Rightarrow>
          Some (s\<lparr>dy_phase := Idle\<rparr>, [dynamic_flush s wait_ms batch])
      | (Filling batch wait_ms flush_at, SamplerTick) \<Rightarrow> Some (s\<lparr>dy_est := estimator_tick (dy_est s)\<rparr>, [])
      | (Filling batch wait_ms flush_at, Recv req t1 t2) \<Rightarrow>
          let s = s\<lparr>dy_est := record_request (dy_est s)\<rparr> in
          if length (batch @ [req]) \<ge> max_batch_size
          then Some (s\<lparr>dy_phase := Idle\<rparr>, [dynamic_flush s wait_ms (batch @ [req])])
          else Some (s\<lparr>dy_phase := Filling (batch @ [req]) wait_ms flush_at\<rparr>, [])
      | (Filling batch wait_ms flush_at, RecvClosed) \<Rightarrow>
          Some (s\<lparr>dy_phase := Stopped\<rparr>, [dynamic_flush s wait_ms batch])
      | _ \<Rightarrow> None)"

declare dynamic_step.simps [simp del]

subsection \<open>Which task a batch key gets\<close>

datatype batcher_state = TaskFixed fixed_state | TaskDuration duration_state | TaskDynamic dynamic_state

definition batcher_init ::
  "(batch_key \<Rightarrow> u64) \<Rightarrow> batch_key \<Rightarrow> batcher_config \<Rightarrow> time \<Rightarrow> batcher_state" where
  "batcher_init hasher key cfg now =
     (case bc_duration_wait cfg of
        Some du \<Rightarrow> TaskDuration (duration_init hasher key du now)
      | None \<Rightarrow> (case bc_dynamic_wait cfg of
           Some dw \<Rightarrow> TaskDynamic (dynamic_init dw)
         | None \<Rightarrow> TaskFixed FixedIdle))"

fun batcher_step ::
  "batcher_runtime \<Rightarrow> batcher_config \<Rightarrow> batcher_state \<Rightarrow> batcher_event \<Rightarrow> (batcher_state \<times> flush_call list) option" where
  "batcher_step rt cfg (TaskFixed s) e =
     map_option (\<lambda>(s, os). (TaskFixed s, os)) (fixed_step (bc_max_wait_ms cfg) (bc_max_batch_size cfg) s e)"
| "batcher_step rt cfg (TaskDuration s) e =
     (case bc_duration_wait cfg of
        None \<Rightarrow> None
      | Some du \<Rightarrow> map_option (\<lambda>(s, os). (TaskDuration s, os))
          (duration_step rt (bc_max_wait_ms cfg) (bc_max_batch_size cfg) du s e))"
| "batcher_step rt cfg (TaskDynamic s) e =
     (case bc_dynamic_wait cfg of
        None \<Rightarrow> None
      | Some dw \<Rightarrow> map_option (\<lambda>(s, os). (TaskDynamic s, os))
          (dynamic_step rt (bc_max_wait_ms cfg) (bc_max_batch_size cfg) dw s e))"

subsection \<open>The contract of a batcher task\<close>

fun arrived :: "batcher_event \<Rightarrow> pending_request list" where
  "arrived (Recv req _ _) = [req]"
| "arrived _ = []"

definition flushed :: "flush_call list \<Rightarrow> pending_request list" where
  "flushed os = concat (map fc_batch os)"

lemma flushed_simps [simp]:
  "flushed [] = []" "flushed (f # fs) = fc_batch f @ flushed fs" "flushed (xs @ ys) = flushed xs @ flushed ys"
  by (simp_all add: flushed_def)

text \<open>
  What the rest of the gateway relies on for every kind of batcher: requests are flushed in the
  order they arrived, none lost and none duplicated, in non-empty batches of the configured size.
\<close>

locale batcher =
  fixes step :: "'s \<Rightarrow> batcher_event \<Rightarrow> ('s \<times> flush_call list) option"
    and held :: "'s \<Rightarrow> pending_request list"
    and inv :: "'s \<Rightarrow> bool"
    and max_batch_size :: nat
  assumes step_order: "step s e = Some (s', os) \<Longrightarrow> flushed os @ held s' = held s @ arrived e"
    and step_inv: "inv s \<Longrightarrow> step s e = Some (s', os) \<Longrightarrow> inv s' \<and>
      (\<forall>f \<in> set os. fc_batch f \<noteq> [] \<and> length (fc_batch f) \<le> max 1 max_batch_size)"
begin

lemma run_order:
  "run step s es = Some (s', os) \<Longrightarrow> flushed os @ held s' = held s @ concat (map arrived es)"
proof (induction es arbitrary: s os)
  case Nil
  then show ?case by simp
next
  case (Cons e es)
  from Cons.prems obtain s1 o1 o2 where s: "step s e = Some (s1, o1)" "run step s1 es = Some (s', o2)" "os = o1 @ o2"
    by (rule run_ConsE)
  then show ?case using step_order [OF s(1)] Cons.IH [OF s(2)] by (metis append.assoc concat.simps(2) flushed_simps(3) list.map(2))
qed

lemma run_sizes:
  "inv s \<Longrightarrow> run step s es = Some (s', os) \<Longrightarrow> inv s' \<and>
   (\<forall>f \<in> set os. fc_batch f \<noteq> [] \<and> length (fc_batch f) \<le> max 1 max_batch_size)"
  by (rule run_invariant [where I = inv and step = step and es = es and P = "\<lambda>f. fc_batch f \<noteq> [] \<and> length (fc_batch f) \<le> max 1 max_batch_size"])
    (use step_inv in blast)+

end

fun fixed_held :: "fixed_state \<Rightarrow> pending_request list" where
  "fixed_held (FixedFilling batch _) = batch"
| "fixed_held _ = []"

fun phase_held :: "phase \<Rightarrow> pending_request list" where
  "phase_held (Filling batch _ _) = batch"
| "phase_held (Hung batch) = batch"
| "phase_held _ = []"

definition batch_inv :: "nat \<Rightarrow> phase \<Rightarrow> bool" where
  "batch_inv n p \<longleftrightarrow> (case p of Filling batch _ _ \<Rightarrow> batch \<noteq> [] \<and> length batch < n | _ \<Rightarrow> True)"

definition fixed_inv :: "nat \<Rightarrow> fixed_state \<Rightarrow> bool" where
  "fixed_inv n p \<longleftrightarrow> (case p of FixedFilling batch _ \<Rightarrow> batch \<noteq> [] \<and> length batch < n | _ \<Rightarrow> True)"

lemma handle_feedback_phase [simp]: "ds_phase (handle_feedback cfg fb s) = ds_phase s"
  by (simp add: handle_feedback_def)

interpretation fixed: batcher "fixed_step w n" fixed_held "fixed_inv n" n for w n
proof
  fix s e s' os
  show "fixed_step w n s e = Some (s', os) \<Longrightarrow> flushed os @ fixed_held s' = fixed_held s @ arrived e"
    by (cases "(w, n, s, e)" rule: fixed_step.cases) (auto simp: fixed_fill_def split: if_splits)
  show "fixed_inv n s \<Longrightarrow> fixed_step w n s e = Some (s', os) \<Longrightarrow> fixed_inv n s' \<and>
      (\<forall>f \<in> set os. fc_batch f \<noteq> [] \<and> length (fc_batch f) \<le> max 1 n)"
    by (cases "(w, n, s, e)" rule: fixed_step.cases) (auto simp: fixed_fill_def fixed_inv_def split: if_splits)
qed

lemmas duration_simps = duration_step.simps duration_first_def Let_def batch_inv_def
lemmas dynamic_simps = dynamic_step.simps dynamic_first_def dynamic_flush_def Let_def batch_inv_def

interpretation duration_task: batcher "duration_step rt w n cfg" "\<lambda>s. phase_held (ds_phase s)"
  "\<lambda>s. batch_inv n (ds_phase s)" n for rt w n cfg
proof
  fix s e s' os
  show "duration_step rt w n cfg s e = Some (s', os) \<Longrightarrow>
      flushed os @ phase_held (ds_phase s') = phase_held (ds_phase s) @ arrived e"
    by (cases "ds_phase s"; cases e) (auto simp: duration_simps split: if_splits option.splits)
  show "batch_inv n (ds_phase s) \<Longrightarrow> duration_step rt w n cfg s e = Some (s', os) \<Longrightarrow> batch_inv n (ds_phase s') \<and>
      (\<forall>f \<in> set os. fc_batch f \<noteq> [] \<and> length (fc_batch f) \<le> max 1 n)"
    by (cases "ds_phase s"; cases e) (auto simp: duration_simps split: if_splits option.splits)
qed

interpretation dynamic_task: batcher "dynamic_step rt w n cfg" "\<lambda>s. phase_held (dy_phase s)"
  "\<lambda>s. batch_inv n (dy_phase s)" n for rt w n cfg
proof
  fix s e s' os
  show "dynamic_step rt w n cfg s e = Some (s', os) \<Longrightarrow>
      flushed os @ phase_held (dy_phase s') = phase_held (dy_phase s) @ arrived e"
    by (cases "dy_phase s"; cases e) (auto simp: dynamic_simps split: if_splits)
  show "batch_inv n (dy_phase s) \<Longrightarrow> dynamic_step rt w n cfg s e = Some (s', os) \<Longrightarrow> batch_inv n (dy_phase s') \<and>
      (\<forall>f \<in> set os. fc_batch f \<noteq> [] \<and> length (fc_batch f) \<le> max 1 n)"
    by (cases "dy_phase s"; cases e) (auto simp: dynamic_simps split: if_splits)
qed

fun task_held :: "batcher_state \<Rightarrow> pending_request list" where
  "task_held (TaskFixed s) = fixed_held s"
| "task_held (TaskDuration s) = phase_held (ds_phase s)"
| "task_held (TaskDynamic s) = phase_held (dy_phase s)"

fun task_inv :: "nat \<Rightarrow> batcher_state \<Rightarrow> bool" where
  "task_inv n (TaskFixed s) = fixed_inv n s"
| "task_inv n (TaskDuration s) = batch_inv n (ds_phase s)"
| "task_inv n (TaskDynamic s) = batch_inv n (dy_phase s)"

interpretation task: batcher "batcher_step rt cfg" task_held "task_inv (bc_max_batch_size cfg)" "bc_max_batch_size cfg"
  for rt cfg
proof
  fix s e s' os
  show "batcher_step rt cfg s e = Some (s', os) \<Longrightarrow> flushed os @ task_held s' = task_held s @ arrived e"
    by (cases s) (auto split: option.splits dest: fixed.step_order duration_task.step_order dynamic_task.step_order)
  show "task_inv (bc_max_batch_size cfg) s \<Longrightarrow> batcher_step rt cfg s e = Some (s', os) \<Longrightarrow>
      task_inv (bc_max_batch_size cfg) s' \<and>
      (\<forall>f \<in> set os. fc_batch f \<noteq> [] \<and> length (fc_batch f) \<le> max 1 (bc_max_batch_size cfg))"
    by (cases s) (auto split: option.splits dest: fixed.step_inv duration_task.step_inv dynamic_task.step_inv)
qed

lemma batcher_init_held [simp]: "task_held (batcher_init hasher key cfg now) = []"
  by (auto simp: batcher_init_def duration_init_def dynamic_init_def split: option.splits)

lemma batcher_init_inv [simp]: "task_inv n (batcher_init hasher key cfg now)"
  by (auto simp: batcher_init_def duration_init_def dynamic_init_def batch_inv_def fixed_inv_def split: option.splits)

subsection \<open>Deadlines\<close>

definition default_policies :: "(f64 \<Rightarrow> f64) \<Rightarrow> batcher_runtime \<Rightarrow> bool" where
  "default_policies fexp rt \<longleftrightarrow>
     rt_dynamic_wait_policy rt = sigmoid_wait_ms fexp \<and> rt_duration_wait_policy rt = duration_wait_ms"

fun phase_deadline :: "phase \<Rightarrow> time option" where
  "phase_deadline (Filling _ _ flush_at) = Some flush_at"
| "phase_deadline _ = None"

fun task_deadline :: "batcher_state \<Rightarrow> time option" where
  "task_deadline (TaskFixed (FixedFilling _ flush_at)) = Some flush_at"
| "task_deadline (TaskFixed _) = None"
| "task_deadline (TaskDuration s) = phase_deadline (ds_phase s)"
| "task_deadline (TaskDynamic s) = phase_deadline (dy_phase s)"

definition wait_config_ok :: "batcher_config \<Rightarrow> bool" where
  "wait_config_ok cfg \<longleftrightarrow> unat (bc_max_wait_ms cfg) \<le> 2 ^ 53 \<and>
     (case bc_duration_wait cfg of Some du \<Rightarrow> du_min_wait_ms du \<le> bc_max_wait_ms cfg | None \<Rightarrow> True) \<and>
     (case bc_dynamic_wait cfg of Some dw \<Rightarrow> dw_min_wait_ms dw \<le> bc_max_wait_ms cfg | None \<Rightarrow> True)"

lemma fixed_deadline:
  "fixed_step w n s e = Some (s', os) \<Longrightarrow> task_deadline (TaskFixed s') = Some fa \<Longrightarrow>
   task_deadline (TaskFixed s) = Some fa \<or>
   (task_deadline (TaskFixed s) = None \<and> (\<exists>req t1 t2. e = Recv req t1 t2 \<and> fa = t1 + from_millis w))"
  by (cases "(w, n, s, e)" rule: fixed_step.cases) (auto simp: fixed_fill_def split: if_splits)

lemma duration_deadline:
  "duration_step rt w n cfg s e = Some (s', os) \<Longrightarrow> phase_deadline (ds_phase s') = Some fa \<Longrightarrow>
   phase_deadline (ds_phase s) = Some fa \<or>
   (phase_deadline (ds_phase s) = None \<and> (\<exists>req t1 t2 probe. e = Recv req t1 t2 \<and>
      fa = t2 + from_millis (rt_duration_wait_policy rt probe (du_fraction cfg) (du_min_wait_ms cfg) w)))"
  by (cases "ds_phase s"; cases e) (auto simp: duration_simps split: if_splits option.splits)

lemma dynamic_deadline:
  "dynamic_step rt w n cfg s e = Some (s', os) \<Longrightarrow> phase_deadline (dy_phase s') = Some fa \<Longrightarrow>
   phase_deadline (dy_phase s) = Some fa \<or>
   (phase_deadline (dy_phase s) = None \<and> (\<exists>req t1 t2 rps. e = Recv req t1 t2 \<and>
      fa = t1 + from_millis (rt_dynamic_wait_policy rt rps (dw_min_wait_ms cfg) w (dw_target_rps cfg) (dw_steepness cfg))))"
  by (cases "dy_phase s"; cases e) (auto simp: dynamic_simps split: if_splits)

lemma task_deadline_bound:
  assumes step: "batcher_step rt cfg s e = Some (s', os)" and new: "task_deadline s' = Some fa"
    and pol: "default_policies fexp rt" and cfg: "wait_config_ok cfg"
  shows "task_deadline s = Some fa \<or> (task_deadline s = None \<and>
    (\<exists>req t1 t2. e = Recv req t1 t2 \<and> fa \<le> max t1 t2 + from_millis (bc_max_wait_ms cfg)))"
proof (cases s)
  case (TaskFixed f)
  then obtain f' where f: "fixed_step (bc_max_wait_ms cfg) (bc_max_batch_size cfg) f e = Some (f', os)" "s' = TaskFixed f'"
    using step by auto
  show ?thesis using fixed_deadline [OF f(1)] new TaskFixed f(2) by fastforce
next
  case (TaskDuration f)
  then obtain du f' where f: "bc_duration_wait cfg = Some du" "s' = TaskDuration f'"
    "duration_step rt (bc_max_wait_ms cfg) (bc_max_batch_size cfg) du f e = Some (f', os)"
    using step by (auto split: option.splits)
  have "t + from_millis (rt_duration_wait_policy rt p (du_fraction du) (du_min_wait_ms du) (bc_max_wait_ms cfg))
      \<le> t + from_millis (bc_max_wait_ms cfg)" for t p
    using duration.deadline_upper [of "du_min_wait_ms du" "bc_max_wait_ms cfg" t "(p, du_fraction du)"] pol cfg f(1)
    by (simp add: default_policies_def wait_config_ok_def)
  note bound = this
  have new': "phase_deadline (ds_phase f') = Some fa" using new f(2) by simp
  from duration_deadline [OF f(3) new'] show ?thesis
  proof (elim disjE conjE exE)
    assume "phase_deadline (ds_phase f) = Some fa"
    then show ?thesis using TaskDuration by simp
  next
    fix req t1 t2 x
    assume none: "phase_deadline (ds_phase f) = None" and e: "e = Recv req t1 t2"
      and fa: "fa = t2 + from_millis (rt_duration_wait_policy rt x (du_fraction du) (du_min_wait_ms du) (bc_max_wait_ms cfg))"
    have "fa \<le> t2 + from_millis (bc_max_wait_ms cfg)" unfolding fa by (rule bound)
    then have "fa \<le> max t1 t2 + from_millis (bc_max_wait_ms cfg)" by linarith
    then show ?thesis using none e TaskDuration by auto
  qed
next
  case (TaskDynamic f)
  then obtain dw f' where f: "bc_dynamic_wait cfg = Some dw" "s' = TaskDynamic f'"
    "dynamic_step rt (bc_max_wait_ms cfg) (bc_max_batch_size cfg) dw f e = Some (f', os)"
    using step by (auto split: option.splits)
  have "t + from_millis (rt_dynamic_wait_policy rt r (dw_min_wait_ms dw) (bc_max_wait_ms cfg) (dw_target_rps dw) (dw_steepness dw))
      \<le> t + from_millis (bc_max_wait_ms cfg)" for t r
    using sigmoid.deadline_upper [of "dw_min_wait_ms dw" "bc_max_wait_ms cfg" t fexp "(r, dw_target_rps dw, dw_steepness dw)"]
      pol cfg f(1)
    by (simp add: default_policies_def wait_config_ok_def)
  note bound = this
  have new': "phase_deadline (dy_phase f') = Some fa" using new f(2) by simp
  from dynamic_deadline [OF f(3) new'] show ?thesis
  proof (elim disjE conjE exE)
    assume "phase_deadline (dy_phase f) = Some fa"
    then show ?thesis using TaskDynamic by simp
  next
    fix req t1 t2 x
    assume none: "phase_deadline (dy_phase f) = None" and e: "e = Recv req t1 t2"
      and fa: "fa = t1 + from_millis (rt_dynamic_wait_policy rt x (dw_min_wait_ms dw) (bc_max_wait_ms cfg) (dw_target_rps dw) (dw_steepness dw))"
    have "fa \<le> t1 + from_millis (bc_max_wait_ms cfg)" unfolding fa by (rule bound)
    then have "fa \<le> max t1 t2 + from_millis (bc_max_wait_ms cfg)" by linarith
    then show ?thesis using none e TaskDynamic by auto
  qed
qed

text \<open>The timer a filling batch waits on always leads to its flush.\<close>

lemma timer_flushes:
  assumes "task_deadline s = Some fa" "case s of TaskDuration _ \<Rightarrow> bc_duration_wait cfg \<noteq> None
    | TaskDynamic _ \<Rightarrow> bc_dynamic_wait cfg \<noteq> None | TaskFixed _ \<Rightarrow> True"
  shows "\<exists>s' f. batcher_step rt cfg s TimerFired = Some (s', [f]) \<and> fc_batch f = task_held s \<and> task_held s' = []"
proof (cases s)
  case (TaskFixed f)
  then show ?thesis using assms by (cases f) auto
next
  case (TaskDuration f)
  then show ?thesis using assms by (cases "ds_phase f") (auto simp: duration_simps)
next
  case (TaskDynamic f)
  then show ?thesis using assms by (cases "dy_phase f") (auto simp: dynamic_simps)
qed

subsection \<open>Probes\<close>

lemma advance_probe_some:
  assumes "0 < interval"
  shows "\<exists>k. advance_probe next_at interval now = Some (next_at + k * interval) \<and> now < next_at + k * interval \<and>
    (k = 0 \<or> next_at + (k - 1) * interval \<le> now)"
proof (induction "Suc now - next_at" arbitrary: next_at rule: less_induct)
  case less
  show ?case
  proof (cases "next_at \<le> now")
    case False
    then show ?thesis by (intro exI [of _ 0]) (simp add: advance_probe.simps)
  next
    case True
    then have "Suc now - (next_at + interval) < Suc now - next_at" using assms by linarith
    from less [OF this] obtain k where k: "advance_probe (next_at + interval) interval now = Some (next_at + interval + k * interval)"
      "now < next_at + interval + k * interval" "k = 0 \<or> next_at + interval + (k - 1) * interval \<le> now" by blast
    have "k = 0 \<or> next_at + k * interval \<le> now" using k(3) by (cases k) (auto simp: algebra_simps)
    then have "next_at + (Suc k - 1) * interval \<le> now" using True by auto
    then show ?thesis using k(1,2) True
      by (intro exI [of _ "Suc k"]) (simp add: advance_probe.simps [of next_at] algebra_simps)
  qed
qed

lemma advance_probe_hangs:
  assumes "next_at \<le> now"
  shows "advance_probe next_at 0 now = None"
proof -
  have "advance_probe a b c = Some x \<Longrightarrow> b = 0 \<Longrightarrow> a \<le> c \<Longrightarrow> False" for a b c x
    by (induction rule: advance_probe.raw_induct [rotated 1, consumes 1]) (auto split: if_splits)
  then show ?thesis using assms by (cases "advance_probe next_at 0 now") auto
qed

lemma duration_not_hung:
  assumes "0 < du_probe_interval_ms cfg" "duration_step rt w n cfg s e = Some (s', os)" "\<forall>b. ds_phase s \<noteq> Hung b"
  shows "\<forall>b. ds_phase s' \<noteq> Hung b"
proof -
  have "0 < unat (du_probe_interval_ms cfg)" using assms(1) by (simp add: word_less_nat_alt)
  then have i: "0 < from_millis (du_probe_interval_ms cfg)" by (simp add: from_millis_def)
  have ne: "(advance_probe a (from_millis (du_probe_interval_ms cfg)) b = None) = False" for a b
    using advance_probe_some [OF i, of a b] by auto
  then show ?thesis using assms(2,3)
    by (cases "ds_phase s"; cases e) (auto simp: duration_simps ne split: if_splits option.splits)
qed

text \<open>A task that can make a step has the configuration of its kind; what it then holds, it holds with a deadline.\<close>

lemma step_fits_config:
  assumes "batcher_step rt cfg s e = Some (s', os)"
  shows "case s' of TaskDuration _ \<Rightarrow> bc_duration_wait cfg \<noteq> None | TaskDynamic _ \<Rightarrow> bc_dynamic_wait cfg \<noteq> None
    | TaskFixed _ \<Rightarrow> True"
  using assms by (cases s) (auto split: option.splits)

lemma held_has_deadline:
  assumes "batcher_step rt cfg s e = Some (s', os)" "task_deadline s' = None"
  shows "task_held s' = [] \<or> (\<exists>du. bc_duration_wait cfg = Some du \<and> du_probe_interval_ms du = 0)"
proof (cases s)
  case (TaskFixed f)
  then obtain f' where f: "s' = TaskFixed f'" using assms(1) by auto
  then show ?thesis using assms(2) by (cases f') auto
next
  case (TaskDuration f)
  then obtain du f' where f: "bc_duration_wait cfg = Some du" "s' = TaskDuration f'"
    "duration_step rt (bc_max_wait_ms cfg) (bc_max_batch_size cfg) du f e = Some (f', os)"
    using assms(1) by (auto split: option.splits)
  have "ds_phase f \<noteq> Hung b" for b using f(3) by (auto simp: duration_step.simps)
  then have "\<forall>b. ds_phase f' \<noteq> Hung b" if "0 < du_probe_interval_ms du" using duration_not_hung [OF that f(3)] by blast
  then show ?thesis using assms(2) f(1,2) by (cases "ds_phase f'") (auto simp: word_neq_0_conv)
next
  case (TaskDynamic f)
  then obtain dw f' where f: "s' = TaskDynamic f'"
    "dynamic_step rt (bc_max_wait_ms cfg) (bc_max_batch_size cfg) dw f e = Some (f', os)"
    using assms(1) by (auto split: option.splits)
  have "dy_phase f' \<noteq> Hung b" for b using f(2)
    by (cases "dy_phase f"; cases e) (auto simp: dynamic_simps split: if_splits)
  then show ?thesis using assms(2) f(1) by (cases "dy_phase f'") auto
qed

definition is_feedback :: "batcher_event \<Rightarrow> bool" where
  "is_feedback e \<longleftrightarrow> (case e of FeedbackRecv fb \<Rightarrow> fb_is_probe fb | _ \<Rightarrow> False)"

lemma duration_step_probe:
  "duration_step rt w n cfg s e = Some (s', os) \<Longrightarrow>
   length (filter fc_is_probe os) + (if ds_inflight s \<and> \<not> is_feedback e then 1 else 0) = (if ds_inflight s' then 1 else 0) \<and>
   (\<forall>f \<in> set os. fc_is_probe f \<longrightarrow> \<not> ds_inflight s \<and> length (fc_batch f) = 1 \<and> fc_wait_ms f = du_min_wait_ms cfg) \<and>
   (\<not> is_feedback e \<longrightarrow> ds_samples s' = ds_samples s)"
  by (cases "ds_phase s"; cases e)
    (auto simp: duration_simps handle_feedback_def is_feedback_def split: if_splits option.splits)

lemma duration_run_probes:
  "run (duration_step rt w n cfg) s es = Some (s', os) \<Longrightarrow>
   length (filter fc_is_probe os) + (if ds_inflight s then 1 else 0) \<le>
     length (filter is_feedback es) + (if ds_inflight s' then 1 else 0)"
proof (induction es arbitrary: s os)
  case Nil
  then show ?case by simp
next
  case (Cons e es)
  from Cons.prems obtain s1 o1 o2 where s: "duration_step rt w n cfg s e = Some (s1, o1)"
    "run (duration_step rt w n cfg) s1 es = Some (s', o2)" "os = o1 @ o2" by (rule run_ConsE)
  show ?case using Cons.IH [OF s(2)] duration_step_probe [OF s(1)] s(3)
    by (auto split: if_splits)
qed

lemma duration_starved:
  "run (duration_step rt w n cfg) s es = Some (s', os) \<Longrightarrow> ds_inflight s \<Longrightarrow> \<forall>e \<in> set es. \<not> is_feedback e \<Longrightarrow>
   filter fc_is_probe os = [] \<and> ds_inflight s' \<and> ds_samples s' = ds_samples s"
proof (induction es arbitrary: s os)
  case Nil
  then show ?case by simp
next
  case (Cons e es)
  from Cons.prems(1) obtain s1 o1 o2 where s: "duration_step rt w n cfg s e = Some (s1, o1)"
    "run (duration_step rt w n cfg) s1 es = Some (s', o2)" "os = o1 @ o2" by (rule run_ConsE)
  have "length (filter fc_is_probe o1) = 0 \<and> ds_inflight s1 \<and> ds_samples s1 = ds_samples s"
    using duration_step_probe [OF s(1)] Cons.prems(2,3) by (auto split: if_splits)
  then show ?case using Cons.IH [OF s(2)] Cons.prems(3) s(3) by auto
qed

subsection \<open>Properties\<close>

text \<open>C20: A batcher task of any kind (fixed, duration, dynamic) flushes the requests of its key in arrival order,
  each exactly once: what has been flushed followed by what is held is what arrived. Every flushed batch is
  non-empty and no larger than the configured size.\<close>

theorem batcher_run_conserves:
  assumes "run (batcher_step rt cfg) (batcher_init hasher key cfg now) es = Some (s, os)"
  shows "flushed os @ task_held s = concat (map arrived es) \<and>
    (\<forall>f \<in> set os. fc_batch f \<noteq> [] \<and> length (fc_batch f) \<le> max 1 (bc_max_batch_size cfg))"
  using task.run_order [OF assms] task.run_sizes [OF _ assms] by simp

definition example_duration :: duration_wait_config where
  "example_duration = \<lparr>du_fraction = Fin 0, du_min_wait_ms = 1, du_probe_interval_ms = 2, du_probe_jitter_ms = 0,
     du_smoothing_samples = 3, du_warmup_probes = 1\<rparr>"

definition example_config :: batcher_config where
  "example_config = \<lparr>bc_max_wait_ms = 10, bc_max_batch_size = 2, bc_dynamic_wait = None,
     bc_duration_wait = Some example_duration\<rparr>"

definition example_policies :: batcher_runtime where
  "example_policies = example_runtime\<lparr>rt_dynamic_wait_policy := sigmoid_wait_ms (\<lambda>x. x),
     rt_duration_wait_policy := duration_wait_ms\<rparr>"

theorem batcher_run_conserves_witness:
  "\<exists>s os. run (batcher_step example_policies (example_config\<lparr>bc_duration_wait := None\<rparr>))
       (batcher_init (\<lambda>_. 0) example_key (example_config\<lparr>bc_duration_wait := None\<rparr>) 0)
       [Recv (example_request ''a'' 1) 5 6, Recv (example_request ''b'' 2) 7 8, Recv (example_request ''c'' 3) 9 9,
        TimerFired] = Some (s, os) \<and>
    (flushed os @ task_held s = concat (map arrived
       [Recv (example_request ''a'' 1) 5 6, Recv (example_request ''b'' 2) 7 8, Recv (example_request ''c'' 3) 9 9,
        TimerFired]) \<and>
     (\<forall>f \<in> set os. fc_batch f \<noteq> [] \<and> length (fc_batch f) \<le> max 1 (bc_max_batch_size (example_config\<lparr>bc_duration_wait := None\<rparr>))))"
proof -
  have "\<exists>s os. run (batcher_step example_policies (example_config\<lparr>bc_duration_wait := None\<rparr>))
       (batcher_init (\<lambda>_. 0) example_key (example_config\<lparr>bc_duration_wait := None\<rparr>) 0)
       [Recv (example_request ''a'' 1) 5 6, Recv (example_request ''b'' 2) 7 8, Recv (example_request ''c'' 3) 9 9,
        TimerFired] = Some (s, os)"
    by (simp add: example_config_def batcher_init_def fixed_fill_def from_millis_def)
  then show ?thesis using batcher_run_conserves by blast
qed

text \<open>C23: A batch never waits longer than the configured maximum: whatever a task holds after a step, it holds with a
  deadline (but for a probe interval of zero, which validation excludes), set when the first request of the batch was taken,
  at most \<open>max_wait_ms\<close> after the later of the two clock readings made then, whatever the rate or the probe durations are, and
  not moved by the events in between; and when the timer that waits for the deadline fires, the task flushes all it holds in
  one call and holds nothing. Wait bounds must be representable as \<open>f64\<close>.\<close>

theorem batch_deadline_bounded:
  assumes "batcher_step rt cfg s e = Some (s', os)" "default_policies fexp rt" "wait_config_ok cfg"
  shows "case task_deadline s' of
      None \<Rightarrow> task_held s' = [] \<or> (\<exists>du. bc_duration_wait cfg = Some du \<and> du_probe_interval_ms du = 0)
    | Some flush_at \<Rightarrow>
        (task_deadline s = Some flush_at \<or> (task_deadline s = None \<and>
          (\<exists>req t1 t2. e = Recv req t1 t2 \<and> flush_at \<le> max t1 t2 + from_millis (bc_max_wait_ms cfg)))) \<and>
        (\<exists>s'' f. batcher_step rt cfg s' TimerFired = Some (s'', [f]) \<and> fc_batch f = task_held s' \<and> task_held s'' = [])"
proof (cases "task_deadline s'")
  case None
  then show ?thesis using held_has_deadline [OF assms(1) None] by simp
next
  case (Some flush_at)
  then show ?thesis
    using task_deadline_bound [OF assms(1) Some assms(2,3)] timer_flushes [OF Some step_fits_config [OF assms(1)]] by simp
qed

theorem batch_deadline_bounded_witness:
  "\<exists>s' os s'' f. batcher_step example_policies (example_config\<lparr>bc_duration_wait := None\<rparr>) (TaskFixed FixedIdle)
      (Recv (example_request ''a'' 1) 5 6) = Some (s', os) \<and> task_deadline s' = Some 10000005 \<and>
    (\<exists>req t1 t2. Recv (example_request ''a'' 1) 5 6 = Recv req t1 t2 \<and>
       10000005 \<le> max t1 t2 + from_millis (bc_max_wait_ms (example_config\<lparr>bc_duration_wait := None\<rparr>))) \<and>
    batcher_step example_policies (example_config\<lparr>bc_duration_wait := None\<rparr>) s' TimerFired = Some (s'', [f]) \<and>
    fc_batch f = [example_request ''a'' 1] \<and> task_held s'' = []"
proof -
  let ?cfg = "example_config\<lparr>bc_duration_wait := None\<rparr>" and ?s = "TaskFixed (FixedFilling [example_request ''a'' 1] 10000005)"
  have s: "batcher_step example_policies ?cfg (TaskFixed FixedIdle) (Recv (example_request ''a'' 1) 5 6) = Some (?s, [])"
    by (simp add: example_config_def fixed_fill_def from_millis_def)
  have p: "default_policies (\<lambda>x. x) example_policies" by (simp add: default_policies_def example_policies_def)
  have c: "wait_config_ok ?cfg" by (simp add: wait_config_ok_def example_config_def)
  have d: "task_deadline ?s = Some 10000005" "task_held ?s = [example_request ''a'' 1]" "task_deadline (TaskFixed FixedIdle) = None"
    by simp_all
  from batch_deadline_bounded [OF s p c, unfolded d option.case] show ?thesis using s d(1) by blast
qed

text \<open>C31: The duration scheduler has at most one probe in flight: in every run the probe flushes outnumber the
  probe feedbacks received by at most one, and every probe is a single request flushed with the minimum wait.\<close>

theorem one_probe_in_flight:
  assumes "run (duration_step rt max_wait n cfg) (duration_init hasher key cfg now) es = Some (s, os)"
  shows "length (filter fc_is_probe os) \<le> length (filter is_feedback es) + 1 \<and>
    (\<forall>f \<in> set os. fc_is_probe f \<longrightarrow> length (fc_batch f) = 1 \<and> fc_wait_ms f = du_min_wait_ms cfg)"
proof -
  have "\<forall>f \<in> set os. fc_is_probe f \<longrightarrow> length (fc_batch f) = 1 \<and> fc_wait_ms f = du_min_wait_ms cfg"
    using run_invariant [OF _ TrueI assms, of "\<lambda>f. fc_is_probe f \<longrightarrow> length (fc_batch f) = 1 \<and> fc_wait_ms f = du_min_wait_ms cfg"]
      duration_step_probe by blast
  then show ?thesis using duration_run_probes [OF assms] by (auto simp: duration_init_def split: if_splits)
qed

theorem one_probe_in_flight_witness:
  "\<exists>s os. run (duration_step example_policies 10 2 example_duration) (duration_init (\<lambda>_. 0) example_key example_duration 0)
      [Recv (example_request ''a'' 1) 2000000 2000001, FeedbackRecv (probe_msg True 4),
       Recv (example_request ''b'' 2) 4000000 4000001] = Some (s, os) \<and>
    map (\<lambda>f. (fc_is_probe f, map pr_id (fc_batch f), fc_wait_ms f)) os = [(True, [''a''], 1), (True, [''b''], 1)] \<and>
    length (filter fc_is_probe os) \<le> length (filter is_feedback [Recv (example_request ''a'' 1) 2000000 2000001,
       FeedbackRecv (probe_msg True 4), Recv (example_request ''b'' 2) 4000000 4000001]) + 1 \<and>
    (\<forall>f \<in> set os. fc_is_probe f \<longrightarrow> length (fc_batch f) = 1 \<and> fc_wait_ms f = du_min_wait_ms example_duration)"
proof -
  have "\<exists>s os. run (duration_step example_policies 10 2 example_duration) (duration_init (\<lambda>_. 0) example_key example_duration 0)
      [Recv (example_request ''a'' 1) 2000000 2000001, FeedbackRecv (probe_msg True 4),
       Recv (example_request ''b'' 2) 4000000 4000001] = Some (s, os) \<and>
    map (\<lambda>f. (fc_is_probe f, map pr_id (fc_batch f), fc_wait_ms f)) os = [(True, [''a''], 1), (True, [''b''], 1)]"
    by (rule run_exists) (simp add: duration_init_def duration_step.simps duration_first_def handle_feedback_def Let_def
        example_duration_def stable_probe_offset_ms_def from_millis_def advance_probe.simps probe_msg_def example_request_def)
  then obtain s os where r: "run (duration_step example_policies 10 2 example_duration) (duration_init (\<lambda>_. 0) example_key example_duration 0)
      [Recv (example_request ''a'' 1) 2000000 2000001, FeedbackRecv (probe_msg True 4),
       Recv (example_request ''b'' 2) 4000000 4000001] = Some (s, os)"
    "map (\<lambda>f. (fc_is_probe f, map pr_id (fc_batch f), fc_wait_ms f)) os = [(True, [''a''], 1), (True, [''b''], 1)]" by (elim exE conjE)
  show ?thesis by (intro exI [of _ s] exI [of _ os] conjI r conjunct1 [OF one_probe_in_flight [OF r(1)]] conjunct2 [OF one_probe_in_flight [OF r(1)]])
qed

text \<open>A probe whose feedback never comes ends probing for the rest of the task's life: while a probe is in
  flight and no probe feedback arrives, no run flushes another probe or changes the samples. Together with the
  flush of a probe that cannot be planned, which reports nothing, one oversized request that happens to be
  picked as the probe disables duration-based waiting for its batch key.\<close>

theorem lost_probe_stops_probing:
  assumes "run (duration_step rt max_wait n cfg) s es = Some (s', os)" "ds_inflight s"
    and "\<not> list_ex is_feedback es"
  shows "filter fc_is_probe os = [] \<and> ds_inflight s' \<and> ds_samples s' = ds_samples s"
  using duration_starved [OF assms(1,2)] assms(3) by (simp add: list_ex_iff)

definition example_probing :: duration_state where
  "example_probing = \<lparr>ds_phase = Idle, ds_next_probe_at = 2, ds_samples = [], ds_inflight = True\<rparr>"

theorem lost_probe_stops_probing_witness:
  "\<exists>s' os. run (duration_step example_policies 10 2 example_duration) example_probing
      [Recv (example_request ''a'' 1) 1 1, FeedbackClosed, TimerFired] = Some (s', os) \<and>
    (filter fc_is_probe os = [] \<and> ds_inflight s' \<and> ds_samples s' = ds_samples example_probing)"
proof -
  have "\<exists>s' os. run (duration_step example_policies 10 2 example_duration) example_probing
      [Recv (example_request ''a'' 1) 1 1, FeedbackClosed, TimerFired] = Some (s', os)"
    by (simp add: duration_step.simps duration_first_def example_probing_def Let_def)
  moreover have "ds_inflight example_probing" by (simp add: example_probing_def)
  ultimately show ?thesis
    using lost_probe_stops_probing [where es = "[Recv (example_request ''a'' 1) 1 1, FeedbackClosed, TimerFired]"]
    by (fastforce simp: is_feedback_def)
qed

text \<open>Moving the probe schedule past the current time terminates exactly when the interval is positive or the
  schedule is already in the future: it then yields the first multiple of the interval after now; with a zero
  interval and a due probe the loop never ends.\<close>

theorem advance_probe_schedule:
  "(if 0 < interval
    then \<exists>k. advance_probe next_at interval now = Some (next_at + k * interval) \<and> now < next_at + k * interval \<and>
          (k = 0 \<or> next_at + (k - 1) * interval \<le> now)
    else advance_probe next_at interval now = (if next_at \<le> now then None else Some next_at))"
proof (cases "0 < interval")
  case True
  then show ?thesis using advance_probe_some [OF True, of next_at now] by (simp only: if_True)
next
  case False
  then show ?thesis
    using advance_probe_hangs [of next_at now] by (cases "next_at \<le> now") (simp, subst advance_probe.simps, simp)
qed

end
