(* ===== verification/Manager.thy ===== *)
theory Manager
  imports Scheduler
begin

text \<open>
  \<open>BatcherManager::enqueue\<close> of \<open>batching/mod.rs\<close>: the map from batch keys to the channels of
  their batcher tasks. Callers of \<open>enqueue\<close> run on many threads, and a batcher task that ends drops
  its receiver and then removes the map entry of its key. Each access to the shared map and each
  \<open>try_send\<close> is atomic; between two of them any other thread or task may act. So a call is a small
  program (\<open>enq_pc\<close> is where it stands) and the manager a partial step function over the actions.
\<close>

subsection \<open>Keys and configurations\<close>

definition batch_key_of :: "operation_config \<Rightarrow> pending_request \<Rightarrow> batch_key" where
  "batch_key_of op req =
     \<lparr>bk_target_lambda = oc_target_lambda op, bk_method = oc_method op, bk_route = oc_route_template op,
      bk_invoke_mode = oc_invoke_mode op, bk_profiling = oc_profiling op,
      bk_key_values = map (\<lambda>dim. case dim of
          HeaderDim name \<Rightarrow> hm_get (pr_key_headers req) name
        | QueryDim name \<Rightarrow> hm_get (pr_query req) name) (oc_key op)\<rparr>"

definition batcher_config_of :: "operation_config \<Rightarrow> batcher_config" where
  "batcher_config_of op =
     \<lparr>bc_max_wait_ms = oc_max_wait_ms op, bc_max_batch_size = oc_max_batch_size op,
      bc_dynamic_wait = oc_dynamic_wait op, bc_duration_wait = oc_duration_wait op\<rparr>"

text \<open>Room in the feedback channel of a duration batcher.\<close>
definition feedback_capacity :: "duration_wait_config \<Rightarrow> nat" where
  "feedback_capacity cfg = max (min (du_smoothing_samples cfg + 2) usize_max) 1"

subsection \<open>State\<close>

text \<open>
  A channel belongs to one batcher task. \<open>ch_received\<close> and \<open>ch_lost\<close> record what left the queue:
  taken by the task, or dropped with the receiver when the task ended.
\<close>

record channel =
  ch_key :: batch_key
  ch_config :: batcher_config
  ch_queue :: "pending_request list"
  ch_open :: bool
  ch_received :: "pending_request list"
  ch_lost :: "pending_request list"
  ch_unregistered :: bool

datatype enqueue_error = QueueFull | BatcherClosed

datatype enq_pc =
    EnqEntry nat
  | EnqSend nat nat
  | EnqRemove nat
  | EnqDone "enqueue_error + unit"

record enq_thread =
  th_op :: operation_config
  th_req :: pending_request
  th_pc :: enq_pc

record manager =
  mg_depth :: nat
  mg_batchers :: "(batch_key, nat) hashmap"
  mg_channels :: "channel list"
  mg_threads :: "enq_thread list"

definition manager_new :: "nat \<Rightarrow> manager" where
  "manager_new max_queue_depth_per_key =
     \<lparr>mg_depth = max_queue_depth_per_key, mg_batchers = [], mg_channels = [], mg_threads = []\<rparr>"

subsection \<open>The steps of one call\<close>

text \<open>\<open>EnqEntry n\<close>: at the head of the loop, with \<open>n\<close> attempts made.\<close>

fun enq_step :: "manager \<Rightarrow> operation_config \<Rightarrow> pending_request \<Rightarrow> enq_pc \<Rightarrow> manager \<times> enq_pc" where
  "enq_step m op req (EnqEntry n) =
     (if 2 \<le> n then (m, EnqDone (Inl BatcherClosed))
      else
        let key = batch_key_of op req in
        case hm_get (mg_batchers m) key of
          Some c \<Rightarrow> (m, EnqSend n c)
        | None \<Rightarrow>
            let c = length (mg_channels m) in
            (m\<lparr>mg_batchers := hm_insert key c (mg_batchers m),
               mg_channels := mg_channels m @
                 [\<lparr>ch_key = key, ch_config = batcher_config_of op, ch_queue = [], ch_open = True,
                   ch_received = [], ch_lost = [], ch_unregistered = False\<rparr>]\<rparr>, EnqSend n c))"
| "enq_step m op req (EnqSend n c) =
     (let ch = mg_channels m ! c in
      if \<not> ch_open ch then (m, EnqRemove n)
      else if mg_depth m \<le> length (ch_queue ch) then (m, EnqDone (Inl QueueFull))
      else (m\<lparr>mg_channels := (mg_channels m)[c := ch\<lparr>ch_queue := ch_queue ch @ [req]\<rparr>]\<rparr>, EnqDone (Inr ())))"
| "enq_step m op req (EnqRemove n) =
     (m\<lparr>mg_batchers := hm_delete (batch_key_of op req) (mg_batchers m)\<rparr>, EnqEntry (n + 1))"
| "enq_step m op req (EnqDone r) = (m, EnqDone r)"

text \<open>A call that nobody interrupts.\<close>

fun enq_run :: "nat \<Rightarrow> manager \<Rightarrow> operation_config \<Rightarrow> pending_request \<Rightarrow> enq_pc \<Rightarrow> manager \<times> enq_pc" where
  "enq_run 0 m op req pc = (m, pc)"
| "enq_run (Suc fuel) m op req pc =
     (let (m, pc) = enq_step m op req pc in enq_run fuel m op req pc)"

definition enqueue :: "manager \<Rightarrow> operation_config \<Rightarrow> pending_request \<Rightarrow> manager \<times> enq_pc" where
  "enqueue m op req = enq_run 7 m op req (EnqEntry 0)"

subsection \<open>The steps of the whole manager\<close>

datatype mgr_event =
    Call operation_config pending_request
  | Go nat
  | TaskRecv nat
  | TaskExit nat
  | TaskUnregister nat

fun mgr_step :: "manager \<Rightarrow> mgr_event \<Rightarrow> (manager \<times> unit list) option" where
  "mgr_step m (Call op req) =
     Some (m\<lparr>mg_threads := mg_threads m @ [\<lparr>th_op = op, th_req = req, th_pc = EnqEntry 0\<rparr>]\<rparr>, [])"
| "mgr_step m (Go i) =
     (if i < length (mg_threads m) then
        let t = mg_threads m ! i;
            (m1, pc) = enq_step m (th_op t) (th_req t) (th_pc t)
        in Some (m1\<lparr>mg_threads := (mg_threads m)[i := t\<lparr>th_pc := pc\<rparr>]\<rparr>, [])
      else None)"
| "mgr_step m (TaskRecv c) =
     (if c < length (mg_channels m) \<and> ch_open (mg_channels m ! c) then
        (case ch_queue (mg_channels m ! c) of
           [] \<Rightarrow> None
         | req # queue \<Rightarrow>
             let ch = mg_channels m ! c
             in Some (m\<lparr>mg_channels := (mg_channels m)[c :=
                   ch\<lparr>ch_queue := queue, ch_received := ch_received ch @ [req]\<rparr>]\<rparr>, []))
      else None)"
| "mgr_step m (TaskExit c) =
     (if c < length (mg_channels m) \<and> ch_open (mg_channels m ! c) then
        let ch = mg_channels m ! c
        in Some (m\<lparr>mg_channels := (mg_channels m)[c :=
              ch\<lparr>ch_open := False, ch_queue := [], ch_lost := ch_lost ch @ ch_queue ch\<rparr>]\<rparr>, [])
      else None)"
| "mgr_step m (TaskUnregister c) =
     (if c < length (mg_channels m) \<and> \<not> ch_open (mg_channels m ! c) \<and> \<not> ch_unregistered (mg_channels m ! c) then
        let ch = mg_channels m ! c
        in Some (m\<lparr>mg_batchers := hm_delete (ch_key ch) (mg_batchers m),
                   mg_channels := (mg_channels m)[c := ch\<lparr>ch_unregistered := True\<rparr>]\<rparr>, [])
      else None)"

subsection \<open>Invariants\<close>

definition ch_all :: "channel \<Rightarrow> pending_request list" where
  "ch_all ch = ch_queue ch @ ch_received ch @ ch_lost ch"

definition pc_ok :: "manager \<Rightarrow> enq_thread \<Rightarrow> bool" where
  "pc_ok m t \<longleftrightarrow> (case th_pc t of
      EnqSend n c \<Rightarrow> c < length (mg_channels m) \<and> ch_key (mg_channels m ! c) = batch_key_of (th_op t) (th_req t)
    | _ \<Rightarrow> True)"

definition chan_ok :: "nat \<Rightarrow> channel \<Rightarrow> bool" where
  "chan_ok depth ch \<longleftrightarrow> length (ch_queue ch) \<le> depth \<and>
     (\<forall>req \<in> set (ch_all ch). \<exists>op. batch_key_of op req = ch_key ch)"

definition core_inv :: "manager \<Rightarrow> bool" where
  "core_inv m \<longleftrightarrow> hm_ok (mg_batchers m) \<and>
     (\<forall>k c. hm_get (mg_batchers m) k = Some c \<longrightarrow> c < length (mg_channels m) \<and> ch_key (mg_channels m ! c) = k) \<and>
     (\<forall>ch \<in> set (mg_channels m). chan_ok (mg_depth m) ch)"

definition mgr_inv :: "manager \<Rightarrow> bool" where
  "mgr_inv m \<longleftrightarrow> core_inv m \<and> (\<forall>t \<in> set (mg_threads m). pc_ok m t)"

definition accepted :: "enq_thread \<Rightarrow> bool" where
  "accepted t \<longleftrightarrow> th_pc t = EnqDone (Inr ())"

definition in_channels :: "manager \<Rightarrow> pending_request multiset" where
  "in_channels m = sum_list (map (\<lambda>ch. mset (ch_all ch)) (mg_channels m))"

definition accounted :: "manager \<Rightarrow> bool" where
  "accounted m \<longleftrightarrow> mset (map th_req (filter accepted (mg_threads m))) = in_channels m"

lemma chan_ok_update:
  "\<forall>ch \<in> set chs. chan_ok n ch \<Longrightarrow> chan_ok n ch' \<Longrightarrow> \<forall>ch \<in> set (chs[c := ch']). chan_ok n ch"
  using set_update_subset_insert [of chs c ch'] by blast

lemma sum_list_update_mset:
  "c < length xs \<Longrightarrow> sum_list (map f (xs[c := y])) + f (xs ! c) = sum_list (map f xs) + (f y :: 'a multiset)"
proof (induction xs arbitrary: c)
  case Nil
  then show ?case by simp
next
  case (Cons x xs)
  then show ?case by (cases c) (simp_all add: add_ac)
qed

lemma core_update:
  assumes "core_inv m" "c < length (mg_channels m)" "ch_key ch' = ch_key (mg_channels m ! c)" "chan_ok (mg_depth m) ch'"
  shows "core_inv (m\<lparr>mg_channels := (mg_channels m)[c := ch']\<rparr>)"
proof -
  have "\<forall>ch \<in> set ((mg_channels m)[c := ch']). chan_ok (mg_depth m) ch"
    using assms(1,4) by (intro chan_ok_update) (auto simp: core_inv_def)
  then show ?thesis using assms(1,2,3) by (auto simp: core_inv_def nth_list_update)
qed

lemma core_delete: "core_inv m \<Longrightarrow> core_inv (m\<lparr>mg_batchers := hm_delete k (mg_batchers m)\<rparr>)"
  by (auto simp: core_inv_def split: if_splits)

definition grows :: "manager \<Rightarrow> manager \<Rightarrow> bool" where
  "grows m m' \<longleftrightarrow> length (mg_channels m) \<le> length (mg_channels m') \<and>
     (\<forall>c < length (mg_channels m). ch_key (mg_channels m' ! c) = ch_key (mg_channels m ! c)) \<and>
     mg_depth m' = mg_depth m"

lemma chan_at: "core_inv m \<Longrightarrow> c < length (mg_channels m) \<Longrightarrow> chan_ok (mg_depth m) (mg_channels m ! c)"
  by (simp add: core_inv_def)

lemma in_channels_update:
  "c < length (mg_channels m) \<Longrightarrow>
   in_channels (m\<lparr>mg_channels := (mg_channels m)[c := ch']\<rparr>) + mset (ch_all (mg_channels m ! c)) =
   in_channels m + mset (ch_all ch')"
  using sum_list_update_mset [of c "mg_channels m" "\<lambda>ch. mset (ch_all ch)" ch'] by (simp add: in_channels_def)

lemma enq_step_facts:
  assumes inv: "core_inv m" and pc: "pc_ok m \<lparr>th_op = op, th_req = req, th_pc = pc\<rparr>"
    and step: "enq_step m op req pc = (m', pc')"
  shows "core_inv m' \<and> pc_ok m' \<lparr>th_op = op, th_req = req, th_pc = pc'\<rparr> \<and> grows m m' \<and>
    mg_threads m' = mg_threads m \<and>
    in_channels m' = in_channels m + (if pc' = EnqDone (Inr ()) \<and> pc \<noteq> EnqDone (Inr ()) then {#req#} else {#})"
proof (cases pc)
  case (EnqEntry n)
  let ?key = "batch_key_of op req"
  show ?thesis
  proof (cases "2 \<le> n \<or> hm_get (mg_batchers m) ?key \<noteq> None")
    case True
    then show ?thesis using EnqEntry inv step
      by (auto simp: grows_def pc_ok_def core_inv_def split: if_splits)
  next
    case False
    let ?ch = "\<lparr>ch_key = ?key, ch_config = batcher_config_of op, ch_queue = [], ch_open = True,
                   ch_received = [], ch_lost = [], ch_unregistered = False\<rparr>"
    have m': "m' = m\<lparr>mg_batchers := hm_insert ?key (length (mg_channels m)) (mg_batchers m),
        mg_channels := mg_channels m @ [?ch]\<rparr>" "pc' = EnqSend n (length (mg_channels m))"
      using False EnqEntry step by (auto simp: Let_def)
    have "chan_ok (mg_depth m) ?ch" by (simp add: chan_ok_def ch_all_def)
    then have "core_inv m'" using inv
      by (auto simp: m' core_inv_def nth_append split: if_splits) (meson less_SucI)
    then show ?thesis using EnqEntry
      by (auto simp: m' grows_def pc_ok_def nth_append in_channels_def ch_all_def)
  qed
next
  case (EnqSend n c)
  have c: "c < length (mg_channels m)" "ch_key (mg_channels m ! c) = batch_key_of op req"
    using pc EnqSend by (auto simp: pc_ok_def)
  let ?ch = "mg_channels m ! c"
  let ?ch' = "?ch\<lparr>ch_queue := ch_queue ?ch @ [req]\<rparr>"
  show ?thesis
  proof (cases "ch_open ?ch \<and> length (ch_queue ?ch) < mg_depth m")
    case False
    then show ?thesis using EnqSend inv step
      by (auto simp: Let_def grows_def pc_ok_def split: if_splits)
  next
    case True
    then have m': "m' = m\<lparr>mg_channels := (mg_channels m)[c := ?ch']\<rparr>" "pc' = EnqDone (Inr ())"
      using EnqSend step by (auto simp: Let_def)
    have ok: "chan_ok (mg_depth m) ?ch'" using chan_at [OF inv c(1)] True c(2)
      by (auto simp: chan_ok_def ch_all_def)
    have "core_inv m'" unfolding m'(1) by (rule core_update [OF inv c(1) _ ok]) simp
    moreover have "in_channels m' = in_channels m + {#req#}"
      using in_channels_update [OF c(1), of ?ch'] by (simp add: m'(1) ch_all_def)
    ultimately show ?thesis using EnqSend c(1) by (auto simp: m' grows_def pc_ok_def nth_list_update)
  qed
next
  case (EnqRemove n)
  then show ?thesis using step core_delete [OF inv] by (auto simp: grows_def pc_ok_def in_channels_def)
next
  case (EnqDone r)
  then show ?thesis using step inv by (auto simp: grows_def pc_ok_def)
qed

lemma pc_ok_grows: "pc_ok m t \<Longrightarrow> grows m m' \<Longrightarrow> pc_ok m' t"
  by (auto simp: grows_def pc_ok_def split: enq_pc.splits)

lemma pc_ok_cong: "mg_channels m' = mg_channels m \<Longrightarrow> pc_ok m' t = pc_ok m t"
  by (cases "th_pc t") (simp_all add: pc_ok_def)

definition accepted_req :: "enq_thread \<Rightarrow> pending_request multiset" where
  "accepted_req t = (if accepted t then {#th_req t#} else {#})"

lemma accepted_reqs: "mset (map th_req (filter accepted ts)) = sum_list (map accepted_req ts)"
  by (induction ts) (auto simp: accepted_req_def)

lemma accounted_sum: "accounted m \<longleftrightarrow> sum_list (map accepted_req (mg_threads m)) = in_channels m"
  by (simp only: accounted_def accepted_reqs)

lemma mgr_step_inv:
  assumes "mgr_inv m" "accounted m" "mgr_step m e = Some (m', os)"
  shows "mgr_inv m' \<and> accounted m' \<and> mg_depth m' = mg_depth m"
proof -
  have core: "core_inv m" and pcs: "\<forall>t \<in> set (mg_threads m). pc_ok m t"
    using assms(1) by (simp_all add: mgr_inv_def)
  have chan: "mgr_inv m' \<and> accounted m' \<and> mg_depth m' = mg_depth m"
    if c: "c < length (mg_channels m)" and key: "ch_key ch' = ch_key (mg_channels m ! c)"
      and ok: "chan_ok (mg_depth m) ch'" and all: "mset (ch_all ch') = mset (ch_all (mg_channels m ! c))"
      and m': "m' = m\<lparr>mg_channels := (mg_channels m)[c := ch']\<rparr> \<or>
        m' = m\<lparr>mg_batchers := hm_delete k (mg_batchers m), mg_channels := (mg_channels m)[c := ch']\<rparr>"
    for c ch' k
  proof -
    let ?m1 = "m\<lparr>mg_channels := (mg_channels m)[c := ch']\<rparr>"
    have core1: "core_inv ?m1" by (rule core_update [OF core c key ok])
    have swap: "m\<lparr>mg_batchers := b, mg_channels := chs\<rparr> = m\<lparr>mg_channels := chs, mg_batchers := b\<rparr>" for b chs
      by (cases m) simp
    have "core_inv m'" using m' core1 core_delete [OF core1, of k] by (auto simp: swap)
    moreover have "grows m m'" using m' key c by (auto simp: grows_def nth_list_update)
    moreover have "in_channels m' = in_channels m"
      using in_channels_update [OF c, of ch'] all m' by (auto simp: in_channels_def)
    moreover have "mg_threads m' = mg_threads m" using m' by auto
    ultimately show ?thesis using pcs assms(2) pc_ok_grows
      by (auto simp: mgr_inv_def accounted_def grows_def)
  qed
  show ?thesis
  proof (cases e)
    case (Call op req)
    then have m': "m' = m\<lparr>mg_threads := mg_threads m @ [\<lparr>th_op = op, th_req = req, th_pc = EnqEntry 0\<rparr>]\<rparr>"
      using assms(3) by simp
    have "pc_ok m' t = pc_ok m t" for t by (rule pc_ok_cong) (simp add: m')
    then show ?thesis using core pcs assms(2)
      by (auto simp: m' mgr_inv_def core_inv_def accounted_def accepted_def in_channels_def pc_ok_def)
  next
    case (Go i)
    then have i: "i < length (mg_threads m)" using assms(3) by (auto split: if_splits)
    let ?t = "mg_threads m ! i"
    obtain m1 pc where s: "enq_step m (th_op ?t) (th_req ?t) (th_pc ?t) = (m1, pc)" by (metis surj_pair)
    have m': "m' = m1\<lparr>mg_threads := (mg_threads m)[i := ?t\<lparr>th_pc := pc\<rparr>]\<rparr>"
      using assms(3) Go i s by (simp add: Let_def)
    have t: "\<lparr>th_op = th_op ?t, th_req = th_req ?t, th_pc = th_pc ?t\<rparr> = ?t"
      "\<lparr>th_op = th_op ?t, th_req = th_req ?t, th_pc = pc\<rparr> = ?t\<lparr>th_pc := pc\<rparr>" by simp_all
    have "pc_ok m \<lparr>th_op = th_op ?t, th_req = th_req ?t, th_pc = th_pc ?t\<rparr>"
      unfolding t(1) using pcs i by simp
    note f = enq_step_facts [OF core this s]
    have pc': "pc_ok m' u = pc_ok m1 u" for u by (rule pc_ok_cong) (simp add: m')
    have "\<forall>u \<in> set ((mg_threads m)[i := ?t\<lparr>th_pc := pc\<rparr>]). pc_ok m1 u"
      using f pcs pc_ok_grows [of m _ m1] set_update_subset_insert [of "mg_threads m" i "?t\<lparr>th_pc := pc\<rparr>"]
      unfolding t(2) by blast
    then have "mgr_inv m'" using f pc' by (auto simp: m' mgr_inv_def core_inv_def)
    moreover have "accounted m'"
    proof -
      have a: "sum_list (map accepted_req ((mg_threads m)[i := ?t\<lparr>th_pc := pc\<rparr>])) + accepted_req ?t =
          sum_list (map accepted_req (mg_threads m)) + accepted_req (?t\<lparr>th_pc := pc\<rparr>)"
        by (rule sum_list_update_mset [OF i])
      have keep: "th_pc ?t = EnqDone (Inr ()) \<Longrightarrow> pc = EnqDone (Inr ())" using s by auto
      have "accepted_req (?t\<lparr>th_pc := pc\<rparr>) = accepted_req ?t +
          (if pc = EnqDone (Inr ()) \<and> th_pc ?t \<noteq> EnqDone (Inr ()) then {#th_req ?t#} else {#})"
        using keep by (auto simp: accepted_req_def accepted_def)
      moreover have "in_channels m' = in_channels m1" by (simp add: m' in_channels_def)
      ultimately show ?thesis using a f assms(2)
        by (simp add: m' accounted_sum)
    qed
    ultimately show ?thesis using f by (simp add: m' grows_def)
  next
    case (TaskRecv c)
    then obtain req queue where q: "c < length (mg_channels m)" "ch_queue (mg_channels m ! c) = req # queue"
      "m' = m\<lparr>mg_channels := (mg_channels m)[c := (mg_channels m ! c)\<lparr>ch_queue := queue,
         ch_received := ch_received (mg_channels m ! c) @ [req]\<rparr>]\<rparr>"
      using assms(3) by (auto simp: Let_def split: if_splits list.splits)
    show ?thesis using chan_at [OF core q(1)] q(2)
      by (intro chan [OF q(1) _ _ _ disjI1 [OF q(3)]]) (auto simp: chan_ok_def ch_all_def)
  next
    case (TaskExit c)
    then have q: "c < length (mg_channels m)"
      "m' = m\<lparr>mg_channels := (mg_channels m)[c := (mg_channels m ! c)\<lparr>ch_open := False, ch_queue := [],
         ch_lost := ch_lost (mg_channels m ! c) @ ch_queue (mg_channels m ! c)\<rparr>]\<rparr>"
      using assms(3) by (auto simp: Let_def split: if_splits)
    show ?thesis using chan_at [OF core q(1)]
      by (intro chan [OF q(1) _ _ _ disjI1 [OF q(2)]]) (auto simp: chan_ok_def ch_all_def)
  next
    case (TaskUnregister c)
    then have q: "c < length (mg_channels m)"
      "m' = m\<lparr>mg_batchers := hm_delete (ch_key (mg_channels m ! c)) (mg_batchers m),
         mg_channels := (mg_channels m)[c := (mg_channels m ! c)\<lparr>ch_unregistered := True\<rparr>]\<rparr>"
      using assms(3) by (auto simp: Let_def split: if_splits)
    show ?thesis using chan_at [OF core q(1)]
      by (intro chan [OF q(1) _ _ _ disjI2 [OF q(2)]]) (auto simp: chan_ok_def ch_all_def)
  qed
qed

lemma mgr_run_inv:
  "run mgr_step m es = Some (m', os) \<Longrightarrow> mgr_inv m \<Longrightarrow> accounted m \<Longrightarrow>
   mgr_inv m' \<and> accounted m' \<and> mg_depth m' = mg_depth m"
proof (induction es arbitrary: m os)
  case Nil
  then show ?case by simp
next
  case (Cons e es)
  from Cons.prems(1) obtain m1 o1 o2 where s: "mgr_step m e = Some (m1, o1)" "run mgr_step m1 es = Some (m', o2)"
    by (rule run_ConsE)
  show ?case using mgr_step_inv [OF Cons.prems(2,3) s(1)] Cons.IH [OF s(2)] by auto
qed

lemma manager_new_inv: "mgr_inv (manager_new n) \<and> accounted (manager_new n)"
  by (simp add: manager_new_def mgr_inv_def core_inv_def accounted_def in_channels_def)

subsection \<open>A call without interference\<close>

lemma enqueue_open:
  assumes "hm_get (mg_batchers m) (batch_key_of op req) = Some c" "ch_open (mg_channels m ! c)"
  shows "enqueue m op req =
    (if length (ch_queue (mg_channels m ! c)) < mg_depth m
     then (m\<lparr>mg_channels := (mg_channels m)[c := (mg_channels m ! c)\<lparr>ch_queue := ch_queue (mg_channels m ! c) @ [req]\<rparr>]\<rparr>,
           EnqDone (Inr ()))
     else (m, EnqDone (Inl QueueFull)))"
  using assms by (simp add: enqueue_def eval_nat_numeral Let_def)

lemma enqueue_result:
  assumes "0 < mg_depth m"
  shows "snd (enqueue m op req) = EnqDone (Inr ()) \<or>
    (snd (enqueue m op req) = EnqDone (Inl QueueFull) \<and>
     (\<exists>c. hm_get (mg_batchers m) (batch_key_of op req) = Some c \<and> mg_depth m \<le> length (ch_queue (mg_channels m ! c))))"
proof (cases "hm_get (mg_batchers m) (batch_key_of op req)")
  case None
  then show ?thesis using assms by (simp add: enqueue_def eval_nat_numeral Let_def)
next
  case (Some c)
  show ?thesis
  proof (cases "ch_open (mg_channels m ! c)")
    case True
    then show ?thesis using Some by (simp add: enqueue_open)
  next
    case False
    then show ?thesis using Some assms by (simp add: enqueue_def eval_nat_numeral Let_def)
  qed
qed

subsection \<open>Properties\<close>

text \<open>Under every interleaving of concurrent calls and ending tasks: a channel only ever holds requests whose
  batch key (target, method, route, mode, profiling and the configured header and query dimensions) is the key
  of its task, so requests with different keys are never batched together; no queue exceeds its depth; and the
  requests of the calls that returned \<open>Ok\<close> are exactly those queued, taken by a task, or dropped by a task
  that ended.\<close>

theorem batch_keys_isolated:
  assumes "run mgr_step (manager_new depth) es = Some (m, os)"
  shows "list_all (\<lambda>ch. length (ch_queue ch) \<le> depth \<and>
      list_all (\<lambda>req. \<exists>op. batch_key_of op req = ch_key ch) (ch_all ch)) (mg_channels m) \<and>
    mset (map th_req (filter accepted (mg_threads m))) = sum_list (map (\<lambda>ch. mset (ch_all ch)) (mg_channels m))"
proof -
  have "mgr_inv m" "accounted m" "mg_depth m = depth"
    using mgr_run_inv [OF assms] manager_new_inv [of depth] by (simp_all add: manager_new_def)
  then show ?thesis
    unfolding mgr_inv_def core_inv_def chan_ok_def accounted_def in_channels_def list_all_iff by blast
qed

definition example_op :: operation_config where
  "example_op = \<lparr>oc_route_template = ''/a'', oc_method = ''GET'', oc_operation_id = None, oc_target_lambda = ''arn'',
     oc_max_wait_ms = 10, oc_max_batch_size = 4, oc_key = [HeaderDim ''x-tenant''], oc_timeout_ms = 100,
     oc_invoke_mode = Buffered, oc_profiling = False, oc_dynamic_wait = None, oc_duration_wait = None\<rparr>"

definition example_events :: "mgr_event list" where
  "example_events = [Call example_op (example_request ''a'' 1), Go 0, Go 0]"

definition example_op_key :: batch_key where
  "example_op_key = batch_key_of example_op (example_request [] 0)"

lemma example_key_of [simp]: "batch_key_of example_op (example_request i c) = example_op_key"
  by (simp add: example_op_key_def batch_key_of_def example_op_def example_request_def)

theorem batch_keys_isolated_witness:
  "\<exists>m os. run mgr_step (manager_new 2) example_events = Some (m, os) \<and>
    (list_all (\<lambda>ch. length (ch_queue ch) \<le> 2 \<and>
      list_all (\<lambda>req. \<exists>op. batch_key_of op req = ch_key ch) (ch_all ch)) (mg_channels m) \<and>
    mset (map th_req (filter accepted (mg_threads m))) = sum_list (map (\<lambda>ch. mset (ch_all ch)) (mg_channels m)))"
proof -
  have "\<exists>m os. run mgr_step (manager_new 2) example_events = Some (m, os)"
    by (simp add: example_events_def manager_new_def Let_def)
  then show ?thesis using batch_keys_isolated by blast
qed

text \<open>A call that nobody interrupts is accepted, or rejected because the queue of its key is full, and in no
  other case: an entry left behind by a task that ended is replaced within the two attempts.\<close>

theorem enqueue_accepts_unless_full:
  assumes "0 < mg_depth m"
  shows "snd (enqueue m op req) = EnqDone (Inr ()) \<or>
    (snd (enqueue m op req) = EnqDone (Inl QueueFull) \<and>
     (\<exists>c. hm_get (mg_batchers m) (batch_key_of op req) = Some c \<and> mg_depth m \<le> length (ch_queue (mg_channels m ! c))))"
  by (rule enqueue_result [OF assms])

theorem enqueue_accepts_unless_full_witness:
  "snd (enqueue (manager_new 2) example_op (example_request ''a'' 1)) = EnqDone (Inr ()) \<or>
    (snd (enqueue (manager_new 2) example_op (example_request ''a'' 1)) = EnqDone (Inl QueueFull) \<and>
     (\<exists>c. hm_get (mg_batchers (manager_new 2)) (batch_key_of example_op (example_request ''a'' 1)) = Some c \<and>
       mg_depth (manager_new 2) \<le> length (ch_queue (mg_channels (manager_new 2) ! c))))"
  by (rule enqueue_accepts_unless_full) (simp add: manager_new_def)

text \<open>Two races of idle eviction that the retry does not cover. A request accepted between the idle timeout
  of a task and the drop of its receiver is dropped with the queue although the call returned \<open>Ok\<close>. And the
  ending task removes whatever entry its key has by then: when a call has already replaced it, the successor
  is unlinked while it runs and the next call starts a second live task for the same key.\<close>

theorem idle_eviction_races:
  "(\<exists>m os. run mgr_step (manager_new 4) (example_events @ [TaskExit 0]) = Some (m, os) \<and>
      accepted (mg_threads m ! 0) \<and> ch_lost (mg_channels m ! 0) = [example_request ''a'' 1]) \<and>
   (\<exists>m os. run mgr_step (manager_new 4)
        (example_events @ [TaskRecv 0, TaskExit 0, Call example_op (example_request ''b'' 2), Go 1, Go 1, Go 1, Go 1, Go 1,
          TaskUnregister 0, Call example_op (example_request ''c'' 3), Go 2, Go 2]) = Some (m, os) \<and>
      ch_open (mg_channels m ! 1) \<and> ch_open (mg_channels m ! 2) \<and>
      ch_key (mg_channels m ! 1) = ch_key (mg_channels m ! 2) \<and>
      ch_queue (mg_channels m ! 1) = [example_request ''b'' 2] \<and> ch_queue (mg_channels m ! 2) = [example_request ''c'' 3])"
  by (simp add: example_events_def manager_new_def Let_def accepted_def)

end
