(* ===== verification/Config.thy ===== *)
theory Config
  imports Spec_Types Text
begin

text \<open>
  \<open>gateway/src/serde_ext.rs\<close> and \<open>gateway/src/config.rs\<close>: numbers and booleans that may come as strings (CloudFormation
  turns YAML scalars into strings), the gateway configuration with its defaults, and its validation. What the
  YAML parser presents to a visitor is a \<open>scalar\<close>; the derived code that walks over the document is reduced to
  looking up its fields.
\<close>

subsection \<open>Lenient scalars\<close>

datatype scalar =
    SBool bool
  | SU64 u64
  | SI64 int
  | SF64 f64
  | SStr string
  | SUnit
  | SOther

definition de_bool_or_string :: "scalar \<Rightarrow> bool res" where
  "de_bool_or_string x =
     (case x of
        SBool v \<Rightarrow> Inr v
      | SStr v \<Rightarrow>
          let s = ascii_lower (trim v) in
          if s \<in> {''1'', ''true'', ''yes'', ''on''} then Inr True
          else if s \<in> {''0'', ''false'', ''no'', ''off''} then Inr False
          else Inl ''expected a string containing a boolean''
      | _ \<Rightarrow> Inl ''a boolean or a string containing a boolean'')"

definition visit_f64 :: "(u64 \<Rightarrow> 'a res) \<Rightarrow> f64 \<Rightarrow> 'a res" where
  "visit_f64 visit_u64 v =
     (if \<not> f_is_finite v \<or> v < Fin 0 then Inl ''expected a non-negative integer''
      else if \<not> f_fract_zero v then Inl ''expected an integer without a fractional part''
      else visit_u64 (f_as_u64 v))"

definition de_u64_or_string :: "scalar \<Rightarrow> u64 res" where
  "de_u64_or_string x =
     (case x of
        SU64 v \<Rightarrow> Inr v
      | SI64 v \<Rightarrow> if v < 0 then Inl ''expected a non-negative integer'' else Inr (of_int v)
      | SF64 v \<Rightarrow> visit_f64 Inr v
      | SStr v \<Rightarrow> (case parse_u64 (trim v) of Some n \<Rightarrow> Inr n | None \<Rightarrow> Inl ''expected a string containing an integer'')
      | _ \<Rightarrow> Inl ''an integer (u64) or a string containing an integer'')"

definition visit_usize :: "u64 \<Rightarrow> nat res" where
  "visit_usize v = (if unat v \<le> usize_max then Inr (unat v) else Inl ''integer is too large for usize'')"

definition de_usize_or_string :: "scalar \<Rightarrow> nat res" where
  "de_usize_or_string x =
     (case x of
        SU64 v \<Rightarrow> visit_usize v
      | SI64 v \<Rightarrow> if v < 0 then Inl ''expected a non-negative integer'' else visit_usize (of_int v)
      | SF64 v \<Rightarrow> visit_f64 visit_usize v
      | SStr v \<Rightarrow> (case parse_u64 (trim v) of Some n \<Rightarrow> visit_usize n | None \<Rightarrow> Inl ''expected a string containing an integer'')
      | _ \<Rightarrow> Inl ''an integer (usize) or a string containing an integer'')"

definition de_option_u64_or_string :: "scalar \<Rightarrow> u64 option res" where
  "de_option_u64_or_string x =
     (case x of
        SUnit \<Rightarrow> Inr None
      | _ \<Rightarrow> (case de_u64_or_string x of Inl e \<Rightarrow> Inl e | Inr v \<Rightarrow> Inr (Some v)))"

text \<open>\<open>str::parse::<f64>\<close>: an optional sign; then \<open>inf\<close>, \<open>infinity\<close> or \<open>nan\<close> in any case, or digits with at most
  one dot, at least one digit, and an optional exponent. The value is rounded once; the model has no \<open>-0\<close>.\<close>

definition split_exponent :: "string \<Rightarrow> (string \<times> int) option" where
  "split_exponent s =
     (case split_once CHR ''e'' (ascii_lower s) of
        None \<Rightarrow> Some (s, 0)
      | Some (m, x) \<Rightarrow>
          (let neg = (case x of c # _ \<Rightarrow> c = CHR ''-'' | [] \<Rightarrow> False);
               ds = (case x of c # r \<Rightarrow> if c = CHR ''-'' \<or> c = CHR ''+'' then r else x | [] \<Rightarrow> x)
           in if ds \<noteq> [] \<and> list_all is_ascii_digit ds
              then Some (m, (if neg then - int (digits_value 0 ds) else int (digits_value 0 ds))) else None))"

definition scale10 :: "nat \<Rightarrow> int \<Rightarrow> f64" where
  "scale10 n e = (if 0 \<le> e then rnd (of_nat n * 10 ^ nat e) else rnd (of_nat n / 10 ^ nat (- e)))"

definition parse_unsigned_f64 :: "string \<Rightarrow> f64 option" where
  "parse_unsigned_f64 s =
     (if ascii_lower s \<in> {''inf'', ''infinity''} then Some PInf
      else if ascii_lower s = ''nan'' then Some NaN
      else case split_exponent s of
        None \<Rightarrow> None
      | Some (m, e) \<Rightarrow>
          (case parse_decimal m of None \<Rightarrow> None | Some (n, places) \<Rightarrow> Some (scale10 n (e - int places))))"

definition parse_f64 :: "string \<Rightarrow> f64 option" where
  "parse_f64 s =
     (case s of
        c # r \<Rightarrow>
          if c = CHR ''-'' then map_option f_neg (parse_unsigned_f64 r)
          else if c = CHR ''+'' then parse_unsigned_f64 r else parse_unsigned_f64 s
      | [] \<Rightarrow> None)"

definition de_f64_or_string :: "scalar \<Rightarrow> f64 res" where
  "de_f64_or_string x =
     (case x of
        SF64 v \<Rightarrow> Inr v
      | SU64 v \<Rightarrow> Inr (f_of_u64 v)
      | SI64 v \<Rightarrow> Inr (f_of_int v)
      | SStr v \<Rightarrow> (case parse_f64 (trim v) of Some y \<Rightarrow> Inr y | None \<Rightarrow> Inl ''expected a string containing a number'')
      | _ \<Rightarrow> Inl ''a number (f64) or a string containing a number'')"

subsection \<open>The configuration\<close>

definition default_max_inflight_invocations :: nat where "default_max_inflight_invocations = 64"
definition default_max_queue_depth_per_key :: nat where "default_max_queue_depth_per_key = 1000"
definition default_idle_ttl_ms :: u64 where "default_idle_ttl_ms = 30000"
definition default_default_timeout_ms :: u64 where "default_default_timeout_ms = 2000"
definition default_max_body_bytes :: nat where "default_max_body_bytes = 1024 * 1024"
definition default_max_invoke_payload_bytes :: nat where "default_max_invoke_payload_bytes = 6 * 1024 * 1024"
definition default_max_inflight_requests :: nat where "default_max_inflight_requests = 4096"
definition default_max_pending_invocations :: nat where "default_max_pending_invocations = 256"

record forward_headers_config =
  fh_allow :: "string list"
  fh_deny :: "string list"

record gateway_config =
  gc_spec :: "openapi_like_spec option"
  gc_aws_region :: "string option"
  gc_max_inflight_invocations :: nat
  gc_max_inflight_requests :: nat
  gc_max_pending_invocations :: nat
  gc_max_queue_depth_per_key :: nat
  gc_idle_ttl_ms :: u64
  gc_default_timeout_ms :: u64
  gc_max_body_bytes :: nat
  gc_max_invoke_payload_bytes :: nat
  gc_forward_headers :: forward_headers_config

text \<open>A document: its nested parts as the derived code reads them, and the scalar fields it has.\<close>

record gateway_doc =
  gd_spec :: "openapi_like_spec option"
  gd_aws_region :: "string option"
  gd_forward_headers :: "forward_headers_config option"
  gd_scalars :: "(string, scalar) hashmap"

definition field_or :: "(scalar \<Rightarrow> 'a res) \<Rightarrow> gateway_doc \<Rightarrow> string \<Rightarrow> 'a \<Rightarrow> 'a res" where
  "field_or de doc name dflt = (case hm_get (gd_scalars doc) name of None \<Rightarrow> Inr dflt | Some x \<Rightarrow> de x)"

definition ensure_non_zero :: "string \<Rightarrow> nat \<Rightarrow> unit res" where
  "ensure_non_zero field v = (if 0 < v then Inr () else Inl (field @ '' must be greater than zero''))"

fun all_ok :: "unit res list \<Rightarrow> unit res" where
  "all_ok [] = Inr ()"
| "all_ok (Inl e # rs) = Inl e"
| "all_ok (Inr u # rs) = all_ok rs"

definition config_validate :: "gateway_config \<Rightarrow> unit res" where
  "config_validate cfg = all_ok
     [ensure_non_zero ''MaxInflightInvocations'' (gc_max_inflight_invocations cfg),
      ensure_non_zero ''MaxInflightRequests'' (gc_max_inflight_requests cfg),
      ensure_non_zero ''MaxPendingInvocations'' (gc_max_pending_invocations cfg),
      ensure_non_zero ''MaxQueueDepthPerKey'' (gc_max_queue_depth_per_key cfg),
      ensure_non_zero ''MaxInvokePayloadBytes'' (gc_max_invoke_payload_bytes cfg)]"

definition bind_res :: "'a res \<Rightarrow> ('a \<Rightarrow> 'b res) \<Rightarrow> 'b res" where
  "bind_res r f = (case r of Inl e \<Rightarrow> Inl e | Inr x \<Rightarrow> f x)"

lemma bind_res_Inr [simp]: "bind_res r f = Inr y \<longleftrightarrow> (\<exists>x. r = Inr x \<and> f x = Inr y)"
  by (auto simp: bind_res_def split: sum.split)

definition config_fields :: "gateway_doc \<Rightarrow> gateway_config res" where
  "config_fields doc =
     bind_res (field_or de_usize_or_string doc ''MaxInflightInvocations'' default_max_inflight_invocations) (\<lambda>a.
     bind_res (field_or de_usize_or_string doc ''MaxInflightRequests'' default_max_inflight_requests) (\<lambda>b.
     bind_res (field_or de_usize_or_string doc ''MaxPendingInvocations'' default_max_pending_invocations) (\<lambda>c.
     bind_res (field_or de_usize_or_string doc ''MaxQueueDepthPerKey'' default_max_queue_depth_per_key) (\<lambda>d.
     bind_res (field_or de_u64_or_string doc ''IdleTtlMs'' default_idle_ttl_ms) (\<lambda>e.
     bind_res (field_or de_u64_or_string doc ''DefaultTimeoutMs'' default_default_timeout_ms) (\<lambda>f.
     bind_res (field_or de_usize_or_string doc ''MaxBodyBytes'' default_max_body_bytes) (\<lambda>g.
     bind_res (field_or de_usize_or_string doc ''MaxInvokePayloadBytes'' default_max_invoke_payload_bytes) (\<lambda>h.
     Inr \<lparr>gc_spec = gd_spec doc, gc_aws_region = gd_aws_region doc, gc_max_inflight_invocations = a,
       gc_max_inflight_requests = b, gc_max_pending_invocations = c, gc_max_queue_depth_per_key = d,
       gc_idle_ttl_ms = e, gc_default_timeout_ms = f, gc_max_body_bytes = g, gc_max_invoke_payload_bytes = h,
       gc_forward_headers = (case gd_forward_headers doc of Some x \<Rightarrow> x | None \<Rightarrow> \<lparr>fh_allow = [], fh_deny = []\<rparr>)\<rparr>))))))))"

definition from_yaml_bytes :: "(bytes \<Rightarrow> gateway_doc res) \<Rightarrow> bytes \<Rightarrow> gateway_config res" where
  "from_yaml_bytes yaml bs =
     bind_res (yaml bs) (\<lambda>doc. bind_res (config_fields doc) (\<lambda>cfg. bind_res (config_validate cfg) (\<lambda>_. Inr cfg)))"

subsection \<open>Properties\<close>

lemma unat_u64: "unat (w :: u64) < 2 ^ 64"
proof -
  have "unat w < 2 ^ LENGTH(64)" by (rule unsigned_less)
  then show ?thesis by simp
qed

lemma trim_dec: "trim (dec n) = dec n"
proof (rule trim_plain)
  have p: "is_ascii_digit c \<Longrightarrow> plain_char c" for c by (auto simp: is_ascii_digit_def plain_char_def)
  show n: "dec n \<noteq> []" by (rule dec_nonempty)
  show "plain_char (hd (dec n))" "plain_char (last (dec n))"
    using digits_dec [of n] p hd_in_set [OF n] last_in_set [OF n] unfolding list_all_iff by blast+
qed

lemma parse_unat: "parse_u64 (trim (dec (unat (w :: u64)))) = Some w"
  using parse_u64_dec [OF unat_u64 [of w]] by (simp add: trim_dec)

lemma visit_usize_all [simp]: "visit_usize v = Inr (unat v)"
  using unat_u64 [of v] by (simp add: visit_usize_def usize_max_def)

text \<open>However a number reaches the configuration, as an unsigned or (where it fits) signed YAML integer or as a decimal
  string with blanks around it, it is the same number.\<close>

theorem number_forms_agree:
  "de_u64_or_string (SU64 w) = Inr w \<and> de_u64_or_string (SStr (dec (unat w))) = Inr w \<and>
   de_u64_or_string (SStr (CHR '' '' # dec (unat w))) = Inr w \<and>
   de_u64_or_string (SI64 (uint w)) = Inr w \<and>
   de_usize_or_string (SU64 w) = Inr (unat w) \<and> de_usize_or_string (SStr (dec (unat w))) = Inr (unat w) \<and>
   de_usize_or_string (SStr (CHR '' '' # dec (unat w))) = Inr (unat w) \<and>
   de_usize_or_string (SI64 (uint w)) = Inr (unat w) \<and>
   de_option_u64_or_string (SStr (dec (unat w))) = Inr (Some w)"
  by (simp add: de_u64_or_string_def de_usize_or_string_def de_option_u64_or_string_def parse_unat trim_space_Cons)

lemma natural_float: "(f_is_finite v \<and> \<not> v < Fin 0 \<and> f_fract_zero v) = (\<exists>n. v = Fin (of_nat n))"
proof
  assume a: "f_is_finite v \<and> \<not> v < Fin 0 \<and> f_fract_zero v"
  then obtain x where v: "v = Fin x" by (cases v) auto
  then have x: "0 \<le> x" "x = of_int (trunc_rat x)" using a by (auto simp: f_fract_zero_def)
  then have "0 \<le> trunc_rat x" by (metis of_int_0_le_iff)
  then have "x = of_nat (nat (trunc_rat x))" using x(2) by (metis of_nat_nat)
  then show "\<exists>n. v = Fin (of_nat n)" using v by blast
next
  assume "\<exists>n. v = Fin (of_nat n)"
  then obtain n where "v = Fin (of_nat n)" by blast
  then show "f_is_finite v \<and> \<not> v < Fin 0 \<and> f_fract_zero v"
    using trunc_rat_of_int [of "int n"] by (simp add: f_fract_zero_def)
qed

lemma float_as_u64: "f_as_u64 (Fin (of_nat n)) = of_nat (min n (2 ^ 64 - 1))"
  using trunc_rat_of_int [of "int n"] by (auto simp: f_as_u64_def min_def)

text \<open>A float is taken for an integer exactly when it is a natural number; one beyond the range of \<open>u64\<close> becomes the
  largest value instead of an error.\<close>

theorem float_as_integer:
  "(de_u64_or_string (SF64 v) = Inr w) = (\<exists>n. v = Fin (of_nat n) \<and> w = of_nat (min n (2 ^ 64 - 1)))"
proof (cases "\<exists>n. v = Fin (of_nat n)")
  case True
  then obtain n where n: "v = Fin (of_nat n)" by blast
  then have "f_is_finite v" "\<not> v < Fin 0" "f_fract_zero v" using natural_float [of v] by blast+
  then show ?thesis by (auto simp: de_u64_or_string_def visit_f64_def n float_as_u64)
next
  case False
  then show ?thesis using natural_float [of v] by (auto simp: de_u64_or_string_def visit_f64_def)
qed

lemma validate_Inr: "config_validate cfg = Inr u \<longleftrightarrow>
    0 < gc_max_inflight_invocations cfg \<and> 0 < gc_max_inflight_requests cfg \<and> 0 < gc_max_pending_invocations cfg \<and>
    0 < gc_max_queue_depth_per_key cfg \<and> 0 < gc_max_invoke_payload_bytes cfg"
  by (auto simp: config_validate_def ensure_non_zero_def)

text \<open>C34: Exactly the documents are accepted whose numbers are all readable and whose five resource caps are not zero (the
  body limit may be); a missing field counts as its default.\<close>

theorem config_accepted_iff:
  "(\<exists>cfg. from_yaml_bytes yaml bs = Inr cfg) =
     (\<exists>doc. yaml bs = Inr doc \<and>
        list_all (\<lambda>(field, dflt). \<exists>n. field_or de_usize_or_string doc field dflt = Inr n \<and> 0 < n)
          [(''MaxInflightInvocations'', 64), (''MaxInflightRequests'', 4096), (''MaxPendingInvocations'', 256),
           (''MaxQueueDepthPerKey'', 1000), (''MaxInvokePayloadBytes'', 6 * 1024 * 1024)] \<and>
        (\<exists>n. field_or de_usize_or_string doc ''MaxBodyBytes'' (1024 * 1024) = Inr n) \<and>
        list_all (\<lambda>(field, dflt). \<exists>w. field_or de_u64_or_string doc field dflt = Inr w)
          [(''IdleTtlMs'', 30000), (''DefaultTimeoutMs'', 2000)])"
  unfolding from_yaml_bytes_def config_fields_def bind_res_Inr validate_Inr
    default_max_inflight_invocations_def default_max_inflight_requests_def default_max_pending_invocations_def
    default_max_queue_depth_per_key_def default_max_invoke_payload_bytes_def default_max_body_bytes_def
    default_idle_ttl_ms_def default_default_timeout_ms_def
  by (simp del: One_nat_def) (intro iff_exI iffI; elim exE conjE; fastforce)

end
