(* ===== verification/Spec.thy ===== *)
theory Spec
  imports Manager
begin

text \<open>
  \<open>gateway/src/spec.rs\<close>: validation of the configured operations, compilation into a route table,
  and matching of a request. The route matcher \<open>matchit\<close> is an argument (\<open>router_lib\<close>): it
  decides whether a template can be added beside others and which template a path matches.
\<close>

subsection \<open>Validation\<close>

definition is_lambda_function_arn :: "string \<Rightarrow> bool" where
  "is_lambda_function_arn v =
     (let val = trim v in
      if \<not> starts_with ''arn:'' val then False
      else
        let parts = split_on CHR '':'' val in
        if length parts < 7 then False
        else if parts ! 2 \<noteq> ''lambda'' then False
        else if parts ! 5 \<noteq> ''function'' then False
        else parts ! 6 \<noteq> [])"

text \<open>One entry of the key list: the dimension it names, or \<open>None\<close> for a part every key has anyway.\<close>

definition parse_dimension :: "ext_lib \<Rightarrow> string \<Rightarrow> batch_key_dimension option res" where
  "parse_dimension ext raw =
     (let entry = trim raw in
      if entry = [] then Inl ''empty key entry''
      else
        let lowered = ascii_lower entry in
        if lowered = ''method'' \<or> lowered = ''route'' \<or> lowered = ''lambda'' \<or> lowered = ''target_lambda'' \<or>
           lowered = ''target-lambda''
        then Inr None
        else (case split_once CHR '':'' entry of
           None \<Rightarrow> Inl (''unsupported key dimension: '' @ entry)
         | Some (kind, rest_of) \<Rightarrow>
             let kind = ascii_lower (trim kind); name = trim rest_of in
             if kind = ''header'' then
               (if name = [] then Inl ''header dimension requires a name''
                else (case header_name_from_bytes ext (ascii_lower name) of
                   Inl e \<Rightarrow> Inl e
                 | Inr header \<Rightarrow> Inr (Some (HeaderDim header))))
             else if kind = ''query'' then
               (if name = [] then Inl ''query dimension requires a name'' else Inr (Some (QueryDim name)))
             else Inl (''unsupported key dimension type: '' @ kind)))"

text \<open>The loop keeps the header and the query names seen so far.\<close>

fun parse_dims_loop ::
  "ext_lib \<Rightarrow> string list \<Rightarrow> string list \<Rightarrow> string list \<Rightarrow> batch_key_dimension list \<Rightarrow> batch_key_dimension list res" where
  "parse_dims_loop ext [] headers queries dims = Inr dims"
| "parse_dims_loop ext (raw # rest) headers queries dims =
     (case parse_dimension ext raw of
        Inl e \<Rightarrow> Inl e
      | Inr None \<Rightarrow> parse_dims_loop ext rest headers queries dims
      | Inr (Some (HeaderDim header)) \<Rightarrow>
          if header \<in> set headers then Inl (''duplicate header dimension: '' @ header)
          else parse_dims_loop ext rest (header # headers) queries (dims @ [HeaderDim header])
      | Inr (Some (QueryDim name)) \<Rightarrow>
          if name \<in> set queries then Inl (''duplicate query dimension: '' @ name)
          else parse_dims_loop ext rest headers (name # queries) (dims @ [QueryDim name]))"

definition parse_batch_key_dimensions :: "ext_lib \<Rightarrow> string list \<Rightarrow> batch_key_dimension list res" where
  "parse_batch_key_dimensions ext raw = parse_dims_loop ext raw [] [] []"

text \<open>A check: \<open>Some msg\<close> is the error of \<open>bail!\<close>, ending with the method and the template.\<close>

definition check_dynamic :: "khone_operation_config \<Rightarrow> dynamic_wait_config \<Rightarrow> string option" where
  "check_dynamic kh dyn =
     (if kh_max_wait_ms kh < dw_min_wait_ms dyn then Some ''x-khone.dynamicWait.minWaitMs must be <= x-khone.maxWaitMs''
      else if dw_sampling_interval_ms dyn = 0 then Some ''x-khone.dynamicWait.samplingIntervalMs must be > 0''
      else if dw_smoothing_samples dyn = 0 then Some ''x-khone.dynamicWait.smoothingSamples must be > 0''
      else if \<not> f_is_finite (dw_target_rps dyn) \<or> dw_target_rps dyn < Fin 0
      then Some ''x-khone.dynamicWait.targetRps must be a finite non-negative number''
      else if \<not> f_is_finite (dw_steepness dyn) \<or> dw_steepness dyn \<le> Fin 0
      then Some ''x-khone.dynamicWait.steepness must be a finite number > 0''
      else None)"

definition check_duration :: "khone_operation_config \<Rightarrow> duration_wait_config \<Rightarrow> string option" where
  "check_duration kh dur =
     (if kh_max_wait_ms kh < du_min_wait_ms dur then Some ''x-khone.durationWait.minWaitMs must be <= x-khone.maxWaitMs''
      else if du_probe_interval_ms dur = 0 then Some ''x-khone.durationWait.probeIntervalMs must be > 0''
      else if du_smoothing_samples dur = 0 then Some ''x-khone.durationWait.smoothingSamples must be > 0''
      else if du_warmup_probes dur = 0 then Some ''x-khone.durationWait.warmupProbes must be > 0''
      else if \<not> f_is_finite (du_fraction dur) \<or> du_fraction dur < Fin 0
      then Some ''x-khone.durationWait.fraction must be a finite non-negative number''
      else None)"

definition add_op ::
  "ext_lib \<Rightarrow> (http_method, operation_config) hashmap \<Rightarrow> string \<Rightarrow> http_method \<Rightarrow> operation option \<Rightarrow> u64 \<Rightarrow>
   (http_method, operation_config) hashmap res" where
  "add_op ext m route_template method opn default_timeout_ms =
     (case opn of
        None \<Rightarrow> Inr m
      | Some op \<Rightarrow>
          let kh = opn_khone op; for_op = '' for '' @ method @ '' '' @ route_template in
          if \<not> is_lambda_function_arn (opn_target_lambda op) then
            Inl (''x-target-lambda must be a Lambda function ARN'' @ for_op @ '' (got: '' @ opn_target_lambda op @ '')'')
          else if kh_max_batch_size kh = 0 then Inl (''x-khone.maxBatchSize must be > 0'' @ for_op)
          else (case parse_batch_key_dimensions ext (kh_key kh) of
             Inl err \<Rightarrow> Inl (''invalid x-khone.key'' @ for_op @ '': '' @ err)
           | Inr key \<Rightarrow>
               let timeout_ms = (case kh_timeout_ms kh of Some t \<Rightarrow> t | None \<Rightarrow> default_timeout_ms) in
               if kh_dynamic_wait kh \<noteq> None \<and> kh_duration_wait kh \<noteq> None then
                 Inl (''x-khone.dynamicWait and x-khone.durationWait are mutually exclusive'' @ for_op)
               else (case bind_option (kh_dynamic_wait kh) (check_dynamic kh) of
                  Some msg \<Rightarrow> Inl (msg @ for_op)
                | None \<Rightarrow>
                    (case bind_option (kh_duration_wait kh) (check_duration kh) of
                       Some msg \<Rightarrow> Inl (msg @ for_op)
                     | None \<Rightarrow>
                         Inr (hm_insert method
                           \<lparr>oc_route_template = route_template, oc_method = method,
                            oc_operation_id = opn_operation_id op, oc_target_lambda = opn_target_lambda op,
                            oc_max_wait_ms = kh_max_wait_ms kh, oc_max_batch_size = kh_max_batch_size kh,
                            oc_key = key, oc_timeout_ms = timeout_ms, oc_invoke_mode = kh_invoke_mode kh,
                            oc_profiling = kh_profiling kh, oc_dynamic_wait = kh_dynamic_wait kh,
                            oc_duration_wait = kh_duration_wait kh\<rparr> m)))))"

subsection \<open>Path templates\<close>

fun template_loop :: "string \<Rightarrow> bool \<Rightarrow> string \<Rightarrow> string \<Rightarrow> string res" where
  "template_loop path in_param param_name [] =
     (if in_param then Inl (''unclosed '' @ [CHR 0x27] @ ''{'' @ [CHR 0x27] @ '' in path template: '' @ path) else Inr path)"
| "template_loop path in_param param_name (ch # chs) =
     (if ch = CHR ''{'' then
        (if in_param then Inl (''nested '' @ [CHR 0x27] @ ''{'' @ [CHR 0x27] @ '' in path template: '' @ path)
         else template_loop path True [] chs)
      else if ch = CHR ''}'' then
        (if \<not> in_param then Inl (''unmatched '' @ [CHR 0x27] @ ''}'' @ [CHR 0x27] @ '' in path template: '' @ path)
         else if param_name = [] then Inl (''empty '' @ [CHR 0x27] @ ''{}'' @ [CHR 0x27] @ '' param in path template: '' @ path)
         else template_loop path False param_name chs)
      else template_loop path in_param (if in_param then param_name @ [ch] else param_name) chs)"

definition openapi_path_to_matchit :: "string \<Rightarrow> string res" where
  "openapi_path_to_matchit path =
     (if \<not> starts_with ''/'' path
      then Inl (''path templates must start with '' @ [CHR 0x27] @ ''/'' @ [CHR 0x27] @ '': '' @ path)
      else template_loop path False [] path)"

subsection \<open>Compilation and matching\<close>

text \<open>
  \<open>router_insert_error ts t\<close>: why \<open>t\<close> cannot be added to the templates \<open>ts\<close>, if so.
  \<open>router_at ts path\<close>: the template of \<open>ts\<close> that matches, with the captured parameters.
\<close>

record router_lib =
  router_insert_error :: "string list \<Rightarrow> string \<Rightarrow> string option"
  router_at :: "string list \<Rightarrow> string \<Rightarrow> (string \<times> (string \<times> string) list) option"

type_synonym route_config = "(http_method, operation_config) hashmap"
type_synonym compiled_spec = "(string \<times> route_config) list"

definition item_operations :: "path_item \<Rightarrow> (http_method \<times> operation option) list" where
  "item_operations item =
     [(''GET'', pi_get item), (''POST'', pi_post item), (''PUT'', pi_put item), (''DELETE'', pi_delete item),
      (''PATCH'', pi_patch item), (''HEAD'', pi_head item), (''OPTIONS'', pi_options item)]"

fun add_ops ::
  "ext_lib \<Rightarrow> string \<Rightarrow> u64 \<Rightarrow> (http_method \<times> operation option) list \<Rightarrow> route_config \<Rightarrow> route_config res" where
  "add_ops ext route_template default_timeout_ms [] m = Inr m"
| "add_ops ext route_template default_timeout_ms ((method, opn) # rest) m =
     (case add_op ext m route_template method opn default_timeout_ms of
        Inl e \<Rightarrow> Inl e
      | Inr m \<Rightarrow> add_ops ext route_template default_timeout_ms rest m)"

fun compile_loop ::
  "ext_lib \<Rightarrow> router_lib \<Rightarrow> u64 \<Rightarrow> (string \<times> path_item) list \<Rightarrow> compiled_spec \<Rightarrow> compiled_spec res" where
  "compile_loop ext rl default_timeout_ms [] router = Inr router"
| "compile_loop ext rl default_timeout_ms ((route_template, item) # rest) router =
     (case openapi_path_to_matchit route_template of
        Inl e \<Rightarrow> Inl e
      | Inr matchit_path \<Rightarrow>
          (case add_ops ext route_template default_timeout_ms (item_operations item) [] of
             Inl e \<Rightarrow> Inl e
           | Inr ops_by_method \<Rightarrow>
               if ops_by_method = [] then compile_loop ext rl default_timeout_ms rest router
               else (case router_insert_error rl (map fst router) matchit_path of
                  Some e \<Rightarrow> Inl e
                | None \<Rightarrow> compile_loop ext rl default_timeout_ms rest (router @ [(matchit_path, ops_by_method)]))))"

definition compile :: "ext_lib \<Rightarrow> router_lib \<Rightarrow> openapi_like_spec \<Rightarrow> u64 \<Rightarrow> compiled_spec res" where
  "compile ext rl spec default_timeout_ms = compile_loop ext rl default_timeout_ms (paths spec) []"

text \<open>The two entry points; \<open>yaml\<close> is \<open>serde_yaml::from_slice\<close>.\<close>

definition spec_from_spec :: "ext_lib \<Rightarrow> router_lib \<Rightarrow> openapi_like_spec \<Rightarrow> u64 \<Rightarrow> compiled_spec res" where
  "spec_from_spec ext rl spec default_timeout_ms = compile ext rl spec default_timeout_ms"

definition spec_from_yaml_bytes ::
  "(bytes \<Rightarrow> openapi_like_spec res) \<Rightarrow> ext_lib \<Rightarrow> router_lib \<Rightarrow> bytes \<Rightarrow> u64 \<Rightarrow> compiled_spec res" where
  "spec_from_yaml_bytes yaml ext rl bs default_timeout_ms =
     (case yaml bs of Inl e \<Rightarrow> Inl e | Inr spec \<Rightarrow> compile ext rl spec default_timeout_ms)"

fun insert_params :: "(string \<times> string) list \<Rightarrow> (string, string) hashmap \<Rightarrow> (string, string) hashmap" where
  "insert_params [] m = m"
| "insert_params ((k, v) # ps) m = insert_params ps (hm_insert k v m)"

definition match_request :: "router_lib \<Rightarrow> compiled_spec \<Rightarrow> http_method \<Rightarrow> string \<Rightarrow> route_match" where
  "match_request rl router method path =
     (case router_at rl (map fst router) path of
        None \<Rightarrow> NotFound
      | Some (template, params) \<Rightarrow>
          (case map_of router template of
             None \<Rightarrow> NotFound
           | Some ops_by_method \<Rightarrow>
               (case hm_get ops_by_method method of
                  Some op \<Rightarrow> Matched op (insert_params params [])
                | None \<Rightarrow> MethodNotAllowed (sort (map fst ops_by_method)))))"

subsection \<open>What validation guarantees\<close>

definition op_valid :: "operation_config \<Rightarrow> bool" where
  "op_valid op \<longleftrightarrow>
     is_lambda_function_arn (oc_target_lambda op) \<and> 0 < oc_max_batch_size op \<and> distinct (oc_key op) \<and>
     (oc_dynamic_wait op = None \<or> oc_duration_wait op = None) \<and>
     (case oc_dynamic_wait op of None \<Rightarrow> True
      | Some d \<Rightarrow> dw_min_wait_ms d \<le> oc_max_wait_ms op \<and> 0 < dw_sampling_interval_ms d \<and> 0 < dw_smoothing_samples d \<and>
          f_is_finite (dw_target_rps d) \<and> f_is_finite (dw_steepness d) \<and> Fin 0 < dw_steepness d) \<and>
     (case oc_duration_wait op of None \<Rightarrow> True
      | Some d \<Rightarrow> du_min_wait_ms d \<le> oc_max_wait_ms op \<and> 0 < du_probe_interval_ms d \<and> 0 < du_smoothing_samples d \<and>
          0 < du_warmup_probes d \<and> f_is_finite (du_fraction d))"

lemma parse_dims_distinct:
  "parse_dims_loop ext raw headers queries dims = Inr dims' \<Longrightarrow> distinct dims \<Longrightarrow>
   (\<forall>h. HeaderDim h \<in> set dims \<longrightarrow> h \<in> set headers) \<Longrightarrow> (\<forall>q. QueryDim q \<in> set dims \<longrightarrow> q \<in> set queries) \<Longrightarrow>
   distinct dims'"
proof (induction raw arbitrary: headers queries dims)
  case Nil
  then show ?case by simp
next
  case (Cons r rest)
  obtain d where d: "parse_dimension ext r = Inr d" using Cons.prems(1) by (auto split: sum.splits)
  show ?case
  proof (cases d)
    case None
    then show ?thesis using Cons d by simp
  next
    case (Some dim)
    show ?thesis
    proof (cases dim)
      case (HeaderDim h)
      then have h: "h \<notin> set headers" "parse_dims_loop ext rest (h # headers) queries (dims @ [HeaderDim h]) = Inr dims'"
        using Cons.prems(1) d Some by (auto split: if_splits)
      show ?thesis by (rule Cons.IH [OF h(2)]) (use Cons.prems h(1) in auto)
    next
      case (QueryDim q)
      then have q: "q \<notin> set queries" "parse_dims_loop ext rest headers (q # queries) (dims @ [QueryDim q]) = Inr dims'"
        using Cons.prems(1) d Some by (auto split: if_splits)
      show ?thesis by (rule Cons.IH [OF q(2)]) (use Cons.prems q(1) in auto)
    qed
  qed
qed

lemma finite_pos: "f_is_finite x \<Longrightarrow> \<not> x \<le> Fin 0 \<Longrightarrow> Fin 0 < x"
  by (cases x) auto

definition route_ops_ok :: "string \<Rightarrow> route_config \<Rightarrow> bool" where
  "route_ops_ok template ops \<longleftrightarrow> hm_ok ops \<and>
     (\<forall>k op. hm_get ops k = Some op \<longrightarrow> oc_method op = k \<and> oc_route_template op = template \<and> op_valid op)"

lemma word_pos: "(w :: u64) \<noteq> 0 \<Longrightarrow> 0 < w"
  by (simp add: word_gt_0)

lemma add_op_valid:
  assumes "add_op ext m rt method opn dt = Inr m'" "opn = Some op"
  shows "\<exists>oc. m' = hm_insert method oc m \<and> oc_method oc = method \<and> oc_route_template oc = rt \<and> op_valid oc \<and>
    oc_target_lambda oc = opn_target_lambda op \<and>
    oc_timeout_ms oc = (case kh_timeout_ms (opn_khone op) of Some t \<Rightarrow> t | None \<Rightarrow> dt)"
proof -
  let ?kh = "opn_khone op"
  from assms obtain key where key: "is_lambda_function_arn (opn_target_lambda op)" "kh_max_batch_size ?kh \<noteq> 0"
    "parse_batch_key_dimensions ext (kh_key ?kh) = Inr key"
    "\<not> (kh_dynamic_wait ?kh \<noteq> None \<and> kh_duration_wait ?kh \<noteq> None)"
    "bind_option (kh_dynamic_wait ?kh) (check_dynamic ?kh) = None"
    "bind_option (kh_duration_wait ?kh) (check_duration ?kh) = None"
    unfolding add_op_def by (auto simp: Let_def split: if_splits sum.splits option.splits)
  have d: "distinct key"
    using key(3) parse_dims_distinct [of ext "kh_key ?kh" "[]" "[]" "[]"] by (simp add: parse_batch_key_dimensions_def)
  have dyn: "case kh_dynamic_wait ?kh of None \<Rightarrow> True
    | Some d \<Rightarrow> dw_min_wait_ms d \<le> kh_max_wait_ms ?kh \<and> 0 < dw_sampling_interval_ms d \<and> 0 < dw_smoothing_samples d \<and>
        f_is_finite (dw_target_rps d) \<and> f_is_finite (dw_steepness d) \<and> Fin 0 < dw_steepness d"
    using key(5) by (auto simp: bind_option_def check_dynamic_def not_less word_pos finite_pos
        split: option.splits if_splits)
  have dur: "case kh_duration_wait ?kh of None \<Rightarrow> True
    | Some d \<Rightarrow> du_min_wait_ms d \<le> kh_max_wait_ms ?kh \<and> 0 < du_probe_interval_ms d \<and> 0 < du_smoothing_samples d \<and>
        0 < du_warmup_probes d \<and> f_is_finite (du_fraction d)"
    using key(6) by (auto simp: bind_option_def check_duration_def not_less word_pos split: option.splits if_splits)
  let ?oc = "\<lparr>oc_route_template = rt, oc_method = method,
       oc_operation_id = opn_operation_id op, oc_target_lambda = opn_target_lambda op,
       oc_max_wait_ms = kh_max_wait_ms ?kh, oc_max_batch_size = kh_max_batch_size ?kh,
       oc_key = key, oc_timeout_ms = (case kh_timeout_ms ?kh of Some t \<Rightarrow> t | None \<Rightarrow> dt), oc_invoke_mode = kh_invoke_mode ?kh,
       oc_profiling = kh_profiling ?kh, oc_dynamic_wait = kh_dynamic_wait ?kh,
       oc_duration_wait = kh_duration_wait ?kh\<rparr>"
  have "add_op ext m rt method opn dt = Inr (hm_insert method ?oc m)"
    using key by (simp add: add_op_def Let_def assms(2))
  then have "m' = hm_insert method ?oc m" using assms(1) by simp
  moreover have "op_valid ?oc"
    unfolding op_valid_def operation_config.simps using key(1,2,4) d dyn dur by blast
  ultimately show ?thesis by (intro exI [of _ ?oc]) simp
qed

lemma add_op_ok:
  assumes "add_op ext m rt method opn dt = Inr m'" "route_ops_ok rt m"
  shows "route_ops_ok rt m'"
proof (cases opn)
  case None
  then show ?thesis using assms by (simp add: add_op_def)
next
  case (Some op)
  from add_op_valid [OF assms(1) Some] show ?thesis
    using assms(2) by (auto simp: route_ops_ok_def split: if_splits)
qed

lemma add_ops_ok: "add_ops ext rt dt ops m = Inr m' \<Longrightarrow> route_ops_ok rt m \<Longrightarrow> route_ops_ok rt m'"
  by (induction ext rt dt ops m rule: add_ops.induct) (auto split: sum.splits dest: add_op_ok)

lemma openapi_path_same: "openapi_path_to_matchit p = Inr q \<Longrightarrow> q = p"
proof -
  have "template_loop path b n chs = Inr q \<Longrightarrow> q = path" for path b n chs
    by (induction path b n chs rule: template_loop.induct) (auto split: if_splits)
  then show "openapi_path_to_matchit p = Inr q \<Longrightarrow> q = p" by (auto simp: openapi_path_to_matchit_def split: if_splits)
qed

definition router_ok :: "compiled_spec \<Rightarrow> bool" where
  "router_ok router \<longleftrightarrow> (\<forall>(t, ops) \<in> set router. route_ops_ok t ops \<and> ops \<noteq> [] \<and> openapi_path_to_matchit t = Inr t)"

lemma compile_loop_ok: "compile_loop ext rl dt items router = Inr router' \<Longrightarrow> router_ok router \<Longrightarrow> router_ok router'"
proof (induction ext rl dt items router rule: compile_loop.induct)
  case (1 ext rl dt router)
  then show ?case by simp
next
  case (2 ext rl dt rt item rest router)
  from "2.prems"(1) obtain mp ops where mp: "openapi_path_to_matchit rt = Inr mp"
    "add_ops ext rt dt (item_operations item) [] = Inr ops" by (auto split: sum.splits)
  have rt: "mp = rt" using openapi_path_same [OF mp(1)] .
  have ok: "route_ops_ok rt ops" by (rule add_ops_ok [OF mp(2)]) (simp add: route_ops_ok_def)
  show ?case
  proof (cases "ops = []")
    case True
    then show ?thesis using "2.IH"(1) [OF mp True] "2.prems" mp by simp
  next
    case False
    then have none: "router_insert_error rl (map fst router) mp = None"
      "compile_loop ext rl dt rest (router @ [(mp, ops)]) = Inr router'"
      using "2.prems"(1) mp by (auto split: option.splits)
    have "router_ok (router @ [(mp, ops)])" using "2.prems"(2) ok False mp rt by (auto simp: router_ok_def)
    then show ?thesis using "2.IH"(2) [OF mp False none(1) none(2)] by simp
  qed
qed

text \<open>The methods a path item configures, and what each entry of the compiled route has from it.\<close>

definition configured_methods :: "path_item \<Rightarrow> http_method list" where
  "configured_methods item = map fst (filter (\<lambda>(m, opn). opn \<noteq> None) (item_operations item))"

definition route_of_item :: "u64 \<Rightarrow> path_item \<Rightarrow> route_config \<Rightarrow> bool" where
  "route_of_item dt item ops \<longleftrightarrow> map fst ops = configured_methods item \<and>
     (\<forall>(m, oc) \<in> set ops. \<exists>opn. (m, Some opn) \<in> set (item_operations item) \<and> oc_target_lambda oc = opn_target_lambda opn \<and>
        oc_timeout_ms oc = (case kh_timeout_ms (opn_khone opn) of Some t \<Rightarrow> t | None \<Rightarrow> dt))"

lemma add_ops_entries:
  "add_ops ext rt dt todo m = Inr m' \<Longrightarrow> distinct (map fst todo) \<Longrightarrow> fst ` set m \<inter> fst ` set todo = {} \<Longrightarrow>
   map fst m' = map fst m @ map fst (filter (\<lambda>(m, opn). opn \<noteq> None) todo) \<and>
   (\<forall>(k, oc) \<in> set m'. (k, oc) \<in> set m \<or> (\<exists>opn. (k, Some opn) \<in> set todo \<and> oc_target_lambda oc = opn_target_lambda opn \<and>
      oc_timeout_ms oc = (case kh_timeout_ms (opn_khone opn) of Some t \<Rightarrow> t | None \<Rightarrow> dt)))"
proof (induction ext rt dt todo m rule: add_ops.induct)
  case (1 ext rt dt m)
  then show ?case by auto
next
  case (2 ext rt dt mth opn rest m)
  from "2.prems"(1) obtain m1 where m1: "add_op ext m rt mth opn dt = Inr m1" "add_ops ext rt dt rest m1 = Inr m'"
    by (auto split: sum.splits)
  show ?case
  proof (cases opn)
    case None
    then have e: "m1 = m" using m1(1) by (simp add: add_op_def)
    have "distinct (map fst rest)" "fst ` set m1 \<inter> fst ` set rest = {}" using "2.prems"(2,3) by (auto simp: e)
    from "2.IH" [OF m1 this] show ?thesis by (simp add: None e)
  next
    case (Some op)
    obtain oc where oc: "m1 = hm_insert mth oc m" "oc_target_lambda oc = opn_target_lambda op"
      "oc_timeout_ms oc = (case kh_timeout_ms (opn_khone op) of Some t \<Rightarrow> t | None \<Rightarrow> dt)"
      using add_op_valid [OF m1(1) Some] by blast
    have "mth \<notin> fst ` set m" using "2.prems"(3) by auto
    then have m: "m1 = m @ [(mth, oc)]" using oc(1) by (simp add: hm_insert_absent)
    have "fst ` set m1 \<inter> fst ` set rest = {}" using "2.prems"(2,3) by (auto simp: m)
    moreover have "distinct (map fst rest)" using "2.prems"(2) by simp
    ultimately have IH: "map fst m' = map fst m1 @ map fst (filter (\<lambda>(m, opn). opn \<noteq> None) rest)"
      "\<And>k oc. (k, oc) \<in> set m' \<Longrightarrow> (k, oc) \<in> set m1 \<or> (\<exists>opn. (k, Some opn) \<in> set rest \<and> oc_target_lambda oc = opn_target_lambda opn \<and>
         oc_timeout_ms oc = (case kh_timeout_ms (opn_khone opn) of Some t \<Rightarrow> t | None \<Rightarrow> dt))"
      using "2.IH" [OF m1] by auto
    have "(k, c) \<in> set m \<or> (\<exists>opn'. (k, Some opn') \<in> set ((mth, opn) # rest) \<and> oc_target_lambda c = opn_target_lambda opn' \<and>
        oc_timeout_ms c = (case kh_timeout_ms (opn_khone opn') of Some t \<Rightarrow> t | None \<Rightarrow> dt))" if kc: "(k, c) \<in> set m'" for k c
    proof -
      consider "(k, c) \<in> set m" | "k = mth" "c = oc" | opn' where "(k, Some opn') \<in> set rest" "oc_target_lambda c = opn_target_lambda opn'"
          "oc_timeout_ms c = (case kh_timeout_ms (opn_khone opn') of Some t \<Rightarrow> t | None \<Rightarrow> dt)"
        using IH(2) [OF kc] m by auto
      then show ?thesis
      proof cases
        case 2
        then show ?thesis using Some oc(2,3) by (intro disjI2 exI [of _ op]) simp
      qed auto
    qed
    then show ?thesis using IH(1) m Some by auto
  qed
qed

lemma item_route: "add_ops ext rt dt (item_operations item) [] = Inr ops \<Longrightarrow> route_of_item dt item ops"
  using add_ops_entries [of ext rt dt "item_operations item" "[]" ops]
  by (auto simp: route_of_item_def configured_methods_def item_operations_def)

lemma compile_loop_items:
  "compile_loop ext rl dt items router = Inr router' \<Longrightarrow>
   \<forall>(t, ops) \<in> set router'. (t, ops) \<in> set router \<or> (\<exists>item. (t, item) \<in> set items \<and> route_of_item dt item ops)"
proof (induction ext rl dt items router rule: compile_loop.induct)
  case (1 ext rl dt router)
  then show ?case by auto
next
  case (2 ext rl dt rt item rest router)
  from "2.prems" obtain mp ops where mp: "openapi_path_to_matchit rt = Inr mp"
    "add_ops ext rt dt (item_operations item) [] = Inr ops" by (auto split: sum.splits)
  have rt: "mp = rt" using openapi_path_same [OF mp(1)] .
  show ?case
  proof (cases "ops = []")
    case True
    then show ?thesis using "2.IH"(1) [OF mp True] "2.prems" mp by fastforce
  next
    case False
    then have none: "router_insert_error rl (map fst router) mp = None"
      "compile_loop ext rl dt rest (router @ [(mp, ops)]) = Inr router'"
      using "2.prems" mp by (auto split: option.splits)
    show ?thesis using "2.IH"(2) [OF mp False none] item_route [OF mp(2)] rt by fastforce
  qed
qed

lemma compiled_routes:
  "compile ext rl spec dt = Inr router \<Longrightarrow> (t, ops) \<in> set router \<Longrightarrow>
   \<exists>item. (t, item) \<in> set (paths spec) \<and> route_of_item dt item ops"
  using compile_loop_items [of ext rl dt "paths spec" "[]" router] by (fastforce simp: compile_def)

subsection \<open>Well-formed templates\<close>

datatype segment = Lit char | Param string

fun render :: "segment \<Rightarrow> string" where
  "render (Lit c) = [c]"
| "render (Param n) = CHR ''{'' # n @ [CHR ''}'']"

fun segment_ok :: "segment \<Rightarrow> bool" where
  "segment_ok (Lit c) \<longleftrightarrow> c \<noteq> CHR ''{'' \<and> c \<noteq> CHR ''}''"
| "segment_ok (Param n) \<longleftrightarrow> n \<noteq> [] \<and> CHR ''{'' \<notin> set n \<and> CHR ''}'' \<notin> set n"

definition template_ok :: "string \<Rightarrow> bool" where
  "template_ok s \<longleftrightarrow> (\<exists>segs. s = concat (map render segs) \<and> list_all segment_ok segs)"

definition param_rest :: "string \<Rightarrow> string \<Rightarrow> bool" where
  "param_rest name s \<longleftrightarrow> (\<exists>n rest. s = n @ CHR ''}'' # rest \<and> CHR ''{'' \<notin> set n \<and> CHR ''}'' \<notin> set n \<and>
     name @ n \<noteq> [] \<and> template_ok rest)"

lemma template_ok_Nil [simp]: "template_ok []"
  by (auto simp: template_ok_def intro!: exI [of _ "[]"])

lemma template_ok_Cons: "template_ok (c # s) \<longleftrightarrow>
  (if c = CHR ''{'' then param_rest [] s else c \<noteq> CHR ''}'' \<and> template_ok s)"
proof
  assume "template_ok (c # s)"
  then obtain segs where segs: "c # s = concat (map render segs)" "list_all segment_ok segs"
    by (auto simp: template_ok_def)
  obtain g gs where g: "segs = g # gs" using segs(1) by (cases segs) auto
  have gs: "template_ok (concat (map render gs))" using segs(2) g by (auto simp: template_ok_def)
  show "if c = CHR ''{'' then param_rest [] s else c \<noteq> CHR ''}'' \<and> template_ok s"
  proof (cases g)
    case (Lit d)
    then show ?thesis using segs g gs by auto
  next
    case (Param n)
    then show ?thesis using segs g gs by (auto simp: param_rest_def)
  qed
next
  assume r: "if c = CHR ''{'' then param_rest [] s else c \<noteq> CHR ''}'' \<and> template_ok s"
  show "template_ok (c # s)"
  proof (cases "c = CHR ''{''")
    case True
    then obtain n segs where "s = n @ CHR ''}'' # concat (map render segs)" "CHR ''{'' \<notin> set n" "CHR ''}'' \<notin> set n"
      "n \<noteq> []" "list_all segment_ok segs" using r by (auto simp: param_rest_def template_ok_def)
    then show ?thesis using True unfolding template_ok_def by (intro exI [of _ "Param n # segs"]) simp
  next
    case False
    then obtain segs where "s = concat (map render segs)" "list_all segment_ok segs" "c \<noteq> CHR ''}''"
      using r by (auto simp: template_ok_def)
    then show ?thesis using False unfolding template_ok_def by (intro exI [of _ "Lit c # segs"]) simp
  qed
qed

lemma param_rest_Cons: "param_rest name (c # s) \<longleftrightarrow>
  (if c = CHR ''{'' then False else if c = CHR ''}'' then name \<noteq> [] \<and> template_ok s else param_rest (name @ [c]) s)"
proof -
  have split: "(\<exists>n rest. c # s = n @ CHR ''}'' # rest \<and> P n rest) \<longleftrightarrow>
      (c = CHR ''}'' \<and> P [] s) \<or> (\<exists>n rest. s = n @ CHR ''}'' # rest \<and> P (c # n) rest)" for P
  proof
    assume "\<exists>n rest. c # s = n @ CHR ''}'' # rest \<and> P n rest"
    then obtain n rest where nr: "c # s = n @ CHR ''}'' # rest" "P n rest" by blast
    then show "(c = CHR ''}'' \<and> P [] s) \<or> (\<exists>n rest. s = n @ CHR ''}'' # rest \<and> P (c # n) rest)"
      by (cases n) auto
  next
    assume "(c = CHR ''}'' \<and> P [] s) \<or> (\<exists>n rest. s = n @ CHR ''}'' # rest \<and> P (c # n) rest)"
    then show "\<exists>n rest. c # s = n @ CHR ''}'' # rest \<and> P n rest"
      by (metis append_Cons append_Nil)
  qed
  show ?thesis unfolding param_rest_def split by auto
qed

lemma template_loop_iff:
  "(\<exists>q. template_loop path in_param name chs = Inr q) \<longleftrightarrow> (if in_param then param_rest name chs else template_ok chs)"
proof (induction path in_param name chs rule: template_loop.induct)
  case (1 path in_param name)
  then show ?case by (auto simp: param_rest_def)
next
  case (2 path in_param name ch chs)
  then show ?case by (auto simp: template_ok_Cons param_rest_Cons split: if_splits)
qed

subsection \<open>Properties\<close>

text \<open>C27: Compilation only yields validated operations: every operation of a compiled route has a Lambda function
  ARN, a positive batch size, distinct key dimensions, at most one adaptive wait policy whose minimum does not
  exceed the maximum and whose intervals and windows are positive; it is filed under its own method and route
  template, and every route has a well-formed template and at least one operation.\<close>

theorem compile_validates:
  assumes "compile ext rl spec default_timeout_ms = Inr router" "(t, ops) \<in> set router"
  shows "hm_ok ops \<and> ops \<noteq> [] \<and> openapi_path_to_matchit t = Inr t \<and>
    (\<forall>k op. hm_get ops k = Some op \<longrightarrow> oc_method op = k \<and> oc_route_template op = t \<and> op_valid op)"
  using compile_loop_ok [OF assms(1) [unfolded compile_def]] assms(2) by (auto simp: router_ok_def route_ops_ok_def)

definition example_operation :: "string \<Rightarrow> operation" where
  "example_operation arn = \<lparr>opn_operation_id = None, opn_target_lambda = arn,
     opn_khone = \<lparr>kh_max_wait_ms = 10, kh_max_batch_size = 4, kh_key = [''method''], kh_timeout_ms = None,
       kh_invoke_mode = Buffered, kh_profiling = False, kh_dynamic_wait = None, kh_duration_wait = None\<rparr>\<rparr>"

definition example_arn :: string where
  "example_arn = ''arn:aws:lambda:r:1:function:f''"

definition example_spec :: "string \<Rightarrow> openapi_like_spec" where
  "example_spec arn = \<lparr>paths = [(''/a/{id}'', \<lparr>pi_get = Some (example_operation arn), pi_post = None, pi_put = None,
     pi_delete = None, pi_patch = None, pi_head = None, pi_options = None\<rparr>)]\<rparr>"

definition example_router :: router_lib where
  "example_router = \<lparr>router_insert_error = (\<lambda>ts t. if t \<in> set ts then Some ''conflict'' else None),
     router_at = (\<lambda>ts path. if path = ''/a/7'' \<and> ''/a/{id}'' \<in> set ts then Some (''/a/{id}'', [(''id'', ''7'')]) else None)\<rparr>"

lemma example_template: "openapi_path_to_matchit ''/a/{id}'' = Inr ''/a/{id}''"
  by (simp add: openapi_path_to_matchit_def starts_with_def)

lemma add_op_None [simp]: "add_op ext m t method None dt = Inr m"
  by (simp add: add_op_def)

lemma example_dims: "parse_batch_key_dimensions ext [''method''] = Inr []"
proof -
  have "trim ''method'' = ''method''" by (rule trim_plain) (simp_all add: plain_char_def)
  moreover have "ascii_lower ''method'' = ''method''" by code_simp
  ultimately show ?thesis by (simp add: parse_batch_key_dimensions_def parse_dimension_def)
qed

lemma example_arn_plain: "trim example_arn = example_arn"
  unfolding example_arn_def by (rule trim_plain) (simp_all add: plain_char_def)

lemma example_arn_ok: "is_lambda_function_arn example_arn" "is_lambda_function_arn ('' '' @ example_arn)"
proof -
  have "is_lambda_function_arn v" if "trim v = example_arn" for v
    unfolding is_lambda_function_arn_def that by (simp add: example_arn_def starts_with_def split_on.simps)
  then show "is_lambda_function_arn example_arn" "is_lambda_function_arn ('' '' @ example_arn)"
    using example_arn_plain by (simp_all add: trim_space_Cons)
qed

lemma example_add_op:
  assumes "is_lambda_function_arn arn"
  shows "\<exists>op. add_op ext [] t ''GET'' (Some (example_operation arn)) dt = Inr [(''GET'', op)] \<and>
    oc_target_lambda op = arn \<and> oc_max_wait_ms op = 10"
proof -
  have u: "opn_target_lambda (example_operation arn) = arn"
    "kh_max_wait_ms (opn_khone (example_operation arn)) = 10" "kh_max_batch_size (opn_khone (example_operation arn)) = 4" "kh_key (opn_khone (example_operation arn)) = [''method'']"
    "kh_dynamic_wait (opn_khone (example_operation arn)) = None" "kh_duration_wait (opn_khone (example_operation arn)) = None"
    by (simp_all only: example_operation_def operation.simps khone_operation_config.simps)
  show ?thesis
    by (rule exI, unfold add_op_def option.case Let_def u example_dims bind_option_def sum.case,
        simp add: assms hm_insert_def, rule conjI, rule refl, simp only: operation_config.simps simp_thms)
qed

lemma example_compiled:
  assumes "is_lambda_function_arn arn"
  shows "\<exists>op. compile example_ext example_router (example_spec arn) 50 = Inr [(''/a/{id}'', [(''GET'', op)])] \<and>
    oc_target_lambda op = arn \<and> oc_max_wait_ms op = 10"
proof -
  obtain op where "add_op example_ext [] ''/a/{id}'' ''GET'' (Some (example_operation arn)) 50 = Inr [(''GET'', op)]"
    "oc_target_lambda op = arn" "oc_max_wait_ms op = 10" using example_add_op [OF assms] by blast
  then show ?thesis
    by (simp add: compile_def example_spec_def example_template item_operations_def example_router_def)
qed

theorem compile_validates_witness:
  "\<exists>router t ops. compile example_ext example_router (example_spec example_arn) 50 = Inr router \<and> (t, ops) \<in> set router \<and>
    (hm_ok ops \<and> ops \<noteq> [] \<and> openapi_path_to_matchit t = Inr t \<and>
     (\<forall>k op. hm_get ops k = Some op \<longrightarrow> oc_method op = k \<and> oc_route_template op = t \<and> op_valid op))"
proof -
  from example_compiled [OF example_arn_ok(1)] obtain op where
    op: "compile example_ext example_router (example_spec example_arn) 50 = Inr [(''/a/{id}'', [(''GET'', op)])]" by blast
  have "(''/a/{id}'', [(''GET'', op)]) \<in> set [(''/a/{id}'', [(''GET'', op)])]" by simp
  then show ?thesis using op compile_validates [OF op] by blast
qed

text \<open>A path template is accepted exactly when it starts with a slash and is a sequence of plain characters and
  non-empty \<open>{name}\<close> parameters without nested or stray braces; it is used unchanged.\<close>

theorem template_accepted_iff:
  "openapi_path_to_matchit path = Inr q \<longleftrightarrow> q = path \<and> starts_with ''/'' path \<and> template_ok path"
  using template_loop_iff [of path False "[]" path] openapi_path_same [of path]
  by (auto simp: openapi_path_to_matchit_def)

lemma match_request_spec:
  assumes "compile ext rl spec default_timeout_ms = Inr router"
    and "\<And>ts p t ps. router_at rl ts p = Some (t, ps) \<Longrightarrow> t \<in> set ts"
  shows "(case match_request rl router mth path of
     NotFound \<Rightarrow> router_at rl (map fst router) path = None
   | Matched op ps \<Rightarrow> oc_method op = mth \<and> op_valid op \<and>
       (\<exists>params. router_at rl (map fst router) path = Some (oc_route_template op, params) \<and> ps = insert_params params [])
   | MethodNotAllowed allowed \<Rightarrow> sorted allowed \<and> distinct allowed \<and> allowed \<noteq> [] \<and> mth \<notin> set allowed)"
proof (cases "router_at rl (map fst router) path")
  case None
  then show ?thesis by (simp add: match_request_def)
next
  case (Some tp)
  obtain t params where tp: "tp = (t, params)" by (cases tp)
  have "t \<in> fst ` set router" using assms(2) Some tp by fastforce
  then obtain ops where ops: "map_of router t = Some ops" by (metis map_of_eq_None_iff not_None_eq)
  have "router_ok router" using compile_loop_ok [OF assms(1) [unfolded compile_def]] by (simp add: router_ok_def)
  then have ok: "route_ops_ok t ops" "ops \<noteq> []" using map_of_SomeD [OF ops] by (auto simp: router_ok_def)
  show ?thesis
  proof (cases "hm_get ops mth")
    case None
    have "length (sort (map fst ops)) \<noteq> 0" using ok(2) by simp
    then have "sort (map fst ops) \<noteq> []" by (metis list.size(3))
    moreover have "mth \<notin> set (sort (map fst ops))" using None by (simp add: hm_get_None_iff)
    moreover have "match_request rl router mth path = MethodNotAllowed (sort (map fst ops))"
      using None Some tp ops by (simp add: match_request_def)
    ultimately show ?thesis using ok(1) by (simp add: route_ops_ok_def)
  next
    case (Some op)
    then show ?thesis using \<open>router_at rl (map fst router) path = Some tp\<close> tp ops ok
      by (auto simp: match_request_def route_ops_ok_def)
  qed
qed

lemma match_request_route:
  assumes "compile ext rl spec default_timeout_ms = Inr router"
    and "\<And>ts p t ps. router_at rl ts p = Some (t, ps) \<Longrightarrow> t \<in> set ts"
    and "router_at rl (map fst router) path = Some (t, params)"
  shows "\<exists>item ops. (t, item) \<in> set (paths spec) \<and> map_of router t = Some ops \<and> route_of_item default_timeout_ms item ops"
proof -
  have "t \<in> fst ` set router" using assms(2) [OF assms(3)] by simp
  then obtain ops where ops: "map_of router t = Some ops" by (metis map_of_eq_None_iff not_None_eq)
  show ?thesis using compiled_routes [OF assms(1) map_of_SomeD [OF ops]] ops by blast
qed

text \<open>C28: Matching a request against a compiled specification: a matched operation is the one the document configures for
  the request's method under the template the router found (with its target and its timeout or the default), and is
  valid; when the path matches but the method does not, the answer lists exactly the methods the document configures for
  that template, in order and without repetition; otherwise no template matched.\<close>

theorem match_request_sound:
  assumes "compile ext rl spec default_timeout_ms = Inr router"
    and "\<And>ts p t ps. router_at rl ts p = Some (t, ps) \<Longrightarrow> t \<in> set ts"
  shows "(case match_request rl router mth path of
     NotFound \<Rightarrow> router_at rl (map fst router) path = None
   | Matched op ps \<Rightarrow> oc_method op = mth \<and> op_valid op \<and>
       (\<exists>params. router_at rl (map fst router) path = Some (oc_route_template op, params) \<and> ps = insert_params params []) \<and>
       (\<exists>item opn. (oc_route_template op, item) \<in> set (paths spec) \<and> (mth, Some opn) \<in> set (item_operations item) \<and>
          oc_target_lambda op = opn_target_lambda opn \<and>
          oc_timeout_ms op = (case kh_timeout_ms (opn_khone opn) of Some t \<Rightarrow> t | None \<Rightarrow> default_timeout_ms))
   | MethodNotAllowed allowed \<Rightarrow> sorted allowed \<and> distinct allowed \<and> allowed \<noteq> [] \<and> mth \<notin> set allowed \<and>
       (\<exists>t params item. router_at rl (map fst router) path = Some (t, params) \<and> (t, item) \<in> set (paths spec) \<and>
          set allowed = set (configured_methods item)))"
proof (cases "match_request rl router mth path")
  case NotFound
  then show ?thesis using match_request_spec [OF assms, where mth = mth and path = path] by simp
next
  case (Matched op ps)
  have m: "oc_method op = mth \<and> op_valid op \<and>
      (\<exists>params. router_at rl (map fst router) path = Some (oc_route_template op, params) \<and> ps = insert_params params [])"
    using match_request_spec [OF assms, where mth = mth and path = path] Matched by simp
  then obtain params where r: "router_at rl (map fst router) path = Some (oc_route_template op, params)" by blast
  obtain item ops where i: "(oc_route_template op, item) \<in> set (paths spec)" "map_of router (oc_route_template op) = Some ops"
    "route_of_item default_timeout_ms item ops" using match_request_route [OF assms(1) _ r] assms(2) by blast
  have "hm_get ops mth = Some op" using Matched r i(2) by (simp add: match_request_def split: option.splits)
  then have "(mth, op) \<in> set ops" by (simp add: hm_get_def map_of_SomeD)
  then obtain opn where "(mth, Some opn) \<in> set (item_operations item)" "oc_target_lambda op = opn_target_lambda opn"
      "oc_timeout_ms op = (case kh_timeout_ms (opn_khone opn) of Some t \<Rightarrow> t | None \<Rightarrow> default_timeout_ms)"
    using i(3) by (fastforce simp: route_of_item_def)
  then show ?thesis using Matched m i(1) by auto
next
  case (MethodNotAllowed allowed)
  obtain t params where r: "router_at rl (map fst router) path = Some (t, params)"
    using MethodNotAllowed by (auto simp: match_request_def split: option.splits)
  obtain item ops where i: "(t, item) \<in> set (paths spec)" "map_of router t = Some ops" "route_of_item default_timeout_ms item ops"
    using match_request_route [OF assms(1) _ r] assms(2) by blast
  have "allowed = sort (map fst ops)" using MethodNotAllowed r i(2) by (simp add: match_request_def split: option.splits)
  then have "set allowed = set (configured_methods item)" using i(3) by (simp add: route_of_item_def)
  then show ?thesis using MethodNotAllowed match_request_spec [OF assms, where mth = mth and path = path] r i(1) by auto
qed

theorem match_request_sound_witness:
  "\<exists>router. compile example_ext example_router (example_spec example_arn) 50 = Inr router \<and>
    match_request example_router router ''POST'' ''/a/7'' = MethodNotAllowed [''GET''] \<and>
    (\<exists>t params item. router_at example_router (map fst router) ''/a/7'' = Some (t, params) \<and>
       (t, item) \<in> set (paths (example_spec example_arn)) \<and> set [''GET''] = set (configured_methods item)) \<and>
    (\<exists>op ps. match_request example_router router ''GET'' ''/a/7'' = Matched op ps \<and> op_valid op \<and>
       oc_route_template op = ''/a/{id}'' \<and> oc_target_lambda op = example_arn)"
proof -
  from example_compiled [OF example_arn_ok(1)] obtain op where
    r: "compile example_ext example_router (example_spec example_arn) 50 = Inr [(''/a/{id}'', [(''GET'', op)])]"
    and t: "oc_target_lambda op = example_arn" by blast
  have law: "router_at example_router ts p = Some (t, ps) \<Longrightarrow> t \<in> set ts" for ts p t ps
    by (auto simp: example_router_def split: if_splits)
  have m: "match_request example_router [(''/a/{id}'', [(''GET'', op)])] ''POST'' ''/a/7'' = MethodNotAllowed [''GET'']"
    "match_request example_router [(''/a/{id}'', [(''GET'', op)])] ''GET'' ''/a/7'' = Matched op (insert_params [(''id'', ''7'')] [])"
    by (simp_all add: match_request_def example_router_def hm_get_def)
  have "router_at example_router (map fst [(''/a/{id}'', [(''GET'', op)])]) ''/a/7'' = Some (''/a/{id}'', [(''id'', ''7'')])"
    by (simp add: example_router_def)
  then show ?thesis
    using r t m match_request_sound [OF r law, where mth = "''POST''" and path = "''/a/7''"] match_request_sound [OF r law, where mth = "''GET''" and path = "''/a/7''"]
    by (intro exI [of _ "[(''/a/{id}'', [(''GET'', op)])]"]) auto
qed

text \<open>What a compiled operation means for its batcher: the policies are within their bounds, so (for waits that
  an \<open>f64\<close> represents) no batch waits longer than the configured maximum, and the probe loop of the duration
  scheduler terminates at every request.\<close>

theorem compiled_operation_schedulable:
  assumes "compile ext rl spec default_timeout_ms = Inr router" "(t, ops) \<in> set router" "hm_get ops method = Some op"
    and "unat (oc_max_wait_ms op) \<le> 2 ^ 53"
  shows "wait_config_ok (batcher_config_of op) \<and>
    (\<forall>cfg s e s' os. bc_duration_wait (batcher_config_of op) = Some cfg \<longrightarrow> (\<forall>b. ds_phase s \<noteq> Hung b) \<longrightarrow>
       duration_step rt (oc_max_wait_ms op) (oc_max_batch_size op) cfg s e = Some (s', os) \<longrightarrow> (\<forall>b. ds_phase s' \<noteq> Hung b))"
proof -
  have "router_ok router" using compile_loop_ok [OF assms(1) [unfolded compile_def]] by (simp add: router_ok_def)
  then have v: "op_valid op" using assms(2,3) by (auto simp: router_ok_def route_ops_ok_def)
  have "wait_config_ok (batcher_config_of op)"
    using v assms(4) by (auto simp: wait_config_ok_def batcher_config_of_def op_valid_def split: option.splits)
  moreover have "0 < du_probe_interval_ms cfg" if "bc_duration_wait (batcher_config_of op) = Some cfg" for cfg
    using v that by (auto simp: batcher_config_of_def op_valid_def)
  ultimately show ?thesis using duration_not_hung by blast
qed

theorem compiled_operation_schedulable_witness:
  "\<exists>router t ops op. compile example_ext example_router (example_spec example_arn) 50 = Inr router \<and>
    (t, ops) \<in> set router \<and> hm_get ops ''GET'' = Some op \<and>
    unat (oc_max_wait_ms op) \<le> 2 ^ 53 \<and> wait_config_ok (batcher_config_of op) \<and>
    (\<forall>cfg s e s' os. bc_duration_wait (batcher_config_of op) = Some cfg \<longrightarrow> (\<forall>b. ds_phase s \<noteq> Hung b) \<longrightarrow>
       duration_step example_policies (oc_max_wait_ms op) (oc_max_batch_size op) cfg s e = Some (s', os) \<longrightarrow>
       (\<forall>b. ds_phase s' \<noteq> Hung b))"
proof -
  from example_compiled [OF example_arn_ok(1)] obtain op where
    r: "compile example_ext example_router (example_spec example_arn) 50 = Inr [(''/a/{id}'', [(''GET'', op)])]"
    and w: "oc_max_wait_ms op = 10" by blast
  have b: "unat (oc_max_wait_ms op) \<le> 2 ^ 53" by (simp add: w)
  have m: "(''/a/{id}'', [(''GET'', op)]) \<in> set [(''/a/{id}'', [(''GET'', op)])]" "hm_get [(''GET'', op)] ''GET'' = Some op"
    by simp_all
  show ?thesis using r m b compiled_operation_schedulable [OF r m b, of example_policies] by blast
qed

text \<open>Validation looks at the trimmed target but keeps the text as written: a specification whose target is a
  Lambda ARN with a blank before it compiles, and the compiled operation invokes the padded name.\<close>

theorem padded_target_accepted:
  "\<exists>op. compile example_ext example_router (example_spec ('' '' @ example_arn)) 50 = Inr [(''/a/{id}'', [(''GET'', op)])] \<and>
    oc_target_lambda op = '' '' @ example_arn \<and> trim (oc_target_lambda op) \<noteq> oc_target_lambda op"
proof -
  have "trim ('' '' @ example_arn) \<noteq> '' '' @ example_arn"
    by (simp add: trim_space_Cons example_arn_plain)
  then show ?thesis using example_compiled [OF example_arn_ok(2)] by metis
qed

end
