(* ===== verification/Setup.thy ===== *)
theory Setup
  imports Config Spec
begin

text \<open>
  What the process does before it serves (\<open>gateway/src/main.rs\<close>, \<open>gateway/src/location.rs\<close> and the switch in
  \<open>metrics.rs\<close>): where the configuration is, what the environment says about tracing, and how the document
  becomes a validated configuration and a compiled specification. The environment is a function; parsing a URL
  and YAML, reading the document and building the exporters belong to libraries.
\<close>

type_synonym environment = "string \<Rightarrow> string option"

subsection \<open>The environment\<close>

definition resolve_config_location :: "environment \<Rightarrow> string res" where
  "resolve_config_location env =
     (case env ''KHONE_CONFIG_URI'' of
        Some v \<Rightarrow> if trim v \<noteq> [] then Inr v else Inl ''missing config location: set KHONE_CONFIG_URI''
      | None \<Rightarrow> Inl ''missing config location: set KHONE_CONFIG_URI'')"

definition env_missing_or_empty :: "environment \<Rightarrow> string \<Rightarrow> bool" where
  "env_missing_or_empty env name = (case env name of Some v \<Rightarrow> trim v = [] | None \<Rightarrow> True)"

text \<open>The first variable that is set decides, also when it is blank.\<close>

definition first_set :: "environment \<Rightarrow> string list \<Rightarrow> string option" where
  "first_set env names = (case List.map_filter env names of [] \<Rightarrow> None | v # _ \<Rightarrow> Some v)"

definition non_blank :: "string option \<Rightarrow> string option" where
  "non_blank v = (case v of None \<Rightarrow> None | Some s \<Rightarrow> if s = [] then None else Some s)"

definition otlp_traces_endpoint_env :: "environment \<Rightarrow> string option" where
  "otlp_traces_endpoint_env env =
     non_blank (map_option trim (first_set env [''OTEL_EXPORTER_OTLP_TRACES_ENDPOINT'', ''OTEL_EXPORTER_OTLP_ENDPOINT'']))"

definition otlp_traces_protocol_env :: "environment \<Rightarrow> string option" where
  "otlp_traces_protocol_env env =
     non_blank (map_option (\<lambda>v. ascii_lower (trim v))
       (first_set env [''OTEL_EXPORTER_OTLP_TRACES_PROTOCOL'', ''OTEL_EXPORTER_OTLP_PROTOCOL'']))"

definition default_otlp_traces_protocol :: "environment \<Rightarrow> string" where
  "default_otlp_traces_protocol env =
     (case non_blank (map_option trim (env ''OTEL_EXPORTER_OTLP_ENDPOINT'')) of
        Some endpoint \<Rightarrow> if sublist ''localhost:4317'' endpoint then ''grpc'' else ''http/protobuf''
      | None \<Rightarrow> ''http/protobuf'')"

text \<open>\<open>env_truthy\<close> of \<open>metrics.rs\<close>.\<close>

definition env_truthy :: "environment \<Rightarrow> string \<Rightarrow> bool" where
  "env_truthy env name =
     (case map_option trim (env name) of
        Some v \<Rightarrow> v \<in> {''1'', ''true'', ''TRUE'', ''yes'', ''YES'', ''on'', ''ON''}
      | None \<Rightarrow> False)"

subsection \<open>The exporter headers\<close>

definition unreserved :: "char \<Rightarrow> bool" where
  "unreserved b \<longleftrightarrow> (65 \<le> byte b \<and> byte b \<le> 90) \<or> (97 \<le> byte b \<and> byte b \<le> 122) \<or> is_ascii_digit b \<or>
     b \<in> {CHR ''-'', CHR ''.'', CHR ''_'', CHR ''~''}"

definition hex_digit :: "nat \<Rightarrow> char" where
  "hex_digit n = (if n < 10 then char_of (48 + n) else char_of (55 + n))"

definition url_encode_header_value :: "string \<Rightarrow> string" where
  "url_encode_header_value v =
     concat (map (\<lambda>b. if unreserved b then [b] else [CHR ''%'', hex_digit (byte b div 16), hex_digit (byte b mod 16)]) v)"

text \<open>The parts \<open>key=value\<close> of the header list, or the reason why the secret is refused.\<close>

fun header_parts :: "(string \<times> json) list \<Rightarrow> string list res" where
  "header_parts [] = Inr []"
| "header_parts ((k, v) # rest) =
     (if trim k = [] then Inl ''KHONE_OTEL_HEADERS_JSON contains an empty header name''
      else case json_as_str v of
        None \<Rightarrow> Inl ''KHONE_OTEL_HEADERS_JSON header values must be strings''
      | Some value \<Rightarrow>
          if trim value = [] then Inl (''KHONE_OTEL_HEADERS_JSON contains an empty value for header '' @ trim k)
          else (case header_parts rest of
                  Inl e \<Rightarrow> Inl e
                | Inr parts \<Rightarrow> Inr ((trim k @ ''='' @ url_encode_header_value (trim value)) # parts)))"

fun comma_join :: "string list \<Rightarrow> string" where
  "comma_join [] = []"
| "comma_join [x] = x"
| "comma_join (x # y # xs) = x @ '','' @ comma_join (y # xs)"

definition json_as_object :: "json \<Rightarrow> (string \<times> json) list option" where
  "json_as_object j = (case j of JObject m \<Rightarrow> Some m | _ \<Rightarrow> None)"

definition try_set_otlp_headers_from_json_secret :: "ext_lib \<Rightarrow> environment \<Rightarrow> environment res" where
  "try_set_otlp_headers_from_json_secret ext env =
     (if \<not> env_missing_or_empty env ''OTEL_EXPORTER_OTLP_HEADERS'' \<or>
         \<not> env_missing_or_empty env ''OTEL_EXPORTER_OTLP_TRACES_HEADERS'' then Inr env
      else case env ''KHONE_OTEL_HEADERS_JSON'' of
        None \<Rightarrow> Inr env
      | Some raw \<Rightarrow>
          if trim raw = [] then Inr env
          else (case json_from_slice ext raw of
             Inl _ \<Rightarrow> Inl ''parse KHONE_OTEL_HEADERS_JSON as JSON''
           | Inr parsed \<Rightarrow>
               (case json_as_object parsed of
                  None \<Rightarrow> Inl ''KHONE_OTEL_HEADERS_JSON must be a JSON object''
                | Some obj \<Rightarrow>
                    (case header_parts obj of
                       Inl e \<Rightarrow> Inl e
                     | Inr parts \<Rightarrow>
                         if parts = [] then Inl ''KHONE_OTEL_HEADERS_JSON must contain at least one header''
                         else Inr (env(''OTEL_EXPORTER_OTLP_HEADERS'' := Some (comma_join parts)))))))"

text \<open>\<open>init_logging_and_tracing\<close>: \<open>None\<close> when tracing is off, else the environment it leaves behind and the exporter.\<close>

definition set_default :: "string \<Rightarrow> string \<Rightarrow> environment \<Rightarrow> environment" where
  "set_default name v env = (if env_missing_or_empty env name then env(name := Some v) else env)"

definition otlp_exporter :: "environment \<Rightarrow> string res" where
  "otlp_exporter env =
     (let protocol = (case otlp_traces_protocol_env env of Some p \<Rightarrow> p | None \<Rightarrow> default_otlp_traces_protocol env)
      in if protocol \<in> {''grpc'', ''http/protobuf''} then Inr protocol
         else Inl (''unsupported OTLP traces protocol: '' @ protocol))"

definition init_tracing :: "ext_lib \<Rightarrow> environment \<Rightarrow> (environment \<times> string) option res" where
  "init_tracing ext env =
     (if otlp_traces_endpoint_env env = None then Inr None
      else case try_set_otlp_headers_from_json_secret ext
          (set_default ''OTEL_METRICS_EXPORTER'' ''none'' (set_default ''OTEL_PROPAGATORS'' ''xray,tracecontext,baggage'' env)) of
        Inl e \<Rightarrow> Inl ''configure OTLP headers''
      | Inr env \<Rightarrow> map_sum id (\<lambda>protocol. Some (env, protocol)) (otlp_exporter env))"

subsection \<open>The document and the start\<close>

datatype document_location = FileLocation string | S3Location string string

record parsed_url =
  pu_scheme :: string
  pu_host :: "string option"
  pu_path :: string
  pu_file_path :: "string option"

definition location_parse :: "(string \<Rightarrow> parsed_url option) \<Rightarrow> string \<Rightarrow> document_location res" where
  "location_parse url_parse s =
     (case url_parse s of
        Some url \<Rightarrow>
          if pu_scheme url = ''s3'' then
            (case pu_host url of
               None \<Rightarrow> Inl ''s3 uri must include a bucket name''
             | Some bucket \<Rightarrow>
                 (let key = dropWhile (\<lambda>c. c = CHR ''/'') (pu_path url)
                  in if key = [] then Inl ''s3 uri must include a key (path)'' else Inr (S3Location bucket key)))
          else if pu_scheme url = ''file'' then
            (case pu_file_path url of None \<Rightarrow> Inl ''invalid file:// uri'' | Some path \<Rightarrow> Inr (FileLocation path))
          else Inr (FileLocation s)
      | None \<Rightarrow> Inr (FileLocation s))"

text \<open>\<open>main\<close> from the document's bytes to what \<open>server::run\<close> gets: the specification is taken out of the configuration.\<close>

definition load_gateway ::
  "(bytes \<Rightarrow> gateway_doc res) \<Rightarrow> ext_lib \<Rightarrow> router_lib \<Rightarrow> bytes \<Rightarrow> (gateway_config \<times> compiled_spec) res" where
  "load_gateway yaml ext rl cfg_bytes =
     (case from_yaml_bytes yaml cfg_bytes of
        Inl e \<Rightarrow> Inl e
      | Inr cfg \<Rightarrow>
          (case gc_spec cfg of
             None \<Rightarrow> Inl ''gateway config is missing `Spec`''
           | Some spec_doc \<Rightarrow>
               (case compile ext rl spec_doc (gc_default_timeout_ms cfg) of
                  Inl e \<Rightarrow> Inl e
                | Inr spec \<Rightarrow> Inr (cfg\<lparr>gc_spec := None\<rparr>, spec))))"

definition start_location :: "environment \<Rightarrow> (string \<Rightarrow> parsed_url option) \<Rightarrow> document_location res" where
  "start_location env url_parse =
     (case resolve_config_location env of Inl e \<Rightarrow> Inl e | Inr loc \<Rightarrow> location_parse url_parse loc)"

subsection \<open>Properties\<close>

definition hex_value :: "char \<Rightarrow> nat" where
  "hex_value c = (if is_ascii_digit c then byte c - 48 else byte c - 55)"

text \<open>What the exporter does with a header value.\<close>

fun percent_decode :: "string \<Rightarrow> string" where
  "percent_decode [] = []"
| "percent_decode (c # cs) =
     (if c = CHR ''%'' then (case cs of a # b # r \<Rightarrow> char_of (16 * hex_value a + hex_value b) # percent_decode r | _ \<Rightarrow> [])
      else c # percent_decode cs)"

lemma hex_digit_props: "n < 16 \<Longrightarrow> hex_value (hex_digit n) = n \<and> unreserved (hex_digit n)"
  by (cases "n < 10") (auto simp: hex_value_def hex_digit_def unreserved_def is_ascii_digit_def)

lemma byte_bound: "byte b < 256"
  by (metis of_char_mod_256 mod_less_divisor zero_less_numeral)

lemma unreserved_percent: "\<not> unreserved CHR ''%''"
  by (simp add: unreserved_def is_ascii_digit_def)

text \<open>An exporter header value survives the list syntax it is put into: decoding gives it back, and its encoding holds no
  comma, equals sign or blank, only unreserved characters and escapes.\<close>

theorem header_value_round_trip:
  "percent_decode (url_encode_header_value v) = v \<and>
   list_all (\<lambda>c. unreserved c \<or> c = CHR ''%'') (url_encode_header_value v)"
proof (induction v)
  case Nil
  then show ?case by (simp add: url_encode_header_value_def)
next
  case (Cons b v)
  show ?case
  proof (cases "unreserved b")
    case True
    then have "b \<noteq> CHR ''%''" using unreserved_percent by auto
    then show ?thesis using Cons True by (simp add: url_encode_header_value_def)
  next
    case False
    have b: "byte b div 16 < 16" "byte b mod 16 < 16" using byte_bound [of b] by (simp_all add: less_mult_imp_div_less)
    have "16 * (byte b div 16) + byte b mod 16 = byte b" by simp
    then have "char_of (16 * (byte b div 16) + byte b mod 16) = b" by (simp only: char_of_char)
    then show ?thesis using Cons False hex_digit_props [OF b(1)] hex_digit_props [OF b(2)]
      by (simp add: url_encode_header_value_def)
  qed
qed

text \<open>A blank endpoint for traces hides the general endpoint, although a blank variable counts as missing everywhere else.\<close>

lemma blank_endpoint_hides_general:
  "env ''OTEL_EXPORTER_OTLP_TRACES_ENDPOINT'' = Some [] \<Longrightarrow> init_tracing ext env = Inr None"
  by (simp add: init_tracing_def otlp_traces_endpoint_env_def first_set_def non_blank_def List.map_filter_def)

lemma load_gateway_Inr:
  "load_gateway yaml ext rl bs = Inr (cfg, spec) \<Longrightarrow>
     \<exists>full doc. from_yaml_bytes yaml bs = Inr full \<and> cfg = full\<lparr>gc_spec := None\<rparr> \<and> gc_spec full = Some doc \<and>
       compile ext rl doc (gc_default_timeout_ms full) = Inr spec"
  by (auto simp: load_gateway_def split: sum.splits option.splits)

end
