(* ===== verification/Server.thy ===== *)
theory Server
  imports Manager Setup
begin

text \<open>
  \<open>gateway/src/server.rs\<close>: the catch-all HTTP handler with the header policy, admission control, the
  hand-over to the batchers and the waiting for the answer, and the counters of \<open>metrics.rs\<close> that it
  keeps. Requests run concurrently: each handler is a small program (\<open>http_phase\<close> is the await at which it
  stands) over the shared semaphore and the counter of active requests; bodies, answers, timeouts
  and cancellations are events. The span of a request is in \<open>Request_Span\<close>; what the propagator
  injects into the forwarded headers is an input.
\<close>

subsection \<open>The header policy\<close>

record header_forward_policy =
  hp_allow :: "string set option"
  hp_deny :: "string set"

fun name_set :: "ext_lib \<Rightarrow> string list \<Rightarrow> string set \<Rightarrow> string set res" where
  "name_set ext [] names = Inr names"
| "name_set ext (n # ns) names =
     (case header_name_from_bytes ext n of Inl e \<Rightarrow> Inl e | Inr name \<Rightarrow> name_set ext ns (insert name names))"

definition policy_try_from_cfg :: "ext_lib \<Rightarrow> forward_headers_config \<Rightarrow> header_forward_policy res" where
  "policy_try_from_cfg ext cfg =
     (case (if fh_allow cfg = [] then Inr None
            else case name_set ext (fh_allow cfg) {} of Inl e \<Rightarrow> Inl e | Inr names \<Rightarrow> Inr (Some names)) of
        Inl e \<Rightarrow> Inl e
      | Inr allow \<Rightarrow>
          (case name_set ext (fh_deny cfg) {} of
             Inl e \<Rightarrow> Inl e
           | Inr deny \<Rightarrow> Inr \<lparr>hp_allow = allow, hp_deny = deny\<rparr>))"

definition is_hop_by_hop_header :: "string \<Rightarrow> bool" where
  "is_hop_by_hop_header name \<longleftrightarrow> name \<in> {''connection'', ''keep-alive'', ''proxy-authenticate'', ''proxy-authorization'',
     ''te'', ''trailer'', ''transfer-encoding'', ''upgrade''}"

definition should_forward :: "header_forward_policy \<Rightarrow> string \<Rightarrow> bool" where
  "should_forward policy name \<longleftrightarrow>
     (if is_hop_by_hop_header name then False
      else if name \<in> hp_deny policy then False
      else case hp_allow policy of Some allow \<Rightarrow> name \<in> allow | None \<Rightarrow> True)"

text \<open>\<open>to_str\<close> is \<open>HeaderValue::to_str\<close>.\<close>

fun forward_headers :: "(string \<Rightarrow> string option) \<Rightarrow> header_forward_policy \<Rightarrow> header_map \<Rightarrow> (string, string) hashmap \<Rightarrow>
    (string, string) hashmap" where
  "forward_headers to_str policy [] headers = headers"
| "forward_headers to_str policy ((name, value) # rest) headers =
     (if \<not> should_forward policy name then forward_headers to_str policy rest headers
      else case to_str value of
        Some v \<Rightarrow> forward_headers to_str policy rest (hm_insert name v headers)
      | None \<Rightarrow> forward_headers to_str policy rest headers)"

text \<open>\<open>pairs\<close> is what the propagator injects for the span of the request; \<open>None\<close> when its context is not valid.\<close>

fun inject_pairs :: "(string \<times> string) list \<Rightarrow> (string, string) hashmap \<Rightarrow> (string, string) hashmap" where
  "inject_pairs [] headers = headers"
| "inject_pairs ((k, v) # ps) headers = inject_pairs ps (hm_insert (ascii_lower k) v headers)"

definition inject_trace_context :: "(string \<times> string) list option \<Rightarrow> (string, string) hashmap \<Rightarrow> (string, string) hashmap" where
  "inject_trace_context pairs headers = (case pairs of None \<Rightarrow> headers | Some ps \<Rightarrow> inject_pairs ps headers)"

fun collect_batch_key_headers ::
  "(string \<Rightarrow> string option) \<Rightarrow> batch_key_dimension list \<Rightarrow> header_map \<Rightarrow> (string, string) hashmap \<Rightarrow> (string, string) hashmap" where
  "collect_batch_key_headers to_str [] headers out = out"
| "collect_batch_key_headers to_str (QueryDim _ # dims) headers out = collect_batch_key_headers to_str dims headers out"
| "collect_batch_key_headers to_str (HeaderDim name # dims) headers out =
     collect_batch_key_headers to_str dims headers
       (case Option.bind (hdr_get headers name) to_str of Some v \<Rightarrow> hm_insert name v out | None \<Rightarrow> out)"

subsection \<open>Requests, responses and the state of the application\<close>

record http_request =
  rq_method :: http_method
  rq_path :: string
  rq_query :: "string option"
  rq_headers :: header_map
  rq_trace :: "(string \<times> string) list option"

datatype ax_body = BodyBytes bytes | BodyChannel chan

record ax_response =
  ax_status :: u16
  ax_headers :: header_map
  ax_body_of :: ax_body
  ax_meta :: "gateway_response_meta option"

definition into_response :: "gateway_response \<Rightarrow> ax_response" where
  "into_response r = \<lparr>ax_status = gr_status r, ax_headers = gr_headers r, ax_body_of = BodyBytes (gr_body r), ax_meta = gr_meta r\<rparr>"

definition NOT_FOUND_PAGE :: string where
  "NOT_FOUND_PAGE = ''<!doctype html><html lang='' @ [CHR 0x22] @ ''en'' @ [CHR 0x22] @ ''><head><meta charset='' @ [CHR 0x22] @
     ''utf-8'' @ [CHR 0x22] @ ''><title>Not Found</title></head><body><h1>Not Found</h1></body></html>'' @ [CHR 0x0A]"

definition not_found_response :: gateway_response where
  "not_found_response = (let resp = response_text NOT_FOUND NOT_FOUND_PAGE
     in resp\<lparr>gr_headers := hdr_insert ''content-type'' ''text/html; charset=utf-8'' (gr_headers resp)\<rparr>)"

fun join :: "string \<Rightarrow> string list \<Rightarrow> string" where
  "join sep [] = []"
| "join sep [x] = x"
| "join sep (x # y # xs) = x @ sep @ join sep (y # xs)"

definition method_not_allowed_response :: "ext_lib \<Rightarrow> http_method list \<Rightarrow> gateway_response" where
  "method_not_allowed_response ext allowed =
     (let resp = response_text METHOD_NOT_ALLOWED ''method not allowed''
      in case header_value_from_str ext (join '', '' allowed) of
           Inr v \<Rightarrow> resp\<lparr>gr_headers := hdr_insert ''allow'' v (gr_headers resp)\<rparr>
         | Inl _ \<Rightarrow> resp)"

record response_debug_headers =
  db_batch_size :: "string option"
  db_target_elapsed_ms :: "string option"

definition env_var_enabled :: "environment \<Rightarrow> string \<Rightarrow> bool" where
  "env_var_enabled env name =
     (case env name of
        Some v \<Rightarrow> trim v \<noteq> [] \<and> ascii_lower (trim v) \<notin> {''0'', ''false'', ''no'', ''off''}
      | None \<Rightarrow> False)"

definition response_debug_headers_from_env :: "environment \<Rightarrow> response_debug_headers" where
  "response_debug_headers_from_env env =
     (if env_var_enabled env ''KHONE_DEBUG_RESPONSE_HEADERS''
      then \<lparr>db_batch_size = Some ''x-khone-batch-size'', db_target_elapsed_ms = Some ''x-khone-target-elapsed-ms''\<rparr>
      else \<lparr>db_batch_size = None, db_target_elapsed_ms = None\<rparr>)"

record app_state =
  ap_ext :: ext_lib
  ap_router :: router_lib
  ap_to_str :: "string \<Rightarrow> string option"
  ap_form_parse :: "string \<Rightarrow> (string \<times> string) list"
  ap_spec :: compiled_spec
  ap_max_body_bytes :: nat
  ap_forward :: header_forward_policy
  ap_otel_enabled :: bool
  ap_debug :: response_debug_headers
  ap_emf_enabled :: bool

text \<open>The debug headers are added to whatever the handler answers when it carries metadata; the metadata goes.\<close>

definition debug_header :: "ext_lib \<Rightarrow> string option \<Rightarrow> nat \<Rightarrow> header_map \<Rightarrow> header_map" where
  "debug_header ext name n headers =
     (case name of
        None \<Rightarrow> headers
      | Some name \<Rightarrow> (case header_value_from_str ext (dec n) of Inr v \<Rightarrow> hdr_insert name v headers | Inl _ \<Rightarrow> headers))"

definition finish_response :: "app_state \<Rightarrow> ax_response \<Rightarrow> ax_response" where
  "finish_response ap res =
     (case ax_meta res of
        None \<Rightarrow> res
      | Some meta \<Rightarrow>
          let h1 = debug_header (ap_ext ap) (db_batch_size (ap_debug ap)) (gm_batch_size meta) (ax_headers res);
              h2 = (case gm_target_elapsed_ms meta of
                      None \<Rightarrow> h1
                    | Some el \<Rightarrow> debug_header (ap_ext ap) (db_target_elapsed_ms (ap_debug ap)) (unat el) h1)
          in res\<lparr>ax_headers := h2, ax_meta := None\<rparr>)"

subsection \<open>The request that goes to a batcher\<close>

definition request_query :: "http_request \<Rightarrow> string" where
  "request_query rq = (case rq_query rq of Some q \<Rightarrow> q | None \<Rightarrow> [])"

definition forwarded :: "app_state \<Rightarrow> http_request \<Rightarrow> (string, string) hashmap" where
  "forwarded ap rq =
     (let headers = forward_headers (ap_to_str ap) (ap_forward ap) (rq_headers rq) []
      in if ap_otel_enabled ap then inject_trace_context (rq_trace rq) headers else headers)"

definition make_pending ::
  "app_state \<Rightarrow> http_request \<Rightarrow> operation_config \<Rightarrow> (string, string) hashmap \<Rightarrow> string \<Rightarrow> bytes \<Rightarrow> response_sink \<Rightarrow> pending_request" where
  "make_pending ap rq op path_params uuid body sink =
     \<lparr>pr_id = ''r-'' @ uuid, pr_method = rq_method rq, pr_path = rq_path rq, pr_route = oc_route_template op,
      pr_path_params = path_params,
      pr_key_headers = collect_batch_key_headers (ap_to_str ap) (oc_key op) (rq_headers rq) [],
      pr_headers = forwarded ap rq,
      pr_query = (if request_query rq = [] then [] else insert_params (ap_form_parse ap (request_query rq)) []),
      pr_raw_query_string = request_query rq, pr_body = body, pr_respond_to = sink\<rparr>"

subsection \<open>The handlers\<close>

text \<open>
  \<open>Admitted\<close> waits for the body, \<open>Calling\<close> is in \<open>enqueue\<close>, \<open>Waiting\<close> waits for the answer
  or the timeout, \<open>Streaming\<close> has answered with a body that is still being sent. Those hold a permit of
  the semaphore and, with metrics enabled, count as active.
\<close>

datatype http_phase =
    Admitted operation_config "(string, string) hashmap"
  | Calling operation_config pending_request
  | Waiting operation_config pending_request
  | Streaming operation_config u16
  | Answered
  | Cancelled

fun holding :: "http_phase \<Rightarrow> bool" where
  "holding (Admitted op ps) = True"
| "holding (Calling op req) = True"
| "holding (Waiting op req) = True"
| "holding (Streaming op status) = True"
| "holding Answered = False"
| "holding Cancelled = False"

record server =
  sv_permits :: nat
  sv_active :: u64
  sv_chans :: nat
  sv_handlers :: "(http_request \<times> http_phase) list"

definition server_new :: "nat \<Rightarrow> server" where
  "server_new max_inflight_requests = \<lparr>sv_permits = max_inflight_requests, sv_active = 0, sv_chans = 0, sv_handlers = []\<rparr>"

text \<open>\<open>build_router\<close>: the application and the initial state of the parts that serve it.\<close>

record gateway =
  gw_app :: app_state
  gw_server :: server
  gw_manager :: manager
  gw_queue :: job_queue

definition build_router ::
  "ext_lib \<Rightarrow> router_lib \<Rightarrow> (string \<Rightarrow> string option) \<Rightarrow> (string \<Rightarrow> (string \<times> string) list) \<Rightarrow> environment \<Rightarrow>
   gateway_config \<Rightarrow> compiled_spec \<Rightarrow> bool \<Rightarrow> gateway res" where
  "build_router ext rl to_str form_parse env cfg spec otel_enabled =
     (case policy_try_from_cfg ext (gc_forward_headers cfg) of
        Inl e \<Rightarrow> Inl e
      | Inr policy \<Rightarrow> Inr
          \<lparr>gw_app = \<lparr>ap_ext = ext, ap_router = rl, ap_to_str = to_str, ap_form_parse = form_parse, ap_spec = spec,
             ap_max_body_bytes = gc_max_body_bytes cfg, ap_forward = policy, ap_otel_enabled = otel_enabled,
             ap_debug = response_debug_headers_from_env env, ap_emf_enabled = env_truthy env ''KHONE_EMF_METRICS''\<rparr>,
           gw_server = server_new (gc_max_inflight_requests cfg),
           gw_manager = manager_new (gc_max_queue_depth_per_key cfg),
           gw_queue = queue_new (gc_max_inflight_invocations cfg) (gc_max_pending_invocations cfg)\<rparr>)"

datatype http_out =
    Respond nat ax_response
  | Enqueue operation_config pending_request
  | EmitRequest string http_method u16
  | EmitActive u64

datatype body_answer = BufferedAnswer gateway_response | StreamAnswer stream_init | SenderDropped | TimedOut

datatype http_event =
    Arrive http_request
  | BodyRead nat string "bytes res"
  | EnqueueReturned nat "enqueue_error option"
  | Answer nat body_answer
  | BodyDropped nat
  | Cancel nat

text \<open>The counter of active requests (\<open>metrics.rs\<close>) and the guard that lowers it when it is dropped.\<close>

definition decrement_active_requests_saturating :: "u64 \<Rightarrow> u64" where
  "decrement_active_requests_saturating current = (if current = 0 then 0 else current - 1)"

definition start_http_server_request :: "app_state \<Rightarrow> server \<Rightarrow> server \<times> http_out list" where
  "start_http_server_request ap s =
     (if \<not> ap_emf_enabled ap then (s, [])
      else (s\<lparr>sv_active := sv_active s + 1\<rparr>, [EmitActive (sv_active s + 1)]))"

definition drop_active_guard :: "app_state \<Rightarrow> server \<Rightarrow> server \<times> http_out list" where
  "drop_active_guard ap s =
     (if \<not> ap_emf_enabled ap then (s, [])
      else let n = decrement_active_requests_saturating (sv_active s) in (s\<lparr>sv_active := n\<rparr>, [EmitActive n]))"

definition emit_request :: "app_state \<Rightarrow> string \<Rightarrow> http_method \<Rightarrow> u16 \<Rightarrow> http_out list" where
  "emit_request ap route method status = (if ap_emf_enabled ap then [EmitRequest route method status] else [])"

definition release :: "server \<Rightarrow> server" where
  "release s = s\<lparr>sv_permits := sv_permits s + 1\<rparr>"

definition phase :: "nat \<Rightarrow> http_phase \<Rightarrow> server \<Rightarrow> server" where
  "phase i p s = s\<lparr>sv_handlers := (sv_handlers s)[i := (fst (sv_handlers s ! i), p)]\<rparr>"

text \<open>The handler of request \<open>i\<close> answers: the guard is dropped with the handler's future, then the request is
  recorded. \<open>answer_admitted\<close> drops the permit before.\<close>

definition answer :: "app_state \<Rightarrow> nat \<Rightarrow> http_method \<Rightarrow> string \<Rightarrow> ax_response \<Rightarrow> server \<Rightarrow> server \<times> http_out list" where
  "answer ap i method route res s =
     (let (s, outs) = drop_active_guard ap (phase i Answered s)
      in (s, outs @ emit_request ap route method (ax_status res) @ [Respond i (finish_response ap res)]))"

definition answer_admitted ::
  "app_state \<Rightarrow> nat \<Rightarrow> http_request \<Rightarrow> operation_config \<Rightarrow> ax_response \<Rightarrow> server \<Rightarrow> server \<times> http_out list" where
  "answer_admitted ap i rq op res s = answer ap i (rq_method rq) (oc_route_template op) res (release s)"

text \<open>Everything up to the first await: matching, the counter, the permit.\<close>

definition arrive :: "app_state \<Rightarrow> http_request \<Rightarrow> server \<Rightarrow> server \<times> http_out list" where
  "arrive ap rq s =
     (let i = length (sv_handlers s);
          (s, outs) = start_http_server_request ap s;
          s = s\<lparr>sv_handlers := sv_handlers s @ [(rq, Cancelled)]\<rparr>
      in case match_request (ap_router ap) (ap_spec ap) (rq_method rq) (rq_path rq) of
           NotFound \<Rightarrow> map_prod id ((@) outs) (answer ap i (rq_method rq) ''unmatched'' (into_response not_found_response) s)
         | MethodNotAllowed allowed \<Rightarrow> map_prod id ((@) outs)
             (answer ap i (rq_method rq) ''unmatched'' (into_response (method_not_allowed_response (ap_ext ap) allowed)) s)
         | Matched op path_params \<Rightarrow>
             if sv_permits s = 0
             then map_prod id ((@) outs) (answer ap i (rq_method rq) (oc_route_template op)
               (into_response (response_text TOO_MANY_REQUESTS ''too many requests'')) s)
             else (phase i (Admitted op path_params) (s\<lparr>sv_permits := sv_permits s - 1\<rparr>), outs))"

text \<open>\<open>to_bytes(body, max_body_bytes)\<close> fails when the body is longer or cannot be read.\<close>

definition body_read ::
  "app_state \<Rightarrow> nat \<Rightarrow> http_request \<Rightarrow> operation_config \<Rightarrow> (string, string) hashmap \<Rightarrow> string \<Rightarrow> bytes res \<Rightarrow> server \<Rightarrow>
   server \<times> http_out list" where
  "body_read ap i rq op path_params uuid body s =
     (case body of
        Inr bs \<Rightarrow>
          if length bs \<le> ap_max_body_bytes ap then
            (let n = sv_chans s;
                 sink = (if oc_invoke_mode op = ResponseStream then SinkStream n (n + 1) else SinkBuffered n);
                 pending = make_pending ap rq op path_params uuid bs sink
             in (phase i (Calling op pending) (s\<lparr>sv_chans := n + 2\<rparr>), [Enqueue op pending]))
          else answer_admitted ap i rq op (into_response (response_text PAYLOAD_TOO_LARGE ''body too large'')) s
      | Inl _ \<Rightarrow> answer_admitted ap i rq op (into_response (response_text PAYLOAD_TOO_LARGE ''body too large'')) s)"

definition enqueue_returned ::
  "app_state \<Rightarrow> nat \<Rightarrow> http_request \<Rightarrow> operation_config \<Rightarrow> pending_request \<Rightarrow> enqueue_error option \<Rightarrow> server \<Rightarrow> server \<times> http_out list" where
  "enqueue_returned ap i rq op pending r s =
     (case r of
        None \<Rightarrow> (phase i (Waiting op pending) s, [])
      | Some QueueFull \<Rightarrow> answer_admitted ap i rq op (into_response (response_text TOO_MANY_REQUESTS ''queue full'')) s
      | Some BatcherClosed \<Rightarrow> answer_admitted ap i rq op (into_response (response_text TOO_MANY_REQUESTS ''batcher closed'')) s)"

text \<open>The answer for a waiting handler; an answer of the wrong kind cannot come, as the channel is typed.\<close>

definition dropped_or_late ::
  "app_state \<Rightarrow> nat \<Rightarrow> http_request \<Rightarrow> operation_config \<Rightarrow> body_answer \<Rightarrow> server \<Rightarrow> (server \<times> http_out list) option" where
  "dropped_or_late ap i rq op r s =
     (case r of
        SenderDropped \<Rightarrow> Some (answer_admitted ap i rq op (into_response (response_text BAD_GATEWAY ''dropped response'')) s)
      | TimedOut \<Rightarrow> Some (answer_admitted ap i rq op (into_response (response_text GATEWAY_TIMEOUT ''timeout'')) s)
      | _ \<Rightarrow> None)"

definition answered_stream ::
  "app_state \<Rightarrow> nat \<Rightarrow> http_request \<Rightarrow> operation_config \<Rightarrow> chan \<Rightarrow> body_answer \<Rightarrow> server \<Rightarrow> (server \<times> http_out list) option" where
  "answered_stream ap i rq op body_rx r s =
     (case r of
        StreamAnswer (InitResponse resp) \<Rightarrow> Some (answer_admitted ap i rq op (into_response resp) s)
      | StreamAnswer (InitStream head) \<Rightarrow>
          Some (phase i (Streaming op (sh_status head)) s,
            [Respond i (finish_response ap \<lparr>ax_status = sh_status head, ax_headers = sh_headers head,
               ax_body_of = BodyChannel body_rx, ax_meta = Some (sh_meta head)\<rparr>)])
      | _ \<Rightarrow> dropped_or_late ap i rq op r s)"

definition answered_buffered ::
  "app_state \<Rightarrow> nat \<Rightarrow> http_request \<Rightarrow> operation_config \<Rightarrow> body_answer \<Rightarrow> server \<Rightarrow> (server \<times> http_out list) option" where
  "answered_buffered ap i rq op r s =
     (case r of
        BufferedAnswer resp \<Rightarrow> Some (answer_admitted ap i rq op (into_response resp) s)
      | _ \<Rightarrow> dropped_or_late ap i rq op r s)"

definition answered ::
  "app_state \<Rightarrow> nat \<Rightarrow> http_request \<Rightarrow> operation_config \<Rightarrow> pending_request \<Rightarrow> body_answer \<Rightarrow> server \<Rightarrow>
   (server \<times> http_out list) option" where
  "answered ap i rq op pending r s =
     (case pr_respond_to pending of
        SinkBuffered _ \<Rightarrow> answered_buffered ap i rq op r s
      | SinkStream _ body_rx \<Rightarrow> answered_stream ap i rq op body_rx r s)"

text \<open>The body of a streamed response is dropped when it has been sent or the client is gone.\<close>

definition body_dropped :: "app_state \<Rightarrow> nat \<Rightarrow> http_request \<Rightarrow> operation_config \<Rightarrow> u16 \<Rightarrow> server \<Rightarrow> server \<times> http_out list" where
  "body_dropped ap i rq op status s =
     map_prod id ((@) (emit_request ap (oc_route_template op) (rq_method rq) status))
       (drop_active_guard ap (release (phase i Answered s)))"

fun server_step :: "app_state \<Rightarrow> server \<Rightarrow> http_event \<Rightarrow> (server \<times> http_out list) option" where
  "server_step ap s (Arrive rq) = Some (arrive ap rq s)"
| "server_step ap s (BodyRead i uuid body) =
     (if i < length (sv_handlers s) then
        (case sv_handlers s ! i of
           (rq, Admitted op ps) \<Rightarrow> Some (body_read ap i rq op ps uuid body s)
         | _ \<Rightarrow> None)
      else None)"
| "server_step ap s (EnqueueReturned i r) =
     (if i < length (sv_handlers s) then
        (case sv_handlers s ! i of
           (rq, Calling op pending) \<Rightarrow> Some (enqueue_returned ap i rq op pending r s)
         | _ \<Rightarrow> None)
      else None)"
| "server_step ap s (Answer i r) =
     (if i < length (sv_handlers s) then
        (case sv_handlers s ! i of
           (rq, Waiting op pending) \<Rightarrow> answered ap i rq op pending r s
         | _ \<Rightarrow> None)
      else None)"
| "server_step ap s (BodyDropped i) =
     (if i < length (sv_handlers s) then
        (case sv_handlers s ! i of
           (rq, Streaming op status) \<Rightarrow> Some (body_dropped ap i rq op status s)
         | _ \<Rightarrow> None)
      else None)"
| "server_step ap s (Cancel i) =
     (if i < length (sv_handlers s) then
        (case snd (sv_handlers s ! i) of
           Admitted op ps \<Rightarrow> Some (drop_active_guard ap (release (phase i Cancelled s)))
         | Waiting op pending \<Rightarrow> Some (drop_active_guard ap (release (phase i Cancelled s)))
         | _ \<Rightarrow> None)
      else None)"

subsection \<open>Permits and active requests\<close>

definition held :: "server \<Rightarrow> nat" where
  "held s = length (filter (\<lambda>h. holding (snd h)) (sv_handlers s))"

definition server_inv :: "app_state \<Rightarrow> nat \<Rightarrow> server \<Rightarrow> bool" where
  "server_inv ap max_inflight s \<longleftrightarrow> sv_permits s + held s = max_inflight \<and>
     sv_active s = (if ap_emf_enabled ap then of_nat (held s) else 0)"

lemma server_simps [simp]:
  "held (release s) = held s" "held (s\<lparr>sv_permits := n\<rparr>) = held s" "held (s\<lparr>sv_active := a\<rparr>) = held s"
  "held (s\<lparr>sv_chans := c\<rparr>) = held s"
  "sv_permits (phase i p s) = sv_permits s" "sv_active (phase i p s) = sv_active s" "sv_chans (phase i p s) = sv_chans s"
  "length (sv_handlers (phase i p s)) = length (sv_handlers s)"
  "sv_permits (release s) = sv_permits s + 1" "sv_active (release s) = sv_active s" "sv_handlers (release s) = sv_handlers s"
  "sv_chans (release s) = sv_chans s"
  by (simp_all add: held_def release_def phase_def)

lemma held_phase:
  "i < length (sv_handlers s) \<Longrightarrow>
     held (phase i p s) + of_bool (holding (snd (sv_handlers s ! i))) = held s + of_bool (holding p)"
  using length_filter_update [of i "sv_handlers s" "\<lambda>h. holding (snd h)" "(fst (sv_handlers s ! i), p)"]
  by (simp add: held_def phase_def)

lemma decrement_Suc: "Suc n < 2 ^ 64 \<Longrightarrow> decrement_active_requests_saturating (of_nat (Suc n)) = of_nat n"
proof -
  assume n: "Suc n < 2 ^ 64"
  then have "unat (of_nat (Suc n) :: u64) = Suc n" by (simp add: unat_of_nat del: of_nat_Suc)
  then have "(of_nat (Suc n) :: u64) \<noteq> 0" by (metis nat.distinct(1) unat_0)
  then show ?thesis by (simp add: decrement_active_requests_saturating_def)
qed

definition drop_guard_state :: "app_state \<Rightarrow> server \<Rightarrow> server" where
  "drop_guard_state ap s =
     (if ap_emf_enabled ap then s\<lparr>sv_active := decrement_active_requests_saturating (sv_active s)\<rparr> else s)"

lemma fst_drop_active_guard [simp]: "fst (drop_active_guard ap s) = drop_guard_state ap s"
  by (simp add: drop_active_guard_def drop_guard_state_def Let_def)

lemma fst_answer [simp]: "fst (answer ap i m r res s) = drop_guard_state ap (phase i Answered s)"
  by (simp add: answer_def case_prod_beta)

lemma fst_answer_admitted [simp]:
  "fst (answer_admitted ap i rq op res s) = drop_guard_state ap (phase i Answered (release s))"
  by (simp add: answer_admitted_def)

lemma end_inv:
  assumes "server_inv ap n s" "n < 2 ^ 61" "i < length (sv_handlers s)" "holding (snd (sv_handlers s ! i))" "\<not> holding p"
  shows "server_inv ap n (drop_guard_state ap (release (phase i p s)))" "server_inv ap n (drop_guard_state ap (phase i p (release s)))"
proof -
  let ?h = "held (phase i p s)"
  have h: "held s = Suc ?h" using held_phase [OF assms(3), of p] assms(4,5) by simp
  have h': "held (phase i p (release s)) = ?h" by (simp add: held_def phase_def release_def)
  have "Suc ?h < 2 ^ 64" using assms(1,2) h by (simp add: server_inv_def)
  then show "server_inv ap n (drop_guard_state ap (release (phase i p s)))"
    "server_inv ap n (drop_guard_state ap (phase i p (release s)))"
    using assms(1) h h' by (auto simp: server_inv_def drop_guard_state_def decrement_Suc simp del: of_nat_Suc)
qed

lemma move_inv:
  assumes "server_inv ap n s" "i < length (sv_handlers s)" "holding (snd (sv_handlers s ! i))" "holding p"
  shows "server_inv ap n (phase i p s)" "server_inv ap n (phase i p (s\<lparr>sv_chans := c\<rparr>))"
proof -
  have "held (phase i p s) = held s" "held (phase i p (s\<lparr>sv_chans := c\<rparr>)) = held s"
    using held_phase [of i s p] held_phase [of i "s\<lparr>sv_chans := c\<rparr>" p] assms(2-4) by simp_all
  then show "server_inv ap n (phase i p s)" "server_inv ap n (phase i p (s\<lparr>sv_chans := c\<rparr>))"
    using assms(1) by (simp_all add: server_inv_def)
qed

lemma fst_start [simp]:
  "fst (start_http_server_request ap s) = (if ap_emf_enabled ap then s\<lparr>sv_active := sv_active s + 1\<rparr> else s)"
  by (simp add: start_http_server_request_def)

lemma arrive_inv:
  assumes "server_inv ap n s" "n < 2 ^ 61"
  shows "server_inv ap n (fst (arrive ap rq s))"
proof -
  let ?s = "(fst (start_http_server_request ap s))\<lparr>sv_handlers := sv_handlers s @ [(rq, Cancelled)]\<rparr>"
  let ?i = "length (sv_handlers s)"
  have l: "held s \<le> n" using assms(1) by (simp add: server_inv_def)
  then have l': "Suc (held s) < 2 ^ 64" using assms(2) by simp
  have h: "held (phase ?i p ?s) = held s + of_bool (holding p)" for p
    using held_phase [of ?i ?s p] by (simp add: held_def)
  have d: "decrement_active_requests_saturating (1 + of_nat (held s)) = of_nat (held s)"
    using decrement_Suc [OF l'] by simp
  have rejected: "server_inv ap n (drop_guard_state ap (phase ?i Answered ?s))"
    using assms(1) h [of Answered] by (auto simp: server_inv_def drop_guard_state_def d add.commute)
  have admitted: "server_inv ap n (phase ?i (Admitted op ps) (?s\<lparr>sv_permits := sv_permits s - 1\<rparr>))"
    if "sv_permits s \<noteq> 0" for op ps
  proof -
    have "held (phase ?i (Admitted op ps) (?s\<lparr>sv_permits := sv_permits s - 1\<rparr>)) = Suc (held s)"
      using h [of "Admitted op ps"] by (simp add: held_def phase_def)
    then show ?thesis using assms(1) that by (auto simp: server_inv_def)
  qed
  show ?thesis
    using rejected admitted
    by (auto simp: arrive_def Let_def case_prod_beta split: route_match.split)
qed

lemma answered_cases:
  "answered ap i rq op pending r s = Some (s', outs) \<Longrightarrow>
     (\<exists>res. answer_admitted ap i rq op res s = (s', outs)) \<or>
     (\<exists>status res. s' = phase i (Streaming op status) s \<and> outs = [Respond i res])"
  by (auto simp: answered_def answered_stream_def answered_buffered_def dropped_or_late_def
      split: response_sink.splits body_answer.splits stream_init.splits)

lemma server_step_inv:
  assumes "server_inv ap n s" "n < 2 ^ 61" "server_step ap s e = Some (s', outs)"
  shows "server_inv ap n s'"
proof (cases e)
  case (Arrive rq)
  then show ?thesis using arrive_inv [OF assms(1,2), of rq] assms(3) by (metis fst_conv option.inject server_step.simps(1))
next
  case (BodyRead i uuid body)
  then have i: "i < length (sv_handlers s)" using assms(3) by (auto split: if_splits)
  obtain rq op ps where h: "sv_handlers s ! i = (rq, Admitted op ps)" "(s', outs) = body_read ap i rq op ps uuid body s"
    using BodyRead assms(3) i by (auto split: prod.splits http_phase.splits)
  have "s' = fst (body_read ap i rq op ps uuid body s)" using h(2) by (metis fst_conv)
  then show ?thesis
    using end_inv(2) [OF assms(1,2) i, of Answered] move_inv(2) [OF assms(1) i, of "Calling op _" "sv_chans s + 2"] h(1)
    by (auto simp: body_read_def Let_def split: sum.splits)
next
  case (EnqueueReturned i r)
  then have i: "i < length (sv_handlers s)" using assms(3) by (auto split: if_splits)
  obtain rq op pending where h: "sv_handlers s ! i = (rq, Calling op pending)" "(s', outs) = enqueue_returned ap i rq op pending r s"
    using EnqueueReturned assms(3) i by (auto split: prod.splits http_phase.splits)
  have "s' = fst (enqueue_returned ap i rq op pending r s)" using h(2) by (metis fst_conv)
  then show ?thesis
    using end_inv(2) [OF assms(1,2) i, of Answered] move_inv(1) [OF assms(1) i, of "Waiting op pending"] h(1)
    by (auto simp: enqueue_returned_def split: option.splits enqueue_error.splits)
next
  case (Answer i r)
  then have i: "i < length (sv_handlers s)" using assms(3) by (auto split: if_splits)
  obtain rq op pending where h: "sv_handlers s ! i = (rq, Waiting op pending)" "answered ap i rq op pending r s = Some (s', outs)"
    using Answer assms(3) i by (auto split: prod.splits http_phase.splits)
  have "s' = drop_guard_state ap (phase i Answered (release s)) \<or> (\<exists>status. s' = phase i (Streaming op status) s)"
    using answered_cases [OF h(2)] fst_answer_admitted [of ap i rq op _ s] by (metis fst_conv)
  then show ?thesis
    using end_inv(2) [OF assms(1,2) i, of Answered] move_inv(1) [OF assms(1) i, of "Streaming op _"] h(1) by auto
next
  case (BodyDropped i)
  then have i: "i < length (sv_handlers s)" using assms(3) by (auto split: if_splits)
  obtain rq op status where h: "sv_handlers s ! i = (rq, Streaming op status)" "(s', outs) = body_dropped ap i rq op status s"
    using BodyDropped assms(3) i by (auto split: prod.splits http_phase.splits)
  have "s' = drop_guard_state ap (release (phase i Answered s))"
    using h(2) fst_drop_active_guard [of ap "release (phase i Answered s)"] by (simp add: body_dropped_def prod_eq_iff)
  then show ?thesis using end_inv(1) [OF assms(1,2) i, of Answered] h(1) by simp
next
  case (Cancel i)
  then have i: "i < length (sv_handlers s)" using assms(3) by (auto split: if_splits)
  then have "holding (snd (sv_handlers s ! i)) \<and> s' = drop_guard_state ap (release (phase i Cancelled s))"
    using Cancel assms(3) fst_drop_active_guard [of ap "release (phase i Cancelled s)"]
    by (auto split: http_phase.splits simp: prod_eq_iff)
  then show ?thesis using end_inv(1) [OF assms(1,2) i, of Cancelled] by simp
qed

text \<open>C15: Admission control: in every run of the server the free permits and the requests that hold one (being
  read, enqueued, waiting or streaming) add up to the configured limit, and with metrics enabled the
  gauge of active requests is the number of those requests.\<close>

theorem server_permits_conserved:
  assumes "run (server_step ap) (server_new n) es = Some (s, os)" "n < 2 ^ 61"
  shows "sv_permits s + length (filter (\<lambda>h. holding (snd h)) (sv_handlers s)) = n \<and>
    sv_active s = (if ap_emf_enabled ap then of_nat (length (filter (\<lambda>h. holding (snd h)) (sv_handlers s))) else 0)"
proof -
  have "server_inv ap n (server_new n)" by (simp add: server_inv_def held_def server_new_def)
  then have "server_inv ap n s"
    using run_invariant [of "server_inv ap n" "server_step ap" "\<lambda>_. True"] server_step_inv [OF _ assms(2)] assms(1) by blast
  then show ?thesis by (simp add: server_inv_def held_def)
qed

subsection \<open>Answers and records\<close>

fun is_response :: "nat \<Rightarrow> http_out \<Rightarrow> bool" where
  "is_response i (Respond j res) \<longleftrightarrow> j = i"
| "is_response i out \<longleftrightarrow> False"

fun is_record :: "http_out \<Rightarrow> bool" where
  "is_record (EmitRequest route method status) \<longleftrightarrow> True"
| "is_record out \<longleftrightarrow> False"

fun has_answered :: "http_phase \<Rightarrow> bool" where
  "has_answered (Streaming op status) = True"
| "has_answered Answered = True"
| "has_answered p = False"

definition answers_of :: "nat \<Rightarrow> server \<Rightarrow> nat" where
  "answers_of i s = of_bool (i < length (sv_handlers s) \<and> has_answered (snd (sv_handlers s ! i)))"

definition finished :: "app_state \<Rightarrow> server \<Rightarrow> nat" where
  "finished ap s = (if ap_emf_enabled ap then length (filter (\<lambda>h. snd h = Answered) (sv_handlers s)) else 0)"

definition counts :: "nat \<Rightarrow> http_out list \<Rightarrow> nat \<times> nat" where
  "counts i os = (length (filter (is_response i) os), length (filter is_record os))"

lemma counts_append: "counts i (xs @ ys) = (fst (counts i xs) + fst (counts i ys), snd (counts i xs) + snd (counts i ys))"
  by (simp add: counts_def)

lemma counts_simps [simp]:
  "counts i [] = (0, 0)" "counts i [EmitActive n] = (0, 0)" "counts i [Enqueue op req] = (0, 0)"
  "counts i [Respond j res] = (of_bool (i = j), 0)"
  "counts i (snd (drop_active_guard ap s)) = (0, 0)" "counts i (emit_request ap route method status) = (0, of_bool (ap_emf_enabled ap))"
  "counts i (snd (start_http_server_request ap s)) = (0, 0)"
  by (auto simp: counts_def drop_active_guard_def emit_request_def start_http_server_request_def Let_def)

lemma counts_answer [simp]:
  "counts i (snd (answer ap j m route res s)) = (of_bool (i = j), of_bool (ap_emf_enabled ap))"
  "counts i (snd (answer_admitted ap j rq op res s)) = (of_bool (i = j), of_bool (ap_emf_enabled ap))"
  by (simp_all add: answer_admitted_def answer_def case_prod_beta counts_append)

lemma count_states [simp]:
  "answers_of i (drop_guard_state ap s) = answers_of i s" "finished ap (drop_guard_state ap' s) = finished ap s"
  "answers_of i (release s) = answers_of i s" "finished ap (release s) = finished ap s"
  "answers_of i (s\<lparr>sv_chans := c\<rparr>) = answers_of i s" "finished ap (s\<lparr>sv_chans := c\<rparr>) = finished ap s"
  "answers_of i (s\<lparr>sv_permits := n\<rparr>) = answers_of i s" "finished ap (s\<lparr>sv_permits := n\<rparr>) = finished ap s"
  by (auto simp: answers_of_def finished_def drop_guard_state_def)

lemma counts_phase:
  assumes "j < length (sv_handlers s)" "snd (sv_handlers s ! j) \<noteq> Answered"
  shows "answers_of i (phase j p s) = (if i = j then of_bool (has_answered p) else answers_of i s)"
    "finished ap (phase j p s) = finished ap s + of_bool (ap_emf_enabled ap \<and> p = Answered)"
  using length_filter_update [OF assms(1), of "\<lambda>h. snd h = Answered" "(fst (sv_handlers s ! j), p)"] assms
  by (auto simp: answers_of_def finished_def phase_def)

lemma not_answered: "holding p \<Longrightarrow> p \<noteq> Answered"
  by auto

text \<open>One step balances the answers to request \<open>i\<close> and the records of finished requests.\<close>

definition balanced :: "app_state \<Rightarrow> nat \<Rightarrow> server \<Rightarrow> server \<times> http_out list \<Rightarrow> bool" where
  "balanced ap i s r \<longleftrightarrow> fst (counts i (snd r)) + answers_of i s = answers_of i (fst r) \<and>
     snd (counts i (snd r)) + finished ap s = finished ap (fst r)"

lemma balanced_answer:
  assumes "j < length (sv_handlers s)" "\<not> has_answered (snd (sv_handlers s ! j))"
  shows "balanced ap i s (answer ap j m route res s)" "balanced ap i s (answer_admitted ap j rq op res s)"
proof -
  have "snd (sv_handlers s ! j) \<noteq> Answered" "answers_of j s = 0" using assms by (auto simp: answers_of_def)
  then show "balanced ap i s (answer ap j m route res s)" "balanced ap i s (answer_admitted ap j rq op res s)"
    using counts_phase [of j s] counts_phase [of j "release s"] assms(1) by (auto simp: balanced_def)
qed

lemma balanced_move:
  assumes "j < length (sv_handlers s)" "\<not> has_answered (snd (sv_handlers s ! j))" "\<not> has_answered p" "counts i outs = (0, 0)"
  shows "balanced ap i s (phase j p s, outs)" "balanced ap i s (phase j p (s\<lparr>sv_chans := c\<rparr>), outs)"
proof -
  have "snd (sv_handlers s ! j) \<noteq> Answered" "answers_of j s = 0" "p \<noteq> Answered" using assms(1-3) by (auto simp: answers_of_def)
  then show "balanced ap i s (phase j p s, outs)" "balanced ap i s (phase j p (s\<lparr>sv_chans := c\<rparr>), outs)"
    using counts_phase [of j s] counts_phase [of j "s\<lparr>sv_chans := c\<rparr>"] assms by (auto simp: balanced_def)
qed

lemma balanced_arrive: "balanced ap i s (arrive ap rq s)"
proof -
  let ?s = "(fst (start_http_server_request ap s))\<lparr>sv_handlers := sv_handlers s @ [(rq, Cancelled)]\<rparr>"
  let ?j = "length (sv_handlers s)"
  have same: "answers_of i ?s = answers_of i s" "finished ap ?s = finished ap s"
    by (auto simp: answers_of_def finished_def nth_append)
  have j: "?j < length (sv_handlers ?s)" "\<not> has_answered (snd (sv_handlers ?s ! ?j))" by simp_all
  have "balanced ap i s (map_prod id ((@) (snd (start_http_server_request ap s))) (answer ap ?j m route res ?s))" for m route res
    using balanced_answer(1) [OF j, of ap i m route res] same by (simp add: balanced_def counts_append)
  moreover have "balanced ap i s (phase ?j (Admitted op ps) (?s\<lparr>sv_permits := n\<rparr>), snd (start_http_server_request ap s))" for op ps n
    using balanced_move(1) [of ?j "?s\<lparr>sv_permits := n\<rparr>" "Admitted op ps" i "snd (start_http_server_request ap s)" ap] same j
    by (simp add: balanced_def)
  ultimately show ?thesis
    by (auto simp: arrive_def Let_def case_prod_beta split: route_match.split if_split)
qed

lemma server_step_balanced:
  assumes "server_step ap s e = Some r"
  shows "balanced ap i s r"
proof (cases e)
  case (Arrive rq)
  then show ?thesis using assms balanced_arrive by auto
next
  case (BodyRead j uuid body)
  then obtain rq op ps where j: "j < length (sv_handlers s)" and h: "sv_handlers s ! j = (rq, Admitted op ps)"
      and r: "r = body_read ap j rq op ps uuid body s"
    using assms by (auto split: if_splits prod.splits http_phase.splits)
  have n: "\<not> has_answered (snd (sv_handlers s ! j))" using h by simp
  show ?thesis unfolding r body_read_def Let_def
    using balanced_answer(2) [OF j n] balanced_move(2) [OF j n] by (auto split: sum.split)
next
  case (EnqueueReturned j x)
  then obtain rq op pending where j: "j < length (sv_handlers s)" and h: "sv_handlers s ! j = (rq, Calling op pending)"
      and r: "r = enqueue_returned ap j rq op pending x s"
    using assms by (auto split: if_splits prod.splits http_phase.splits)
  have n: "\<not> has_answered (snd (sv_handlers s ! j))" using h by simp
  show ?thesis unfolding r enqueue_returned_def
    using balanced_answer(2) [OF j n] balanced_move(1) [OF j n] by (auto split: option.split enqueue_error.split)
next
  case (Answer j x)
  then obtain rq op pending where j: "j < length (sv_handlers s)" and h: "sv_handlers s ! j = (rq, Waiting op pending)"
      and r: "answered ap j rq op pending x s = Some (fst r, snd r)"
    using assms by (auto split: if_splits prod.splits http_phase.splits)
  have n: "\<not> has_answered (snd (sv_handlers s ! j))" "snd (sv_handlers s ! j) \<noteq> Answered" using h by simp_all
  from answered_cases [OF r] show ?thesis
  proof (elim disjE exE conjE)
    fix res assume "answer_admitted ap j rq op res s = (fst r, snd r)"
    then show ?thesis using balanced_answer(2) [OF j n(1), of ap i rq op res] by simp
  next
    fix status res assume "fst r = phase j (Streaming op status) s" "snd r = [Respond j res]"
    moreover have "answers_of j s = 0" using n(1) by (simp add: answers_of_def)
    ultimately show ?thesis using counts_phase [OF j n(2)] by (auto simp: balanced_def)
  qed
next
  case (BodyDropped j)
  then obtain rq op status where j: "j < length (sv_handlers s)" and h: "sv_handlers s ! j = (rq, Streaming op status)"
      and r: "r = body_dropped ap j rq op status s"
    using assms by (auto split: if_splits prod.splits http_phase.splits)
  have n: "snd (sv_handlers s ! j) \<noteq> Answered" using h by simp
  have "answers_of j s = 1" using h j by (simp add: answers_of_def)
  then show ?thesis using counts_phase [OF j n]
    by (auto simp: r body_dropped_def balanced_def counts_append)
next
  case (Cancel j)
  then have j: "j < length (sv_handlers s)" and n: "\<not> has_answered (snd (sv_handlers s ! j))" "snd (sv_handlers s ! j) \<noteq> Answered"
      and r: "r = drop_active_guard ap (release (phase j Cancelled s))"
    using assms by (auto split: if_splits http_phase.splits)
  have "answers_of j s = 0" using n(1) by (simp add: answers_of_def)
  then show ?thesis using counts_phase [OF j n(2)] by (auto simp: r balanced_def)
qed

text \<open>C14: In every run of the server each request is answered at most once: exactly once when it is done or its
  body is being streamed, never while it waits or after it was cancelled. With metrics enabled every
  finished request is recorded exactly once, a streamed one when its body is dropped.\<close>

theorem server_answers_once:
  assumes "run (server_step ap) (server_new n) es = Some (s, os)"
  shows "length (filter (is_response i) os) = of_bool (i < length (sv_handlers s) \<and> has_answered (snd (sv_handlers s ! i))) \<and>
    length (filter is_record os) =
      (if ap_emf_enabled ap then length (filter (\<lambda>h. snd h = Answered) (sv_handlers s)) else 0)"
proof -
  have b: "fst (counts i outs) + answers_of i s = answers_of i s'" "snd (counts i outs) + finished ap s = finished ap s'"
    if "server_step ap s e = Some (s', outs)" for s e s' outs
    using server_step_balanced [OF that, of i] by (simp_all add: balanced_def)
  have "fst (counts i os) + answers_of i (server_new n) = answers_of i s"
    by (rule run_tally [OF b(1) _ _ assms]) (simp_all add: counts_append)
  moreover have "snd (counts i os) + finished ap (server_new n) = finished ap s"
    by (rule run_tally [OF b(2) _ _ assms]) (simp_all add: counts_append)
  moreover have "answers_of i (server_new n) = 0" "finished ap (server_new n) = 0"
    by (simp_all add: answers_of_def finished_def server_new_def)
  ultimately have "length (filter (is_response i) os) = answers_of i s" "length (filter is_record os) = finished ap s"
    by (simp_all add: counts_def)
  then show ?thesis by (simp add: answers_of_def finished_def)
qed

subsection \<open>What is forwarded and what forms the batch key\<close>

definition decoded :: "(string \<Rightarrow> string option) \<Rightarrow> header_map \<Rightarrow> string \<Rightarrow> string list" where
  "decoded to_str headers name = List.map_filter to_str (hdr_get_all headers name)"

lemma decoded_simps [simp]:
  "decoded to_str [] k = []"
  "decoded to_str ((n, v) # hs) k = (if n = k then (case to_str v of Some x \<Rightarrow> [x] | None \<Rightarrow> []) else []) @ decoded to_str hs k"
  by (auto simp: decoded_def hdr_get_all_def List.map_filter_def split: option.split)

lemma forward_headers_get:
  "hm_get (forward_headers to_str policy hs acc) k =
     (if should_forward policy k \<and> decoded to_str hs k \<noteq> [] then Some (last (decoded to_str hs k)) else hm_get acc k)"
  by (induction to_str policy hs acc rule: forward_headers.induct) (auto split: option.splits)

lemma collect_get:
  "hm_get (collect_batch_key_headers to_str dims headers out) n =
     (case (if HeaderDim n \<in> set dims then Option.bind (hdr_get headers n) to_str else None) of
        Some v \<Rightarrow> Some v | None \<Rightarrow> hm_get out n)"
  by (induction to_str dims headers out rule: collect_batch_key_headers.induct) (auto split: option.splits)

lemma insert_params_get: "hm_get (insert_params ps m) k = (case map_of (rev ps) k of Some v \<Rightarrow> Some v | None \<Rightarrow> hm_get m k)"
  by (induction ps m rule: insert_params.induct) (auto simp: map_add_def split: option.splits)

text \<open>What the propagator injects under a name: header names are lower case in the map, and a later pair replaces an
  earlier one.\<close>

definition injected_value :: "(string \<times> string) list option \<Rightarrow> string \<Rightarrow> string option" where
  "injected_value pairs name = (case pairs of None \<Rightarrow> None | Some ps \<Rightarrow> map_of (rev (map (map_prod ascii_lower id) ps)) name)"

lemma inject_pairs_get:
  "hm_get (inject_pairs ps m) k = (case map_of (rev (map (map_prod ascii_lower id) ps)) k of Some v \<Rightarrow> Some v | None \<Rightarrow> hm_get m k)"
  by (induction ps m rule: inject_pairs.induct) (auto simp: map_add_def split: option.splits)

lemma inject_trace_context_get:
  "hm_get (inject_trace_context pairs m) k = (case injected_value pairs k of Some v \<Rightarrow> Some v | None \<Rightarrow> hm_get m k)"
  by (auto simp: inject_trace_context_def injected_value_def inject_pairs_get split: option.split)

text \<open>C33: The headers of the request that goes into the batch, and so to the function: when tracing is on, a header the
  propagator injects has the injected value, whatever the client sent and the policy says of its name; any other header is
  there exactly when its name is not hop-by-hop, not denied and, if there is an allow list, on it, and some value the client
  sent for it is text; of several such values the last one is taken.\<close>

theorem forwarded_header:
  "hm_get (pr_headers (make_pending ap rq op path_params uuid body sink)) name =
     (case (if ap_otel_enabled ap then injected_value (rq_trace rq) name else None) of
        Some v \<Rightarrow> Some v
      | None \<Rightarrow>
          if \<not> is_hop_by_hop_header name \<and> name \<notin> hp_deny (ap_forward ap) \<and>
             (case hp_allow (ap_forward ap) of Some allow \<Rightarrow> name \<in> allow | None \<Rightarrow> True) \<and>
             decoded (ap_to_str ap) (rq_headers rq) name \<noteq> []
          then Some (last (decoded (ap_to_str ap) (rq_headers rq) name)) else None)"
proof -
  have policy: "hm_get (forward_headers (ap_to_str ap) (ap_forward ap) (rq_headers rq) []) name =
      (if \<not> is_hop_by_hop_header name \<and> name \<notin> hp_deny (ap_forward ap) \<and>
         (case hp_allow (ap_forward ap) of Some allow \<Rightarrow> name \<in> allow | None \<Rightarrow> True) \<and> decoded (ap_to_str ap) (rq_headers rq) name \<noteq> []
       then Some (last (decoded (ap_to_str ap) (rq_headers rq) name)) else None)"
    by (auto simp: forward_headers_get should_forward_def split: option.split)
  have "pr_headers (make_pending ap rq op path_params uuid body sink) = forwarded ap rq" by (simp add: make_pending_def)
  then show ?thesis
    by (cases "ap_otel_enabled ap") (simp_all only: forwarded_def Let_def inject_trace_context_get policy if_True if_False option.case)
qed

text \<open>C26: The values that separate batches are those of the request itself, whatever the header policy forwards: the
  first value of each header of the key if it is text, and the last value of each query parameter of the key.\<close>

theorem batch_key_from_request:
  "bk_key_values (batch_key_of op (make_pending ap rq op path_params uuid body sink)) =
     map (\<lambda>dim. case dim of
         HeaderDim name \<Rightarrow> Option.bind (hdr_get (rq_headers rq) name) (ap_to_str ap)
       | QueryDim name \<Rightarrow>
           if request_query rq = [] then None else map_of (rev (ap_form_parse ap (request_query rq))) name) (oc_key op)"
  by (auto simp: batch_key_of_def make_pending_def collect_get insert_params_get split: batch_key_dimension.split option.split)

subsection \<open>What is enqueued\<close>

text \<open>The request behind an enqueued item.\<close>

definition enqueued_for :: "app_state \<Rightarrow> http_request set \<Rightarrow> operation_config \<Rightarrow> pending_request \<Rightarrow> bool" where
  "enqueued_for ap requests op p \<longleftrightarrow>
     (\<exists>rq \<in> requests. \<exists>path_params uuid.
        match_request (ap_router ap) (ap_spec ap) (rq_method rq) (rq_path rq) = Matched op path_params \<and>
        p = make_pending ap rq op path_params uuid (pr_body p) (pr_respond_to p)) \<and>
     length (pr_body p) \<le> ap_max_body_bytes ap \<and>
     (oc_invoke_mode op = ResponseStream \<longleftrightarrow> (\<exists>a b. pr_respond_to p = SinkStream a b))"

fun out_ok :: "app_state \<Rightarrow> http_request set \<Rightarrow> http_out \<Rightarrow> bool" where
  "out_ok ap requests (Enqueue op p) = enqueued_for ap requests op p"
| "out_ok ap requests out = True"

definition matched_inv :: "app_state \<Rightarrow> http_request set \<Rightarrow> server \<Rightarrow> bool" where
  "matched_inv ap requests s \<longleftrightarrow>
     (\<forall>(rq, ph) \<in> set (sv_handlers s). rq \<in> requests \<and>
        (case ph of Admitted op ps \<Rightarrow> match_request (ap_router ap) (ap_spec ap) (rq_method rq) (rq_path rq) = Matched op ps
         | _ \<Rightarrow> True))"

lemma matched_inv_simps [simp]:
  "matched_inv ap R (drop_guard_state ap' s) = matched_inv ap R s" "matched_inv ap R (release s) = matched_inv ap R s"
  "matched_inv ap R (s\<lparr>sv_chans := c\<rparr>) = matched_inv ap R s" "matched_inv ap R (s\<lparr>sv_permits := n\<rparr>) = matched_inv ap R s"
  by (simp_all add: matched_inv_def drop_guard_state_def)

lemma matched_inv_phase:
  assumes "matched_inv ap R s" "i < length (sv_handlers s)"
    and "case p of Admitted op ps \<Rightarrow>
        match_request (ap_router ap) (ap_spec ap) (rq_method (fst (sv_handlers s ! i))) (rq_path (fst (sv_handlers s ! i))) = Matched op ps
      | _ \<Rightarrow> True"
  shows "matched_inv ap R (phase i p s)"
proof -
  have "fst (sv_handlers s ! i) \<in> R"
    using nth_mem [OF assms(2)] assms(1) by (auto simp: matched_inv_def case_prod_beta)
  then show ?thesis using assms
    by (auto simp: matched_inv_def phase_def dest!: set_update_subset_insert [THEN subsetD])
qed

lemma outs_ok_simps [simp]:
  "list_all (out_ok ap R) (snd (drop_active_guard ap' s))" "list_all (out_ok ap R) (emit_request ap' route method status)"
  "list_all (out_ok ap R) (snd (start_http_server_request ap' s))"
  "list_all (out_ok ap R) (snd (answer ap' j m route res s))" "list_all (out_ok ap R) (snd (answer_admitted ap' j rq op res s))"
  by (auto simp: drop_active_guard_def emit_request_def start_http_server_request_def answer_admitted_def answer_def Let_def)

lemma matched_inv_step:
  assumes "\<And>rq. e = Arrive rq \<Longrightarrow> rq \<in> R" "matched_inv ap R s" "server_step ap s e = Some (s', outs)"
  shows "matched_inv ap R s' \<and> list_all (out_ok ap R) outs"
proof (cases e)
  case (Arrive rq)
  let ?s = "(fst (start_http_server_request ap s))\<lparr>sv_handlers := sv_handlers s @ [(rq, Cancelled)]\<rparr>"
  let ?j = "length (sv_handlers s)"
  have i: "matched_inv ap R ?s" using assms(1) [OF Arrive] assms(2) by (simp add: matched_inv_def)
  have f: "fst (sv_handlers ?s ! ?j) = rq" by simp
  have p: "matched_inv ap R (phase ?j ph ?s)"
    if "case ph of Admitted op ps \<Rightarrow> match_request (ap_router ap) (ap_spec ap) (rq_method rq) (rq_path rq) = Matched op ps | _ \<Rightarrow> True" for ph
    by (rule matched_inv_phase [OF i, of ?j ph, unfolded f]) (simp, rule that)
  have q: "matched_inv ap R (phase ?j (Admitted op ps) (?s\<lparr>sv_permits := n\<rparr>))"
    if "match_request (ap_router ap) (ap_spec ap) (rq_method rq) (rq_path rq) = Matched op ps" for op ps n
    by (rule matched_inv_phase) (use that i in simp_all)
  have r: "(s', outs) = arrive ap rq s" using Arrive assms(3) by simp
  show ?thesis
    using p [of Answered] q r by (auto simp: arrive_def Let_def case_prod_beta map_prod_def split: route_match.splits if_splits)
next
  case (BodyRead j uuid body)
  then obtain rq op ps where j: "j < length (sv_handlers s)" and h: "sv_handlers s ! j = (rq, Admitted op ps)"
      and r: "(s', outs) = body_read ap j rq op ps uuid body s"
    using assms(3) by (auto split: if_splits prod.splits http_phase.splits)
  have m: "rq \<in> R" "match_request (ap_router ap) (ap_spec ap) (rq_method rq) (rq_path rq) = Matched op ps"
    using nth_mem [OF j] assms(2) h by (force simp: matched_inv_def)+
  have a: "matched_inv ap R (phase j ph (release s))" "matched_inv ap R (phase j ph (s\<lparr>sv_chans := c\<rparr>))"
    if "\<not> (\<exists>op ps. ph = Admitted op ps)" for ph c
    using matched_inv_phase [of ap R _ j ph] assms(2) j that by (auto split: http_phase.split)
  have e: "enqueued_for ap R op (make_pending ap rq op ps uuid bs
      (if oc_invoke_mode op = ResponseStream then SinkStream c (c + 1) else SinkBuffered c))"
    if "length bs \<le> ap_max_body_bytes ap" for bs c
    using m that by (auto simp: enqueued_for_def make_pending_def intro!: bexI [of _ rq])
  show ?thesis using r a [of Answered] a(2) [of "Calling op _"] e
    by (auto simp: body_read_def Let_def prod_eq_iff split: sum.splits if_splits)
next
  case (EnqueueReturned j x)
  then obtain rq op pending where j: "j < length (sv_handlers s)" and r: "enqueue_returned ap j rq op pending x s = (s', outs)"
    using assms(3) by (auto split: if_splits prod.splits http_phase.splits)
  show ?thesis using r matched_inv_phase [of ap R s j "Waiting op pending"] matched_inv_phase [of ap R "release s" j Answered] assms(2) j
    by (auto simp: enqueue_returned_def prod_eq_iff split: option.splits enqueue_error.splits)
next
  case (Answer j x)
  then obtain rq op pending where j: "j < length (sv_handlers s)" and r: "answered ap j rq op pending x s = Some (s', outs)"
    using assms(3) by (auto split: if_splits prod.splits http_phase.splits)
  from answered_cases [OF r] show ?thesis
    using matched_inv_phase [of ap R s j "Streaming op _"] matched_inv_phase [of ap R "release s" j Answered] assms(2) j
    by (auto simp: prod_eq_iff)
next
  case (BodyDropped j)
  then obtain rq op status where j: "j < length (sv_handlers s)" and r: "body_dropped ap j rq op status s = (s', outs)"
    using assms(3) by (auto split: if_splits prod.splits http_phase.splits)
  show ?thesis using r matched_inv_phase [OF assms(2) j, of Answered] by (auto simp: body_dropped_def prod_eq_iff)
next
  case (Cancel j)
  then have j: "j < length (sv_handlers s)" and r: "drop_active_guard ap (release (phase j Cancelled s)) = (s', outs)"
    using assms(3) by (auto split: if_splits http_phase.splits)
  show ?thesis using r matched_inv_phase [OF assms(2) j, of Cancelled] by (auto simp: prod_eq_iff)
qed

lemma enqueued_list_ok:
  assumes "run (server_step ap) (server_new n) es = Some (s, os)"
  shows "list_all (out_ok ap {rq. Arrive rq \<in> set es}) os"
proof -
  let ?R = "{rq. Arrive rq \<in> set es}"
  have "matched_inv ap ?R (server_new n)" by (simp add: matched_inv_def server_new_def)
  moreover have "matched_inv ap ?R s' \<and> (\<forall>x \<in> set outs. out_ok ap ?R x)"
    if "e \<in> set es" "matched_inv ap ?R s" "server_step ap s e = Some (s', outs)" for s e s' outs
  proof -
    have "rq \<in> ?R" if "e = Arrive rq" for rq using that \<open>e \<in> set es\<close> by simp
    from matched_inv_step [OF this that(2,3)] show ?thesis by (simp add: list_all_iff)
  qed
  ultimately show ?thesis
    using run_invariant_events [of "set es" "matched_inv ap ?R" "server_step ap" "out_ok ap ?R" es, OF _ subset_refl _ assms]
    unfolding list_all_iff by blast
qed

text \<open>C25: Whatever the handlers hand to the batchers is a request that arrived, for the operation its method and path
  match, with the path parameters of the match, the headers, query and key values of the request, a body within
  the limit, and a sink of the operation's invoke mode.\<close>

theorem enqueued_requests_faithful:
  assumes "run (server_step ap) (server_new n) es = Some (s, os)"
  shows "list_all (\<lambda>out. case out of
        Enqueue op p \<Rightarrow>
          (\<exists>rq path_params uuid. Arrive rq \<in> set es \<and>
             match_request (ap_router ap) (ap_spec ap) (rq_method rq) (rq_path rq) = Matched op path_params \<and>
             p = make_pending ap rq op path_params uuid (pr_body p) (pr_respond_to p)) \<and>
          length (pr_body p) \<le> ap_max_body_bytes ap \<and>
          (oc_invoke_mode op = ResponseStream \<longleftrightarrow> (\<exists>a b. pr_respond_to p = SinkStream a b))
      | _ \<Rightarrow> True) os"
  by (rule list.pred_mono_strong [OF enqueued_list_ok [OF assms]]) (auto simp: enqueued_for_def split: http_out.split)

subsection \<open>The channels of the requests\<close>

fun sink_chans :: "http_out \<Rightarrow> nat list" where
  "sink_chans (Enqueue op p) = (case pr_respond_to p of SinkBuffered a \<Rightarrow> [a] | SinkStream a b \<Rightarrow> [a, b])"
| "sink_chans out = []"

definition chans_of :: "http_out list \<Rightarrow> nat list" where
  "chans_of os = concat (map sink_chans os)"

lemma chans_of_simps [simp]:
  "chans_of [] = []" "chans_of (xs @ ys) = chans_of xs @ chans_of ys" "chans_of [Respond i res] = []"
  "chans_of [Enqueue op p] = (case pr_respond_to p of SinkBuffered a \<Rightarrow> [a] | SinkStream a b \<Rightarrow> [a, b])"
  "chans_of (snd (drop_active_guard ap s)) = []" "chans_of (emit_request ap route method status) = []"
  "chans_of (snd (start_http_server_request ap s)) = []"
  by (auto simp: chans_of_def drop_active_guard_def emit_request_def start_http_server_request_def Let_def)

lemma chans_of_answer [simp]:
  "chans_of (snd (answer ap j m route res s)) = []" "chans_of (snd (answer_admitted ap j rq op res s)) = []"
  by (simp_all add: answer_admitted_def answer_def case_prod_beta)

lemma sv_chans_drop [simp]: "sv_chans (drop_guard_state ap s) = sv_chans s"
  by (simp add: drop_guard_state_def)

lemma server_step_chans:
  assumes "server_step ap s e = Some (s', outs)"
  shows "sv_chans s \<le> sv_chans s' \<and> distinct (chans_of outs) \<and> set (chans_of outs) \<subseteq> {sv_chans s ..< sv_chans s'}"
proof (cases e)
  case (Answer j x)
  then obtain rq op pending where r: "answered ap j rq op pending x s = Some (s', outs)"
    using assms by (auto split: if_splits prod.splits http_phase.splits)
  from answered_cases [OF r] show ?thesis by (auto simp: prod_eq_iff)
next
  case (BodyRead j uuid body)
  then obtain rq op ps where r: "body_read ap j rq op ps uuid body s = (s', outs)"
    using assms by (auto split: if_splits prod.splits http_phase.splits)
  then show ?thesis
    by (auto simp: body_read_def Let_def prod_eq_iff make_pending_def split: sum.splits if_splits)
next
  case (Arrive rq)
  then have "arrive ap rq s = (s', outs)" using assms by simp
  then show ?thesis by (auto simp: arrive_def Let_def case_prod_beta prod_eq_iff split: route_match.splits if_splits)
qed (use assms in \<open>auto simp: enqueue_returned_def body_dropped_def prod_eq_iff
      split: if_splits prod.splits http_phase.splits option.splits enqueue_error.splits\<close>)

text \<open>Every request that is enqueued has channels of its own: no two waiting requests of the server, buffered or
  streaming, share an answer or body channel.\<close>

theorem request_channels_distinct:
  "run (server_step ap) s es = Some (t, os) \<Longrightarrow>
     sv_chans s \<le> sv_chans t \<and> distinct (chans_of os) \<and> set (chans_of os) \<subseteq> {sv_chans s ..< sv_chans t}"
proof (induction es arbitrary: s os)
  case Nil
  then show ?case by simp
next
  case (Cons e es)
  from Cons.prems obtain s' o1 o2 where
    1: "server_step ap s e = Some (s', o1)" and 2: "run (server_step ap) s' es = Some (t, o2)" and 3: "os = o1 @ o2"
    by (rule run_ConsE)
  have "{sv_chans s ..< sv_chans s'} \<inter> {sv_chans s' ..< sv_chans t} = {}" by auto
  then have "set (chans_of o1) \<inter> set (chans_of o2) = {}"
    using server_step_chans [OF 1] Cons.IH [OF 2] by blast
  then show ?case using server_step_chans [OF 1] Cons.IH [OF 2] by (fastforce simp: 3)
qed

subsection \<open>An example server\<close>

definition example_app :: app_state where
  "example_app = \<lparr>ap_ext = example_ext,
     ap_router = \<lparr>router_insert_error = \<lambda>_ _. None, router_at = \<lambda>ts p. if p \<in> set ts then Some (p, []) else None\<rparr>,
     ap_to_str = (\<lambda>v. Some v), ap_form_parse = (\<lambda>q. [(q, q)]),
     ap_spec = [(''/a'', [(''GET'', example_op), (''POST'', example_op\<lparr>oc_method := ''POST'', oc_invoke_mode := ResponseStream\<rparr>)])],
     ap_max_body_bytes = 3, ap_forward = \<lparr>hp_allow = None, hp_deny = {''cookie''}\<rparr>, ap_otel_enabled = False,
     ap_debug = \<lparr>db_batch_size = Some ''x-khone-batch-size'', db_target_elapsed_ms = None\<rparr>, ap_emf_enabled = True\<rparr>"

definition example_http :: "http_method \<Rightarrow> string \<Rightarrow> http_request" where
  "example_http method path = \<lparr>rq_method = method, rq_path = path, rq_query = Some ''q'',
     rq_headers = [(''x-tenant'', ''t''), (''cookie'', ''c''), (''te'', ''x'')], rq_trace = None\<rparr>"

text \<open>Two permits: a buffered and a streaming request are served, one is not found, one is rejected, one is cancelled.\<close>

definition example_served :: "http_event list" where
  "example_served = [Arrive (example_http ''GET'' ''/a''), Arrive (example_http ''GET'' ''/z''), Arrive (example_http ''POST'' ''/a''),
     Arrive (example_http ''GET'' ''/a''), BodyRead 0 ''u'' (Inr ''xyz''), EnqueueReturned 0 None, BodyRead 2 ''v'' (Inr []),
     EnqueueReturned 2 None, Answer 0 (BufferedAnswer (with_meta 2 3 None (response_text OK_STATUS ''ok''))),
     Answer 2 (StreamAnswer (InitStream \<lparr>sh_status = OK_STATUS, sh_headers = [],
       sh_meta = \<lparr>gm_batch_size = 1, gm_batch_wait_ms = 0, gm_target_elapsed_ms = None\<rparr>\<rparr>)),
     Arrive (example_http ''GET'' ''/a''), Cancel 4, Arrive (example_http ''GET'' ''/a''), BodyDropped 2]"

lemma example_served_run:
  "\<exists>s os. run (server_step example_app) (server_new 2) example_served = Some (s, os) \<and>
     map snd (sv_handlers s) = [Answered, Answered, Answered, Answered, Cancelled, Admitted example_op []] \<and>
     chans_of os = [0, 2, 3] \<and> length (filter (is_response 2) os) = 1"
  by (rule run_exists) code_simp

theorem server_permits_conserved_witness:
  "\<exists>s os. run (server_step example_app) (server_new 2) example_served = Some (s, os) \<and>
     sv_permits s + length (filter (\<lambda>h. holding (snd h)) (sv_handlers s)) = 2 \<and>
     sv_active s = (if ap_emf_enabled example_app
       then of_nat (length (filter (\<lambda>h. holding (snd h)) (sv_handlers s))) else 0)"
proof -
  obtain s os where r: "run (server_step example_app) (server_new 2) example_served = Some (s, os)"
    using example_served_run by blast
  show ?thesis using r server_permits_conserved [OF r] by auto
qed

theorem server_answers_once_witness:
  "\<exists>s os. run (server_step example_app) (server_new 2) example_served = Some (s, os) \<and>
     length (filter (is_response 2) os) = of_bool (2 < length (sv_handlers s) \<and> has_answered (snd (sv_handlers s ! 2))) \<and>
     length (filter is_record os) =
      (if ap_emf_enabled example_app then length (filter (\<lambda>h. snd h = Answered) (sv_handlers s)) else 0)"
proof -
  obtain s os where r: "run (server_step example_app) (server_new 2) example_served = Some (s, os)"
    using example_served_run by blast
  show ?thesis by (rule exI [of _ s], rule exI [of _ os], rule conjI, rule r, rule server_answers_once [OF r])
qed

theorem enqueued_requests_faithful_witness:
  "\<exists>s os. run (server_step example_app) (server_new 2) example_served = Some (s, os) \<and> chans_of os = [0, 2, 3] \<and>
     list_all (\<lambda>out. case out of
        Enqueue op p \<Rightarrow>
          (\<exists>rq path_params uuid. Arrive rq \<in> set example_served \<and>
             match_request (ap_router example_app) (ap_spec example_app) (rq_method rq) (rq_path rq) = Matched op path_params \<and>
             p = make_pending example_app rq op path_params uuid (pr_body p) (pr_respond_to p)) \<and>
          length (pr_body p) \<le> ap_max_body_bytes example_app \<and>
          (oc_invoke_mode op = ResponseStream \<longleftrightarrow> (\<exists>a b. pr_respond_to p = SinkStream a b))
      | _ \<Rightarrow> True) os"
proof -
  obtain s os where r: "run (server_step example_app) (server_new 2) example_served = Some (s, os)" "chans_of os = [0, 2, 3]"
    using example_served_run by blast
  show ?thesis using r enqueued_requests_faithful [OF r(1)] by blast
qed

theorem request_channels_distinct_witness:
  "\<exists>s os. run (server_step example_app) (server_new 2) example_served = Some (s, os) \<and>
     sv_chans (server_new 2) \<le> sv_chans s \<and> distinct (chans_of os) \<and>
     set (chans_of os) \<subseteq> {sv_chans (server_new 2) ..< sv_chans s}"
proof -
  obtain s os where r: "run (server_step example_app) (server_new 2) example_served = Some (s, os)"
    using example_served_run by blast
  show ?thesis using r request_channels_distinct [OF r] by blast
qed

end
