(* ===== verification/Adapter.thy ===== *)
theory Adapter
  imports Buffered
begin

text \<open>
  The Rust adapter of \<open>lambda-kit/adapter-rust/src/lib.rs\<close>: it wraps a handler for one request so that
  it serves a whole batch, with one buffered payload (\<open>BatchAdapter\<close>) or a stream of NDJSON lines
  (\<open>BatchAdapterStream\<close>).

  The user's handler is a function from the item to a result; the order in which the futures of a batch
  complete is a sequence of events, and which of the active streams is ready is an argument. A handler that
  never completes is a run that never gets its last event. A response stream is the list of its chunks.
\<close>

subsection \<open>Events and responses\<close>

text \<open>An item is its correlation id and the request.\<close>

record 'a event_item =
  it_request_id :: "string option"
  it_request :: 'a

record 'a batch_request_event =
  be_v :: u8
  be_batch :: "'a event_item list"
  be_meta :: "json option"

record adapter_item =
  ai_id :: string
  ai_status_code :: u16
  ai_headers :: "(string, string) hashmap"
  ai_cookies :: "string list"
  ai_body :: string
  ai_is_base64_encoded :: bool

record adapter_response =
  as_v :: u8
  as_responses :: "adapter_item list"

datatype response_chunk = TextChunk string | BinaryChunk bytes

datatype response_body = EmptyBody | TextBody string | BinaryBody bytes | StreamBody "response_chunk list"

record handler_response =
  hr_status_code :: u16
  hr_headers :: "(string, string) hashmap"
  hr_cookies :: "string list"
  hr_body :: response_body
  hr_is_base64_encoded :: bool

definition handler_response_default :: handler_response where
  "handler_response_default =
     \<lparr>hr_status_code = 200, hr_headers = [], hr_cookies = [], hr_body = EmptyBody, hr_is_base64_encoded = False\<rparr>"

definition handler_response_text :: "u16 \<Rightarrow> string \<Rightarrow> handler_response" where
  "handler_response_text status_code body =
     \<lparr>hr_status_code = status_code, hr_headers = [], hr_cookies = [], hr_body = TextBody body, hr_is_base64_encoded = False\<rparr>"

definition handler_response_binary :: "u16 \<Rightarrow> bytes \<Rightarrow> handler_response" where
  "handler_response_binary status_code body =
     \<lparr>hr_status_code = status_code, hr_headers = [], hr_cookies = [], hr_body = BinaryBody body, hr_is_base64_encoded = True\<rparr>"

text \<open>\<open>ApiGatewayV2httpResponse\<close> of the events crate, whose body type may grow variants.\<close>

datatype lambda_body = LambdaEmpty | LambdaText string | LambdaBinary bytes | LambdaOther

record apigw_http_response =
  ah_status_code :: int
  ah_headers :: header_map
  ah_cookies :: "string list"
  ah_body :: "lambda_body option"
  ah_is_base64_encoded :: bool

definition normalize_cookies :: "string list \<Rightarrow> string list" where
  "normalize_cookies cookies = map trim (filter (\<lambda>c. trim c \<noteq> []) cookies)"

fun utf8_headers :: "(string \<Rightarrow> string option) \<Rightarrow> header_map \<Rightarrow> (string, string) hashmap \<Rightarrow> (string, string) hashmap" where
  "utf8_headers to_str [] headers = headers"
| "utf8_headers to_str ((name, v) # hs) headers =
     utf8_headers to_str hs (case to_str v of Some s \<Rightarrow> hm_insert name s headers | None \<Rightarrow> headers)"

definition handler_response_from :: "(string \<Rightarrow> string option) \<Rightarrow> apigw_http_response \<Rightarrow> handler_response" where
  "handler_response_from to_str v =
     \<lparr>hr_status_code = (if ah_status_code v \<le> 0 then 200
        else if ah_status_code v > 65535 then 65535 else word_of_int (ah_status_code v)),
      hr_headers = utf8_headers to_str (ah_headers v) [],
      hr_cookies = normalize_cookies (ah_cookies v),
      hr_body = (case ah_body v of
          None \<Rightarrow> EmptyBody | Some LambdaEmpty \<Rightarrow> EmptyBody | Some (LambdaText s) \<Rightarrow> TextBody s
        | Some (LambdaBinary b) \<Rightarrow> BinaryBody b | Some LambdaOther \<Rightarrow> EmptyBody),
      hr_is_base64_encoded = ah_is_base64_encoded v\<rparr>"

subsection \<open>From a handler's result to a record\<close>

definition normalize_concurrency :: "nat \<Rightarrow> nat" where
  "normalize_concurrency value = max value 1"

definition error_response_item :: "string \<Rightarrow> adapter_item" where
  "error_response_item rid =
     \<lparr>ai_id = rid, ai_status_code = 500, ai_headers = [(''content-type'', ''text/plain'')], ai_cookies = [],
      ai_body = ''internal error'', ai_is_base64_encoded = False\<rparr>"

fun normalize_body :: "ext_lib \<Rightarrow> response_body \<Rightarrow> bool \<Rightarrow> (string \<times> bool) res" where
  "normalize_body ext EmptyBody b64 = Inr ([], b64)"
| "normalize_body ext (TextBody s) b64 = Inr (s, b64)"
| "normalize_body ext (BinaryBody b) b64 = Inr (b64_encode ext b, True)"
| "normalize_body ext (StreamBody _) b64 = Inl ''streaming body is not supported in buffered mode''"

definition normalize_headers :: "(string, string) hashmap \<Rightarrow> (string, string) hashmap" where
  "normalize_headers headers = filter (\<lambda>(k, v). trim k \<noteq> []) headers"

definition item_id :: "'a event_item \<Rightarrow> string" where
  "item_id item = (case it_request_id item of Some rid \<Rightarrow> rid | None \<Rightarrow> [])"

definition effective_status :: "u16 \<Rightarrow> u16" where
  "effective_status status_code = (if status_code = 0 then 200 else status_code)"

definition response_item ::
  "ext_lib \<Rightarrow> ('a event_item \<Rightarrow> 'e + handler_response) \<Rightarrow> 'a event_item \<Rightarrow> adapter_item" where
  "response_item ext handler item =
     (case handler item of
        Inl _ \<Rightarrow> error_response_item (item_id item)
      | Inr resp \<Rightarrow>
          (case normalize_body ext (hr_body resp) (hr_is_base64_encoded resp) of
             Inl _ \<Rightarrow> error_response_item (item_id item)
           | Inr (body, is_base64_encoded) \<Rightarrow>
               \<lparr>ai_id = item_id item, ai_status_code = effective_status (hr_status_code resp),
                ai_headers = normalize_headers (hr_headers resp), ai_cookies = normalize_cookies (hr_cookies resp),
                ai_body = body, ai_is_base64_encoded = is_base64_encoded\<rparr>))"

subsection \<open>\<open>BatchAdapter::handle\<close>\<close>

text \<open>
  The futures of the items, each with its index: those not started, those in flight (at most
  \<open>concurrency\<close> of them), and the slots of the output. An event lets one future in flight complete.
\<close>

record 'a handle_run =
  hn_concurrency :: nat
  hn_waiting :: "(nat \<times> 'a event_item) list"
  hn_inflight :: "(nat \<times> 'a event_item) list"
  hn_out :: "adapter_item option list"

definition start_more :: "'a handle_run \<Rightarrow> 'a handle_run" where
  "start_more s =
     (let n = hn_concurrency s - length (hn_inflight s)
      in s\<lparr>hn_inflight := hn_inflight s @ take n (hn_waiting s), hn_waiting := drop n (hn_waiting s)\<rparr>)"

definition handle_start :: "nat \<Rightarrow> 'a batch_request_event \<Rightarrow> 'a handle_run" where
  "handle_start concurrency event =
     start_more \<lparr>hn_concurrency = min (normalize_concurrency concurrency) (max (length (be_batch event)) 1),
       hn_waiting = enumerate 0 (be_batch event), hn_inflight = [],
       hn_out = replicate (length (be_batch event)) None\<rparr>"

definition handle_complete ::
  "ext_lib \<Rightarrow> ('a event_item \<Rightarrow> 'e + handler_response) \<Rightarrow> 'a handle_run \<Rightarrow> nat \<Rightarrow> ('a handle_run \<times> unit list) option" where
  "handle_complete ext handler s k =
     (if k < length (hn_inflight s) then
        let (idx, item) = hn_inflight s ! k
        in Some (start_more (s\<lparr>hn_inflight := take k (hn_inflight s) @ drop (Suc k) (hn_inflight s),
                               hn_out := (hn_out s)[idx := Some (response_item ext handler item)]\<rparr>), [])
      else None)"

text \<open>No future is left: the slots that were filled, in order.\<close>

definition handle_finish :: "'a handle_run \<Rightarrow> adapter_response option" where
  "handle_finish s =
     (if hn_waiting s = [] \<and> hn_inflight s = []
      then Some \<lparr>as_v = 1, as_responses = map the (filter (\<lambda>x. x \<noteq> None) (hn_out s))\<rparr> else None)"

definition pending_items :: "'a handle_run \<Rightarrow> (nat \<times> 'a event_item) list" where
  "pending_items s = hn_inflight s @ hn_waiting s"

definition handle_inv ::
  "ext_lib \<Rightarrow> ('a event_item \<Rightarrow> 'e + handler_response) \<Rightarrow> 'a event_item list \<Rightarrow> 'a handle_run \<Rightarrow> bool" where
  "handle_inv ext handler batch s \<longleftrightarrow>
     length (hn_out s) = length batch \<and> distinct (map fst (pending_items s)) \<and>
     (\<forall>(i, x) \<in> set (pending_items s). i < length batch \<and> x = batch ! i) \<and>
     (\<forall>i < length batch. hn_out s ! i =
        (if i \<in> fst ` set (pending_items s) then None else Some (response_item ext handler (batch ! i)))) \<and>
     length (hn_inflight s) = min (hn_concurrency s) (length (pending_items s))"

lemma start_more_simps [simp]:
  "pending_items (start_more s) = pending_items s" "hn_out (start_more s) = hn_out s"
  "hn_concurrency (start_more s) = hn_concurrency s"
  by (simp_all add: start_more_def pending_items_def Let_def)

lemma start_more_inflight:
  "length (hn_inflight s) \<le> hn_concurrency s \<Longrightarrow>
     length (hn_inflight (start_more s)) = min (hn_concurrency s) (length (pending_items s))"
  by (auto simp: start_more_def pending_items_def Let_def)

lemma handle_start_facts:
  "pending_items (handle_start c event) = zip [0..<length (be_batch event)] (be_batch event)"
  "hn_out (handle_start c event) = replicate (length (be_batch event)) None"
  "hn_concurrency (handle_start c event) = min (normalize_concurrency c) (max (length (be_batch event)) 1)"
  "length (hn_inflight (handle_start c event)) =
     min (hn_concurrency (handle_start c event)) (length (pending_items (handle_start c event)))"
proof -
  show p: "pending_items (handle_start c event) = zip [0..<length (be_batch event)] (be_batch event)"
    unfolding handle_start_def start_more_simps by (simp add: pending_items_def enumerate_eq_zip)
  show "hn_out (handle_start c event) = replicate (length (be_batch event)) None"
    "hn_concurrency (handle_start c event) = min (normalize_concurrency c) (max (length (be_batch event)) 1)"
    by (simp_all add: handle_start_def)
  show "length (hn_inflight (handle_start c event)) =
     min (hn_concurrency (handle_start c event)) (length (pending_items (handle_start c event)))"
    unfolding handle_start_def start_more_simps by (rule start_more_inflight) simp
qed

lemma handle_start_inv: "handle_inv ext handler (be_batch event) (handle_start c event)"
proof -
  have "map fst (zip [0..<length (be_batch event)] (be_batch event)) = [0..<length (be_batch event)]" by simp
  moreover from this have "fst ` set (zip [0..<length (be_batch event)] (be_batch event)) = {0..<length (be_batch event)}"
    by (metis list.set_map set_upt)
  ultimately show ?thesis unfolding handle_inv_def handle_start_facts(1,2) handle_start_facts(4)
    by (auto simp: set_zip)
qed

lemma handle_complete_inv:
  assumes inv: "handle_inv ext handler batch s" and step: "handle_complete ext handler s k = Some (s', os)"
  shows "handle_inv ext handler batch s' \<and> hn_concurrency s' = hn_concurrency s \<and>
    Suc (length (pending_items s')) = length (pending_items s)"
proof -
  have k: "k < length (hn_inflight s)" using step by (auto simp: handle_complete_def split: if_splits)
  obtain idx item where it: "hn_inflight s ! k = (idx, item)" by fastforce
  let ?left = "take k (hn_inflight s) @ drop (Suc k) (hn_inflight s)"
  have split: "hn_inflight s = take k (hn_inflight s) @ (idx, item) # drop (Suc k) (hn_inflight s)"
    using id_take_nth_drop [OF k] it by simp
  define t where "t = s\<lparr>hn_inflight := ?left, hn_out := (hn_out s)[idx := Some (response_item ext handler item)]\<rparr>"
  have s': "s' = start_more t" using step k it by (simp add: handle_complete_def t_def)
  have pend: "pending_items t = ?left @ hn_waiting s"
    "pending_items s = take k (hn_inflight s) @ (idx, item) # drop (Suc k) (hn_inflight s) @ hn_waiting s"
    unfolding pending_items_def t_def by (simp, subst split, simp)
  have mem: "idx < length batch" "item = batch ! idx" "idx \<notin> fst ` set (pending_items t)"
    "fst ` set (pending_items s) = insert idx (fst ` set (pending_items t))" "distinct (map fst (pending_items t))"
    "set (pending_items t) \<subseteq> set (pending_items s)"
    using inv unfolding handle_inv_def pend by auto
  have len: "length (hn_inflight s') = min (hn_concurrency s') (length (pending_items s'))"
    unfolding s' start_more_simps
    by (rule start_more_inflight) (use inv k in \<open>auto simp: t_def handle_inv_def\<close>)
  have "hn_out t ! i = (if i \<in> fst ` set (pending_items t) then None else Some (response_item ext handler (batch ! i)))"
    if "i < length batch" for i
    using inv that mem(1-4) by (auto simp: handle_inv_def t_def nth_list_update)
  moreover have "length (hn_out t) = length batch" using inv by (simp add: handle_inv_def t_def)
  moreover have "\<forall>(i, x) \<in> set (pending_items t). i < length batch \<and> x = batch ! i"
    using inv mem(6) by (auto simp: handle_inv_def)
  ultimately have "handle_inv ext handler batch s'"
    using mem(5) len unfolding handle_inv_def s' start_more_simps by blast
  moreover have "hn_concurrency s' = hn_concurrency s" by (simp add: s' t_def)
  moreover have "Suc (length (pending_items s')) = length (pending_items s)" unfolding s' start_more_simps pend by simp
  ultimately show ?thesis by simp
qed

lemma handle_run_inv:
  assumes "run (handle_complete ext handler) s ks = Some (t, os)" "handle_inv ext handler batch s"
  shows "handle_inv ext handler batch t \<and> hn_concurrency t = hn_concurrency s \<and>
    length (pending_items t) + length ks = length (pending_items s)"
  using assms
proof (induction ks arbitrary: s os)
  case Nil
  then show ?case by simp
next
  case (Cons k ks)
  from Cons.prems(1) obtain s1 o1 o2 where
    "handle_complete ext handler s k = Some (s1, o1)" "run (handle_complete ext handler) s1 ks = Some (t, o2)"
    by (rule run_ConsE)
  then show ?case using Cons.IH [of s1 o2] handle_complete_inv [OF Cons.prems(2)] by fastforce
qed

lemma handle_finish_inv:
  assumes "handle_inv ext handler batch s"
  shows "handle_finish s = (if pending_items s = []
    then Some \<lparr>as_v = 1, as_responses = map (response_item ext handler) batch\<rparr> else None)"
proof (cases "pending_items s = []")
  case True
  then have "hn_out s = map (\<lambda>x. Some (response_item ext handler x)) batch"
    using assms by (auto simp: handle_inv_def intro!: nth_equalityI)
  then show ?thesis using True by (simp add: handle_finish_def pending_items_def filter_map comp_def)
next
  case False
  then show ?thesis by (auto simp: handle_finish_def pending_items_def)
qed

text \<open>Whatever the order in which the handler's futures complete, with \<open>k\<close> of them complete exactly as many
  are in flight as the limits allow, and the adapter returns when all are: the responses are then those of the
  items one by one, in the order of the batch.\<close>

theorem adapter_handle_order_free:
  assumes "run (handle_complete ext handler) (handle_start c event) ks = Some (s, os)"
  shows "length (hn_inflight s) = min (max c 1) (length (be_batch event) - length ks) \<and>
    handle_finish s = (if length ks = length (be_batch event)
      then Some \<lparr>as_v = 1, as_responses = map (response_item ext handler) (be_batch event)\<rparr> else None)"
proof -
  have r: "handle_inv ext handler (be_batch event) s" "hn_concurrency s = hn_concurrency (handle_start c event)"
    "length (pending_items s) + length ks = length (be_batch event)"
    using handle_run_inv [OF assms handle_start_inv] by (simp_all add: handle_start_facts(1))
  have bound: "min (min (max c 1) (max n 1)) p = min (max c 1) p" if "p \<le> n" for n p :: nat
    using that by linarith
  have "length (hn_inflight s) = min (hn_concurrency s) (length (pending_items s))" using r(1) by (simp add: handle_inv_def)
  also have "\<dots> = min (max c 1) (length (pending_items s))"
    unfolding r(2) handle_start_facts(3) normalize_concurrency_def by (rule bound) (use r(3) in simp)
  also have "length (pending_items s) = length (be_batch event) - length ks" using r(3) by simp
  finally have "length (hn_inflight s) = min (max c 1) (length (be_batch event) - length ks)" .
  moreover have "pending_items s = [] \<longleftrightarrow> length ks = length (be_batch event)" using r(3) by auto
  ultimately show ?thesis using handle_finish_inv [OF r(1)] by simp
qed

definition example_items :: "unit event_item list" where
  "example_items = [\<lparr>it_request_id = Some ''a'', it_request = ()\<rparr>, \<lparr>it_request_id = Some ''b'', it_request = ()\<rparr>,
     \<lparr>it_request_id = None, it_request = ()\<rparr>]"

definition example_event :: "unit batch_request_event" where
  "example_event = \<lparr>be_v = 1, be_batch = example_items, be_meta = None\<rparr>"

definition example_handler :: "unit event_item \<Rightarrow> unit + handler_response" where
  "example_handler item = (if it_request_id item = Some ''b'' then Inl ()
     else Inr (handler_response_text 0 ''hello''))"

theorem adapter_handle_order_free_witness:
  "\<exists>s os. run (handle_complete example_ext example_handler) (handle_start 2 example_event) [1, 0, 0] = Some (s, os) \<and>
    length (hn_inflight s) = min (max 2 1) (length (be_batch example_event) - length [1, 0, 0 :: nat]) \<and>
    handle_finish s = (if length [1, 0, 0 :: nat] = length (be_batch example_event)
      then Some \<lparr>as_v = 1, as_responses = map (response_item example_ext example_handler) (be_batch example_event)\<rparr> else None)"
proof -
  have "\<exists>s os. run (handle_complete example_ext example_handler) (handle_start 2 example_event) [1, 0, 0] = Some (s, os)"
    by (simp add: handle_start_def handle_complete_def start_more_def example_event_def example_items_def
        normalize_concurrency_def enumerate_eq_zip)
  then show ?thesis using adapter_handle_order_free by blast
qed

subsection \<open>NDJSON lines\<close>

record ndjson_interleaved =
  nj_v :: u8
  nj_id :: string
  nj_record_type :: string
  nj_status_code :: "u16 option"
  nj_headers :: "(string, string) hashmap"
  nj_cookies :: "string list"
  nj_body :: "string option"
  nj_is_base64_encoded :: "bool option"
  nj_message :: "string option"

text \<open>A line holds a legacy record (the fields of a response item and the version) or an interleaved one.\<close>

datatype ndjson_record = LegacyRecord u8 adapter_item | InterleavedRecord ndjson_interleaved

definition ndjson_line :: "(ndjson_record \<Rightarrow> bytes res) \<Rightarrow> ndjson_record \<Rightarrow> bytes" where
  "ndjson_line to_vec record = (case to_vec record of Inl _ \<Rightarrow> ''{}'' | Inr line \<Rightarrow> line) @ [CHR 0x0A]"

definition blank_record :: "string \<Rightarrow> string \<Rightarrow> ndjson_interleaved" where
  "blank_record rid record_type = \<lparr>nj_v = 1, nj_id = rid, nj_record_type = record_type, nj_status_code = None,
     nj_headers = [], nj_cookies = [], nj_body = None, nj_is_base64_encoded = None, nj_message = None\<rparr>"

definition chunk_line :: "string \<Rightarrow> string \<times> bool \<Rightarrow> ndjson_record" where
  "chunk_line rid c = InterleavedRecord ((blank_record rid ''chunk'')\<lparr>nj_body := Some (fst c), nj_is_base64_encoded := Some (snd c)\<rparr>)"

definition chunk_text :: "ext_lib \<Rightarrow> bool \<Rightarrow> response_chunk \<Rightarrow> string \<times> bool" where
  "chunk_text ext b64 c = (case c of TextChunk s \<Rightarrow> (s, b64) | BinaryChunk b \<Rightarrow> (b64_encode ext b, True))"

fun body_chunks :: "ext_lib \<Rightarrow> bool \<Rightarrow> response_body \<Rightarrow> (string \<times> bool) list" where
  "body_chunks ext b64 EmptyBody = []"
| "body_chunks ext b64 (TextBody s) = [(s, b64)]"
| "body_chunks ext b64 (BinaryBody b) = [(b64_encode ext b, True)]"
| "body_chunks ext b64 (StreamBody cs) = map (chunk_text ext b64) cs"

text \<open>The records of one item, in the order its stream yields them.\<close>

definition item_records ::
  "ext_lib \<Rightarrow> bool \<Rightarrow> ('a event_item \<Rightarrow> 'e + handler_response) \<Rightarrow> 'a event_item \<Rightarrow> ndjson_record list" where
  "item_records ext interleaved handler item =
     (case handler item of
        Inr resp \<Rightarrow>
          let status_code = (if hr_status_code resp = 0 then 200 else hr_status_code resp);
              headers = normalize_headers (hr_headers resp);
              cookies = normalize_cookies (hr_cookies resp)
          in if \<not> interleaved then
               [case normalize_body ext (hr_body resp) (hr_is_base64_encoded resp) of
                  Inr (body, is_base64_encoded) \<Rightarrow>
                    LegacyRecord 1 \<lparr>ai_id = item_id item, ai_status_code = status_code, ai_headers = headers, ai_cookies = cookies,
                      ai_body = body, ai_is_base64_encoded = is_base64_encoded\<rparr>
                | Inl _ \<Rightarrow>
                    LegacyRecord 1 \<lparr>ai_id = item_id item, ai_status_code = 500, ai_headers = [(''content-type'', ''text/plain'')],
                      ai_cookies = [], ai_body = ''internal error'', ai_is_base64_encoded = False\<rparr>]
             else
               [InterleavedRecord ((blank_record (item_id item) ''head'')\<lparr>nj_status_code := Some status_code,
                  nj_headers := headers, nj_cookies := cookies\<rparr>)] @
               map (chunk_line (item_id item)) (body_chunks ext (hr_is_base64_encoded resp) (hr_body resp)) @
               [InterleavedRecord (blank_record (item_id item) ''end'')]
      | Inl _ \<Rightarrow>
          if \<not> interleaved then
            [LegacyRecord 1 \<lparr>ai_id = item_id item, ai_status_code = 500, ai_headers = [(''content-type'', ''text/plain'')],
               ai_cookies = [], ai_body = ''internal error'', ai_is_base64_encoded = False\<rparr>]
          else
            [InterleavedRecord ((blank_record (item_id item) ''error'')\<lparr>nj_status_code := Some 500,
               nj_message := Some ''internal error''\<rparr>)])"

text \<open>Without interleaving the streaming adapter builds, in code of its own, the record the buffered one builds.\<close>

lemma legacy_records: "item_records ext False handler item = [LegacyRecord 1 (response_item ext handler item)]"
  by (auto simp: item_records_def response_item_def error_response_item_def effective_status_def Let_def split: sum.split)

subsection \<open>\<open>ConcurrentSelect\<close>\<close>

text \<open>
  The streams of the items that have not been started, those being polled, the limit and whether the
  iterator has ended. What remains of a stream is the list of the items it will still yield.
\<close>

record 'b concurrent_select =
  cs_iter :: "'b list list"
  cs_active :: "'b list list"
  cs_limit :: nat
  cs_exhausted :: bool

datatype 'b poll = Ready "'b option" | Pending

fun fill_loop :: "nat \<Rightarrow> 'b list list \<Rightarrow> 'b list list \<Rightarrow> 'b list list \<times> 'b list list \<times> bool" where
  "fill_loop limit [] active = ([], active, length active < limit)"
| "fill_loop limit (st # rest) active =
     (if length active < limit then fill_loop limit rest (active @ [st]) else (st # rest, active, False))"

definition fill :: "'b concurrent_select \<Rightarrow> 'b concurrent_select" where
  "fill s = (if cs_exhausted s then s
     else case fill_loop (cs_limit s) (cs_iter s) (cs_active s) of
       (iter, active, exhausted) \<Rightarrow> s\<lparr>cs_iter := iter, cs_active := active, cs_exhausted := exhausted\<rparr>)"

text \<open>
  \<open>sel\<close> is the poll of the \<open>SelectAll\<close> of the futures crate: it returns the streams it keeps and what
  they yield. The loop goes on when nothing is active but the iterator has not ended.
\<close>

partial_function (option) poll_next ::
  "('b list list \<Rightarrow> 'b list list \<times> 'b poll) \<Rightarrow> 'b concurrent_select \<Rightarrow> ('b concurrent_select \<times> 'b poll) option" where
  "poll_next sel s =
     (case sel (cs_active (fill s)) of (active, r) \<Rightarrow>
        if r = Ready None \<and> \<not> cs_exhausted (fill s) then poll_next sel ((fill s)\<lparr>cs_active := active\<rparr>)
        else Some ((fill s)\<lparr>cs_active := active\<rparr>, r))"

definition stream_start ::
  "ext_lib \<Rightarrow> (ndjson_record \<Rightarrow> bytes res) \<Rightarrow> bool \<Rightarrow> ('a event_item \<Rightarrow> 'e + handler_response) \<Rightarrow> nat \<Rightarrow>
   'a batch_request_event \<Rightarrow> bytes concurrent_select" where
  "stream_start ext to_vec interleaved handler concurrency event =
     \<lparr>cs_iter = map (\<lambda>item. map (ndjson_line to_vec) (item_records ext interleaved handler item)) (be_batch event),
      cs_active = [], cs_limit = max (min (normalize_concurrency concurrency) (max (length (be_batch event)) 1)) 1,
      cs_exhausted = False\<rparr>"

text \<open>
  What the crate documents of \<open>SelectAll\<close>: an item comes from one of the streams, whose rest is kept; a
  stream is only let go when it has ended; the end is reported when none is left; otherwise it waits.
\<close>

definition select_ok :: "('b list list \<Rightarrow> 'b list list \<times> 'b poll) \<Rightarrow> bool" where
  "select_ok sel \<longleftrightarrow> (\<forall>active. case sel active of (left, r) \<Rightarrow>
     (case r of
        Ready (Some x) \<Rightarrow> \<exists>xs others n. mset active = add_mset (x # xs) (others + replicate_mset n []) \<and>
          mset left = add_mset xs others
      | Ready None \<Rightarrow> left = [] \<and> (\<exists>n. mset active = replicate_mset n [])
      | Pending \<Rightarrow> left \<noteq> [] \<and> (\<exists>n. mset active = mset left + replicate_mset n [])))"

lemma fill_loop_spec:
  "fill_loop limit iter active = (iter', active', exhausted) \<Longrightarrow>
     active' @ iter' = active @ iter \<and> (length active \<le> limit \<longrightarrow> length active' \<le> limit) \<and>
     (exhausted \<longrightarrow> iter' = []) \<and> (\<not> exhausted \<longrightarrow> limit \<le> length active') \<and> length iter' \<le> length iter"
  by (induction limit iter active rule: fill_loop.induct) (auto split: if_splits)

definition remaining :: "'b concurrent_select \<Rightarrow> 'b list multiset" where
  "remaining s = mset (cs_active s) + mset (cs_iter s)"

definition select_inv :: "'b concurrent_select \<Rightarrow> bool" where
  "select_inv s \<longleftrightarrow> length (cs_active s) \<le> cs_limit s \<and> (cs_exhausted s \<longrightarrow> cs_iter s = [])"

lemma fill_spec:
  assumes "select_inv s"
  shows "select_inv (fill s)" "remaining (fill s) = remaining s" "cs_limit (fill s) = cs_limit s"
    "\<not> cs_exhausted (fill s) \<Longrightarrow> cs_limit s \<le> length (cs_active (fill s))"
    "length (cs_iter (fill s)) \<le> length (cs_iter s)" "cs_exhausted s \<Longrightarrow> fill s = s"
proof -
  obtain iter active exhausted where f: "fill_loop (cs_limit s) (cs_iter s) (cs_active s) = (iter, active, exhausted)"
    by (metis surj_pair)
  note spec = fill_loop_spec [OF f]
  from spec have e: "mset active + mset iter = mset (cs_active s) + mset (cs_iter s)" by (metis mset_append)
  show "select_inv (fill s)" "cs_limit (fill s) = cs_limit s"
    "\<not> cs_exhausted (fill s) \<Longrightarrow> cs_limit s \<le> length (cs_active (fill s))"
    "length (cs_iter (fill s)) \<le> length (cs_iter s)" "cs_exhausted s \<Longrightarrow> fill s = s"
    using assms spec f by (auto simp: fill_def select_inv_def)
  show "remaining (fill s) = remaining s" using e f by (auto simp: fill_def remaining_def)
qed

text \<open>Taking items and ended streams out of a collection of streams, one by one.\<close>

inductive merges :: "'b list multiset \<Rightarrow> 'b list \<Rightarrow> 'b list multiset \<Rightarrow> bool" where
  merges_done: "merges M [] M"
| merges_ended: "merges M out N \<Longrightarrow> merges (add_mset [] M) out N"
| merges_item: "merges (add_mset xs M) out N \<Longrightarrow> merges (add_mset (x # xs) M) (x # out) N"

lemma merges_drop: "merges M out N \<Longrightarrow> merges (M + replicate_mset n []) out N"
  by (induction n) (auto intro: merges_ended)

lemma merges_trans: "merges M out N \<Longrightarrow> merges N out' K \<Longrightarrow> merges M (out @ out') K"
  by (induction rule: merges.induct) (auto intro: merges.intros)

lemma merges_mset: "merges M out N \<Longrightarrow> (\<Sum>s \<in># M. mset s) = mset out + (\<Sum>s \<in># N. mset s)"
  by (induction rule: merges.induct) auto

lemma merges_nothing: "merges M out N \<Longrightarrow> M = {#} \<Longrightarrow> out = []"
  by (induction rule: merges.induct) auto

lemma merges_single:
  "merges M out N \<Longrightarrow> M = add_mset s (replicate_mset n []) \<Longrightarrow> N = {#} \<Longrightarrow> out = s"
proof (induction arbitrary: s n rule: merges.induct)
  case (merges_done M)
  then show ?case by simp
next
  case (merges_ended M out N)
  show ?case
  proof (cases n)
    case 0
    then show ?thesis using merges_ended merges_nothing [of M out N] by simp
  next
    case (Suc k)
    then have "M = add_mset s (replicate_mset k [])" using merges_ended(3) by (simp add: add_mset_commute)
    then show ?thesis using merges_ended by blast
  qed
next
  case (merges_item xs M out N x)
  have "x # xs \<notin># replicate_mset n []" by simp
  then have "s = x # xs \<and> M = replicate_mset n []"
    using merges_item(3) by (metis add_eq_conv_ex union_single_eq_member insert_noteq_member)
  then show ?case using merges_item by blast
qed

lemma merges_filter_all: "merges M out N \<Longrightarrow> merges (image_mset (filter P) M) (filter P out) (image_mset (filter P) N)"
  by (induction rule: merges.induct) (auto intro: merges.intros)

text \<open>If one stream has all items of a kind, they come out as it yields them.\<close>

lemma merges_filter:
  assumes "merges (add_mset s K) out {#}" "\<forall>x \<in> set s. P x" "\<forall>t \<in># K. \<forall>x \<in> set t. \<not> P x"
  shows "filter P out = s"
proof -
  have "image_mset (filter P) K = replicate_mset (size K) []"
    using assms(3) by (induction K) auto
  then have "merges (add_mset s (replicate_mset (size K) [])) (filter P out) {#}"
    using merges_filter_all [OF assms(1), of P] assms(2) by simp
  then show ?thesis using merges_single by blast
qed

lemma poll_next_unfold:
  "sel (cs_active (fill s)) = (active, r) \<Longrightarrow> poll_next sel s =
     (if r = Ready None \<and> \<not> cs_exhausted (fill s) then poll_next sel ((fill s)\<lparr>cs_active := active\<rparr>)
      else Some ((fill s)\<lparr>cs_active := active\<rparr>, r))"
  by (subst poll_next.simps) simp

lemma poll_next_now:
  "\<not> (snd (sel (cs_active (fill s))) = Ready None \<and> \<not> cs_exhausted (fill s)) \<Longrightarrow>
     poll_next sel s = Some ((fill s)\<lparr>cs_active := fst (sel (cs_active (fill s)))\<rparr>, snd (sel (cs_active (fill s))))"
  by (subst poll_next.simps) (auto split: prod.splits)

lemma select_okD:
  assumes "select_ok sel" "sel active = (left, r)"
  shows "(case r of
        Ready (Some x) \<Rightarrow> \<exists>xs others n. mset active = add_mset (x # xs) (others + replicate_mset n []) \<and>
          mset left = add_mset xs others
      | Ready None \<Rightarrow> left = [] \<and> (\<exists>n. mset active = replicate_mset n [])
      | Pending \<Rightarrow> left \<noteq> [] \<and> (\<exists>n. mset active = mset left + replicate_mset n []))"
  using assms unfolding select_ok_def by (metis (no_types, lifting) old.prod.case)

lemma select_shrinks:
  assumes "select_ok sel" "sel active = (left, r)"
  shows "length left \<le> length active"
proof -
  have shrink: "length left \<le> length active" if "mset active = M + K" "size M = size (mset left)" for M K
    using that by (metis le_add1 size_mset size_union)
  show ?thesis
  proof (cases r)
    case (Ready y)
    then show ?thesis
    proof (cases y)
      case (Some x)
      then obtain xs others n where "mset active = add_mset (x # xs) others + replicate_mset n []"
        "mset left = add_mset xs others" using select_okD [OF assms] Ready by auto
      then show ?thesis by (intro shrink [of "add_mset (x # xs) others" "replicate_mset n []"]) auto
    qed (use select_okD [OF assms] in simp)
  next
    case Pending
    then show ?thesis using select_okD [OF assms] shrink by auto
  qed
qed

text \<open>One more round of the loop: the active streams have all ended, and the others are still there.\<close>

lemma poll_round:
  assumes "select_ok sel" "0 < cs_limit s" "select_inv s"
    and "sel (cs_active (fill s)) = (active, Ready None)" "\<not> cs_exhausted (fill s)"
  shows "size (remaining ((fill s)\<lparr>cs_active := active\<rparr>)) < size (remaining s)"
    "select_inv ((fill s)\<lparr>cs_active := active\<rparr>)" "cs_limit ((fill s)\<lparr>cs_active := active\<rparr>) = cs_limit s"
    "\<exists>n. remaining s = remaining ((fill s)\<lparr>cs_active := active\<rparr>) + replicate_mset n []"
proof -
  note f = fill_spec [OF assms(3)]
  obtain n where act: "active = []" "mset (cs_active (fill s)) = replicate_mset n []"
    using select_okD [OF assms(1,4)] by auto
  have "0 < length (cs_active (fill s))" using f(4) [OF assms(5)] assms(2) by linarith
  then show "size (remaining ((fill s)\<lparr>cs_active := active\<rparr>)) < size (remaining s)"
    unfolding f(2) [symmetric] using act(1) by (simp add: remaining_def)
  show "select_inv ((fill s)\<lparr>cs_active := active\<rparr>)" "cs_limit ((fill s)\<lparr>cs_active := active\<rparr>) = cs_limit s"
    using f(1,3) act(1) assms(5) by (simp_all add: select_inv_def)
  show "\<exists>n. remaining s = remaining ((fill s)\<lparr>cs_active := active\<rparr>) + replicate_mset n []"
    unfolding f(2) [symmetric] using act by (auto simp: remaining_def)
qed

lemma poll_next_spec:
  assumes "select_ok sel" "0 < cs_limit s" "select_inv s"
  shows "\<exists>t r. poll_next sel s = Some (t, r) \<and> select_inv t \<and> cs_limit t = cs_limit s \<and>
    merges (remaining s) (case r of Ready (Some x) \<Rightarrow> [x] | _ \<Rightarrow> []) (remaining t) \<and>
    (r = Ready None \<longrightarrow> remaining t = {#})"
  using assms(2,3)
proof (induction "size (remaining s)" arbitrary: s rule: less_induct)
  case less
  obtain active r where sel: "sel (cs_active (fill s)) = (active, r)" by fastforce
  note f = fill_spec [OF less.prems(2)] and ok = select_okD [OF assms(1) sel]
  show ?case
  proof (cases "r = Ready None \<and> \<not> cs_exhausted (fill s)")
    case True
    let ?s = "(fill s)\<lparr>cs_active := active\<rparr>"
    have sel': "sel (cs_active (fill s)) = (active, Ready None)" "\<not> cs_exhausted (fill s)" using True sel by simp_all
    note round = poll_round [OF assms(1) less.prems sel']
    have lim: "0 < cs_limit ?s" using less.prems(1) round(3) by simp
    obtain t r' where t: "poll_next sel ?s = Some (t, r')" "select_inv t" "cs_limit t = cs_limit ?s"
      "merges (remaining ?s) (case r' of Ready (Some x) \<Rightarrow> [x] | _ \<Rightarrow> []) (remaining t)"
      "r' = Ready None \<longrightarrow> remaining t = {#}"
      using less.hyps [OF round(1) lim round(2)] by blast
    have p: "poll_next sel s = Some (t, r')" using poll_next_unfold [of sel s, OF sel] True t(1) by simp
    have m: "merges (remaining s) (case r' of Ready (Some x) \<Rightarrow> [x] | _ \<Rightarrow> []) (remaining t)"
      using round(4) merges_drop [OF t(4)] by metis
    have c: "cs_limit t = cs_limit s" using t(3) round(3) by (rule trans)
    show ?thesis by (rule exI [of _ t], rule exI [of _ r'], intro conjI p t(2) c m t(5))
  next
    case False
    let ?t = "(fill s)\<lparr>cs_active := active\<rparr>"
    have poll: "poll_next sel s = Some (?t, r)" using poll_next_unfold [of sel s, OF sel] False by simp
    have "length active \<le> length (cs_active (fill s))" by (rule select_shrinks [OF assms(1) sel])
    then have inv: "select_inv ?t" using f(1) by (auto simp: select_inv_def)
    have "merges (remaining (fill s)) (case r of Ready (Some x) \<Rightarrow> [x] | _ \<Rightarrow> []) (remaining ?t) \<and>
      (r = Ready None \<longrightarrow> remaining ?t = {#})"
    proof (cases r)
      case (Ready y)
      show ?thesis
      proof (cases y)
        case None
        then have "cs_iter (fill s) = []" using False Ready f(1) by (simp add: select_inv_def)
        moreover obtain n where "active = []" "mset (cs_active (fill s)) = replicate_mset n []"
          using ok Ready None by auto
        ultimately show ?thesis using Ready None merges_drop [OF merges_done [of "{#}"], of n] by (simp add: remaining_def)
      next
        case (Some x)
        then obtain xs others n where m: "mset (cs_active (fill s)) = add_mset (x # xs) (others + replicate_mset n [])"
          "mset active = add_mset xs others" using ok Ready by auto
        let ?M = "others + mset (cs_iter (fill s))"
        have "merges (add_mset (x # xs) ?M + replicate_mset n []) [x] (add_mset xs ?M)"
          by (rule merges_drop, rule merges_item, rule merges_done)
        then show ?thesis using Ready Some m by (simp add: remaining_def ac_simps)
      qed
    next
      case Pending
      then obtain n where "mset (cs_active (fill s)) = mset active + replicate_mset n []" using ok by auto
      then show ?thesis using Pending merges_drop [OF merges_done [of "mset active + mset (cs_iter (fill s))"], of n]
        by (simp add: remaining_def ac_simps)
    qed
    then show ?thesis using poll inv f(2,3) by auto
  qed
qed

text \<open>A consumer polls the stream again and again.\<close>

definition poll_step ::
  "'b concurrent_select \<Rightarrow> ('b list list \<Rightarrow> 'b list list \<times> 'b poll) \<Rightarrow> ('b concurrent_select \<times> 'b poll list) option" where
  "poll_step s sel = (case poll_next sel s of None \<Rightarrow> None | Some (t, r) \<Rightarrow> Some (t, [r]))"

fun yielded :: "'b poll list \<Rightarrow> 'b list" where
  "yielded [] = []"
| "yielded (Ready (Some x) # rs) = x # yielded rs"
| "yielded (_ # rs) = yielded rs"

lemma yielded_append [simp]: "yielded (xs @ ys) = yielded xs @ yielded ys"
  by (induction xs rule: yielded.induct) auto

lemma yielded_single: "yielded [r] = (case r of Ready (Some x) \<Rightarrow> [x] | _ \<Rightarrow> [])"
  by (cases r) (auto split: option.splits)

lemma poll_run_spec:
  assumes "list_all select_ok sels" "0 < cs_limit s" "select_inv s"
  shows "\<exists>t rs. run poll_step s sels = Some (t, rs) \<and> select_inv t \<and> cs_limit t = cs_limit s \<and>
    merges (remaining s) (yielded rs) (remaining t) \<and> (Ready None \<in> set rs \<longrightarrow> remaining t = {#}) \<and> length rs = length sels"
  using assms
proof (induction sels arbitrary: s)
  case Nil
  then show ?case by (auto intro: merges_done)
next
  case (Cons sel sels)
  obtain u r where u: "poll_next sel s = Some (u, r)" "select_inv u" "cs_limit u = cs_limit s"
    "merges (remaining s) (yielded [r]) (remaining u)" "r = Ready None \<longrightarrow> remaining u = {#}"
    using poll_next_spec [of sel s] Cons.prems unfolding yielded_single by auto
  obtain t rs where t: "run poll_step u sels = Some (t, rs)" "select_inv t" "cs_limit t = cs_limit u"
    "merges (remaining u) (yielded rs) (remaining t)" "Ready None \<in> set rs \<longrightarrow> remaining t = {#}" "length rs = length sels"
    using Cons.IH [of u] Cons.prems u(2,3) by auto
  have "run poll_step s (sel # sels) = Some (t, r # rs)" using u(1) t(1) by (simp add: poll_step_def)
  moreover have "merges (remaining s) (yielded (r # rs)) (remaining t)"
    using merges_trans [OF u(4) t(4)] yielded_append [of "[r]" rs] by simp
  moreover have "remaining t = {#}" if "remaining u = {#}"
    using merges_mset [OF t(4)] t(4) that by (auto elim: merges.cases)
  ultimately show ?case using t u by auto
qed

lemma select_empty: "select_ok sel \<Longrightarrow> sel [] = ([], Ready None)"
proof -
  assume ok: "select_ok sel"
  obtain left r where sel: "sel [] = (left, r)" by fastforce
  have "left = []" using select_shrinks [OF ok sel] by simp
  moreover have "r = Ready None"
    using select_okD [OF ok sel] \<open>left = []\<close> by (cases r) (auto split: option.splits)
  ultimately show ?thesis using sel by simp
qed

lemma poll_next_stuck:
  assumes "select_ok sel" "cs_limit s = 0" "\<not> cs_exhausted s" "cs_active s = []"
  shows "poll_next sel s = None"
proof -
  have stay: "fill s' = s'" if "cs_limit s' = 0" "cs_active s' = []" "\<not> cs_exhausted s'" for s' :: "'a concurrent_select"
    using that by (cases "cs_iter s'") (auto simp: fill_def)
  have keep: "s'\<lparr>cs_active := []\<rparr> = s'" if "cs_active s' = []" for s' :: "'a concurrent_select"
    using that by (cases s') simp
  have "poll_next q s' = Some x \<Longrightarrow> q = sel \<Longrightarrow> cs_limit s' = 0 \<Longrightarrow> cs_active s' = [] \<Longrightarrow> \<not> cs_exhausted s' \<Longrightarrow> False" for q s' x
    by (induction rule: poll_next.raw_induct [rotated 1, consumes 1])
      (auto simp: stay keep select_empty [OF assms(1)] split: if_splits prod.splits)
  then show ?thesis using assms by (cases "poll_next sel s") auto
qed

text \<open>C36: A poll of the line stream returns, whatever the streams of the items do, exactly when the limit is
  positive or nothing is left to start; the adapter always builds it with a positive limit.\<close>

theorem poll_next_returns_iff:
  assumes "select_ok sel" "select_inv s"
  shows "(\<exists>t r. poll_next sel s = Some (t, r)) = (0 < cs_limit s \<or> cs_exhausted s) \<and>
    0 < cs_limit (stream_start ext to_vec interleaved handler c event)"
proof -
  have "\<exists>t r. poll_next sel s = Some (t, r)" if "cs_exhausted s"
    using that fill_spec(6) [OF assms(2) that] by (cases "sel (cs_active s)") (simp add: poll_next_unfold)
  moreover have "poll_next sel s = None" if "cs_limit s = 0" "\<not> cs_exhausted s"
    using that assms by (intro poll_next_stuck) (auto simp: select_inv_def)
  moreover have "\<exists>t r. poll_next sel s = Some (t, r)" if "0 < cs_limit s"
    using poll_next_spec [OF assms(1) that assms(2)] by blast
  ultimately have "(\<exists>t r. poll_next sel s = Some (t, r)) = (0 < cs_limit s \<or> cs_exhausted s)"
    by (cases "cs_limit s = 0"; cases "cs_exhausted s") simp_all
  then show ?thesis by (simp add: stream_start_def)
qed

text \<open>A \<open>SelectAll\<close> that always polls the first stream.\<close>

fun first_stream :: "'b list list \<Rightarrow> 'b list list \<times> 'b poll" where
  "first_stream [] = ([], Ready None)"
| "first_stream ([] # rest) = first_stream rest"
| "first_stream ((x # xs) # rest) = (xs # rest, Ready (Some x))"

lemma first_stream_ok: "select_ok first_stream"
proof -
  have drop: "\<exists>n. add_mset [] (mset act) = M + replicate_mset n []" if "\<exists>n. mset act = M + replicate_mset n []"
    for act :: "'a list list" and M
    using that by (auto intro: exI [of _ "Suc _"])
  have "case first_stream active of (left, r) \<Rightarrow>
     (case r of
        Ready (Some x) \<Rightarrow> \<exists>xs others n. mset active = add_mset (x # xs) (others + replicate_mset n []) \<and>
          mset left = add_mset xs others
      | Ready None \<Rightarrow> left = [] \<and> (\<exists>n. mset active = replicate_mset n [])
      | Pending \<Rightarrow> left \<noteq> [] \<and> (\<exists>n. mset active = mset left + replicate_mset n []))" for active :: "'a list list"
  proof (induction active rule: first_stream.induct)
    case 1
    then show ?case by (auto intro: exI [of _ 0])
  next
    case (2 rest)
    obtain left r where s: "first_stream rest = (left, r)" by fastforce
    show ?case
    proof (cases r)
      case (Ready y)
      show ?thesis
      proof (cases y)
        case None
        then obtain n where "left = []" "mset rest = replicate_mset n []" using 2 s Ready by auto
        then show ?thesis using s Ready None by (auto intro: exI [of _ "Suc n"])
      next
        case (Some x)
        then obtain xs others n where "mset rest = add_mset (x # xs) (others + replicate_mset n [])"
          "mset left = add_mset xs others" using 2 s Ready by auto
        then show ?thesis using s Ready Some
          by (auto intro!: exI [of _ xs] exI [of _ others] exI [of _ "Suc n"])
      qed
    next
      case Pending
      then obtain n where "left \<noteq> []" "mset rest = mset left + replicate_mset n []" using 2 s by auto
      then show ?thesis using s Pending by (auto intro: exI [of _ "Suc n"])
    qed
  next
    case (3 x xs rest)
    show ?case unfolding first_stream.simps prod.case poll.case option.case
      by (intro exI [of _ xs] exI [of _ "mset rest"] exI [of _ "0 :: nat"] conjI) simp_all
  qed
  then show ?thesis unfolding select_ok_def by blast
qed

theorem poll_next_returns_iff_witness:
  "(\<exists>t r. poll_next first_stream \<lparr>cs_iter = [[1 :: nat]], cs_active = [], cs_limit = 0, cs_exhausted = False\<rparr> = Some (t, r)) =
      (0 < cs_limit \<lparr>cs_iter = [[1 :: nat]], cs_active = [], cs_limit = 0, cs_exhausted = False\<rparr> \<or>
       cs_exhausted \<lparr>cs_iter = [[1 :: nat]], cs_active = [], cs_limit = 0, cs_exhausted = False\<rparr>) \<and>
    0 < cs_limit (stream_start example_ext (\<lambda>_. Inl '''') False example_handler 0 example_event)"
  by (rule poll_next_returns_iff [OF first_stream_ok]) (simp add: select_inv_def)

lemma merges_map:
  "merges M' out N' \<Longrightarrow> M' = image_mset (map f) M \<Longrightarrow>
     \<exists>out0 N. out = map f out0 \<and> N' = image_mset (map f) N \<and> merges M out0 N"
proof (induction arbitrary: M rule: merges.induct)
  case (merges_done M')
  then show ?case by (auto intro: merges.merges_done)
next
  case (merges_ended M' out N')
  then obtain K where "M = add_mset [] K" "M' = image_mset (map f) K"
    using msed_map_invR [of "map f" M "[]" M'] by auto
  then show ?case using merges_ended.IH by (blast intro: merges.merges_ended)
next
  case (merges_item xs M' out N' x)
  then obtain K st where K: "M = add_mset st K" "map f st = x # xs" "M' = image_mset (map f) K"
    using msed_map_invR [of "map f" M "x # xs" M'] by auto
  then obtain y ys where y: "st = y # ys" "f y = x" "map f ys = xs" by auto
  then obtain out0 N where "out = map f out0" "N' = image_mset (map f) N" "merges (add_mset ys K) out0 N"
    using merges_item.IH [of "add_mset ys K"] K by auto
  then show ?case using K y merges.merges_item [of ys K out0 N y] by (auto intro!: exI [of _ "y # out0"])
qed

fun record_id :: "ndjson_record \<Rightarrow> string" where
  "record_id (LegacyRecord _ i) = ai_id i"
| "record_id (InterleavedRecord r) = nj_id r"

lemma ai_id_response_item [simp]: "ai_id (response_item ext handler item) = item_id item"
  by (auto simp: response_item_def error_response_item_def split: sum.splits)

lemma item_records_id: "r \<in> set (item_records ext interleaved handler item) \<Longrightarrow> record_id r = item_id item"
  by (cases interleaved) (auto simp: legacy_records, auto simp: item_records_def chunk_line_def blank_record_def Let_def split: sum.splits)

text \<open>C35: However the handler's futures and streams are interleaved, once the line stream has ended it has
  carried, one per line, exactly the records of the items, and (when the ids are distinct) those of each item
  in their own order.\<close>

theorem adapter_stream_complete:
  assumes "list_all select_ok sels" "distinct (map item_id (be_batch event))"
    and "run poll_step (stream_start ext to_vec interleaved handler c event) sels = Some (t, rs)" "Ready None \<in> set rs"
  shows "\<exists>recs. yielded rs = map (ndjson_line to_vec) recs \<and>
    mset recs = mset (concat (map (item_records ext interleaved handler) (be_batch event))) \<and>
    list_all (\<lambda>item. filter (\<lambda>r. record_id r = item_id item) recs = item_records ext interleaved handler item) (be_batch event)"
proof -
  let ?s = "stream_start ext to_vec interleaved handler c event"
  let ?R = "item_records ext interleaved handler"
  let ?M = "image_mset ?R (mset (be_batch event))"
  have start: "0 < cs_limit ?s" "select_inv ?s" "remaining ?s = image_mset (map (ndjson_line to_vec)) ?M"
    by (simp_all add: stream_start_def select_inv_def remaining_def image_mset.compositionality comp_def)
  have "merges (remaining ?s) (yielded rs) (remaining t)" "remaining t = {#}"
    using poll_run_spec [OF assms(1) start(1,2)] assms(3,4) by auto
  then obtain recs where recs: "yielded rs = map (ndjson_line to_vec) recs" "merges ?M recs {#}"
    using merges_map [OF _ start(3)] by (metis image_mset_is_empty_iff)
  have "mset recs = mset (concat (map ?R (be_batch event)))"
    using merges_mset [OF recs(2)] by (simp add: mset_concat image_mset.compositionality comp_def sum_mset_sum_list flip: mset_map)
  moreover have "filter (\<lambda>r. record_id r = item_id item) recs = ?R item" if item: "item \<in> set (be_batch event)" for item
  proof -
    obtain before after where split: "be_batch event = before @ item # after" using item by (auto dest: split_list)
    have "item_id x \<noteq> item_id item" if "x \<in> set (before @ after)" for x
      using that assms(2) split by (force simp: image_iff)
    then have others: "\<forall>st \<in># image_mset ?R (mset (before @ after)). \<forall>r \<in> set st. record_id r \<noteq> item_id item"
      by (auto dest: item_records_id)
    have "merges (add_mset (?R item) (image_mset ?R (mset (before @ after)))) recs {#}"
      using recs(2) split by simp
    then show ?thesis by (rule merges_filter) (use others item_records_id in auto)
  qed
  ultimately show ?thesis using recs(1) by (auto simp: list_all_iff)
qed

theorem adapter_stream_complete_witness:
  "\<exists>t rs. run poll_step (stream_start example_ext (\<lambda>r. Inr (record_id r)) True example_handler 2 example_event)
       (replicate 8 first_stream) = Some (t, rs) \<and>
     (\<exists>recs. yielded rs = map (ndjson_line (\<lambda>r. Inr (record_id r))) recs \<and>
       mset recs = mset (concat (map (item_records example_ext True example_handler) (be_batch example_event))) \<and>
       list_all (\<lambda>item. filter (\<lambda>r. record_id r = item_id item) recs = item_records example_ext True example_handler item)
         (be_batch example_event))"
proof -
  let ?s = "stream_start example_ext (\<lambda>r. Inr (record_id r)) True example_handler 2 example_event"
  have sels: "list_all select_ok (replicate 8 (first_stream :: bytes list list \<Rightarrow> _))"
    by (simp add: list_all_iff first_stream_ok)
  have d: "distinct (map item_id (be_batch example_event))" by (simp add: example_event_def example_items_def item_id_def)
  have "\<exists>t rs. run poll_step ?s (replicate 8 first_stream) = Some (t, rs) \<and> Ready None \<in> set rs"
    by (simp add: stream_start_def example_event_def example_items_def item_records_def example_handler_def
        handler_response_text_def poll_step_def poll_next_now fill_def normalize_concurrency_def numeral_eq_Suc)
  then obtain t rs where r: "run poll_step ?s (replicate 8 first_stream) = Some (t, rs)" "Ready None \<in> set rs" by blast
  show ?thesis using r(1) adapter_stream_complete [OF sels d r] by blast
qed

end
