(* ===== verification/Layer_Proxy.thy ===== *)
theory Layer_Proxy
  imports External
begin

text \<open>
  The runtime API proxy of \<open>bootstrap/layer-proxy\<close>: it stands between a Lambda runtime and the
  Runtime API, takes a gateway batch apart into one virtual invocation per item, and streams one
  NDJSON record per completed item as the response of the outer invocation. \<open>khone.rs\<close> parses the
  batch, \<open>ndjson.rs\<close> and the end of \<open>proxy.rs\<close> build the records, \<open>runtime_api.rs\<close> prepares
  the calls, \<open>state.rs\<close> and the handlers of \<open>proxy.rs\<close> are the state machine.

  The handlers run concurrently. Each takes the mutex for one or more critical sections; a critical
  section is one step here, and a handler is a small program whose place is a \<open>proxy_pc\<close>. What the
  Runtime API answers arrives as an event. The \<open>Notify\<close> keeps no permit: \<open>notify_waiters\<close> wakes
  the handlers that wait at that moment and nobody else.
\<close>

subsection \<open>Parsing the outer event (\<open>khone.rs\<close>)\<close>

record virtual_invocation =
  vi_id :: string
  vi_event_bytes :: bytes

definition item_request_id :: "json \<Rightarrow> string option" where
  "item_request_id item =
     Option.bind (Option.bind (json_get item ''requestContext'') (\<lambda>v. json_get v ''requestId'')) json_as_str"

fun parse_items :: "ext_lib \<Rightarrow> string set \<Rightarrow> json list \<Rightarrow> virtual_invocation list res" where
  "parse_items ext seen [] = Inr []"
| "parse_items ext seen (item # items) =
     (case item_request_id item of
        None \<Rightarrow> Inl ''batch item missing requestContext.requestId''
      | Some rid \<Rightarrow>
          if rid \<in> seen then Inl (''duplicate requestContext.requestId in batch ('' @ rid @ '')'')
          else
            (case json_to_vec ext item of
               Inl e \<Rightarrow> Inl e
             | Inr event_bytes \<Rightarrow>
                 (case parse_items ext (insert rid seen) items of
                    Inl e \<Rightarrow> Inl e
                  | Inr out \<Rightarrow> Inr (\<lparr>vi_id = rid, vi_event_bytes = event_bytes\<rparr> # out))))"

definition parse_outer_khone_batch :: "ext_lib \<Rightarrow> bytes \<Rightarrow> virtual_invocation list option res" where
  "parse_outer_khone_batch ext body =
     (case json_from_slice ext body of
        Inl _ \<Rightarrow> Inr None
      | Inr env \<Rightarrow>
          if Option.bind (json_get env ''v'') json_as_u64 \<noteq> Some 1 then Inr None
          else
            (case json_get env ''batch'' of
               None \<Rightarrow> Inr None
             | Some batch_value \<Rightarrow>
                 (case json_as_array batch_value of
                    None \<Rightarrow> Inl ''Khone batch field must be an array''
                  | Some batch \<Rightarrow>
                      if batch = [] then Inl ''Khone batch must contain at least one item''
                      else
                        (case parse_items ext {} batch of
                           Inl e \<Rightarrow> Inl e | Inr out \<Rightarrow> Inr (Some out)))))"

subsection \<open>Records (\<open>ndjson.rs\<close>) and the functions of other crates\<close>

record proxy_record =
  xr_v :: u8
  xr_id :: string
  xr_status_code :: u16
  xr_headers :: "(string, string) hashmap"
  xr_cookies :: "string list"
  xr_body :: string
  xr_is_base64_encoded :: bool

record apigw_response =
  ar_status_code :: u16
  ar_headers :: "(string, string) hashmap"
  ar_cookies :: "string list"
  ar_body :: string
  ar_is_base64_encoded :: bool

record proxy_lib =
  header_to_str :: "string \<Rightarrow> string option"
  status_is_success :: "u16 \<Rightarrow> bool"
  status_display :: "u16 \<Rightarrow> string"
  json_to_string :: "json \<Rightarrow> string"
  apigw_response_from_slice :: "bytes \<Rightarrow> apigw_response res"
  record_to_vec :: "proxy_record \<Rightarrow> bytes res"

definition encode_record_line :: "proxy_lib \<Rightarrow> proxy_record \<Rightarrow> bytes res" where
  "encode_record_line lib record =
     (case record_to_vec lib record of Inl e \<Rightarrow> Inl e | Inr out \<Rightarrow> Inr (out @ [CHR 0x0A]))"

definition parse_apigw_v2_response :: "proxy_lib \<Rightarrow> string \<Rightarrow> bytes \<Rightarrow> proxy_record res" where
  "parse_apigw_v2_response lib rid body =
     (case apigw_response_from_slice lib body of
        Inl e \<Rightarrow> Inl e
      | Inr resp \<Rightarrow> Inr \<lparr>xr_v = 1, xr_id = rid, xr_status_code = ar_status_code resp, xr_headers = ar_headers resp,
          xr_cookies = ar_cookies resp, xr_body = ar_body resp, xr_is_base64_encoded = ar_is_base64_encoded resp\<rparr>)"

definition proxy_error_record :: "string \<Rightarrow> u16 \<Rightarrow> proxy_record" where
  "proxy_error_record rid status_code = \<lparr>xr_v = 1, xr_id = rid, xr_status_code = status_code, xr_headers = [],
     xr_cookies = [], xr_body = [], xr_is_base64_encoded = False\<rparr>"

subsection \<open>Headers and calls (\<open>runtime_api.rs\<close>)\<close>

definition sanitize_next_headers :: "header_map \<Rightarrow> header_map" where
  "sanitize_next_headers headers =
     hdr_remove ''connection'' (hdr_remove ''transfer-encoding'' (hdr_remove ''content-length'' headers))"

definition forwarded_headers :: "header_map \<Rightarrow> header_map" where
  "forwarded_headers headers =
     filter (\<lambda>(k, v). ascii_lower k \<notin> {''host'', ''connection'', ''content-length'', ''transfer-encoding''}) headers"

record next_invocation =
  ni_request_id :: string
  ni_headers :: header_map
  ni_body :: bytes

text \<open>An HTTP exchange: no response, or status, headers and the body (which may fail to arrive).\<close>
type_synonym exchange = "(u16 \<times> header_map \<times> bytes res) res"

definition read_next_invocation :: "proxy_lib \<Rightarrow> exchange \<Rightarrow> next_invocation res" where
  "read_next_invocation lib resp =
     (case resp of
        Inl e \<Rightarrow> Inl e
      | Inr (status, headers, body) \<Rightarrow>
          if \<not> status_is_success lib status then Inl (''upstream /next failed (status '' @ status_display lib status @ '')'')
          else
            (case Option.bind (hdr_get headers ''lambda-runtime-aws-request-id'') (header_to_str lib) of
               None \<Rightarrow> Inl ''upstream /next missing Lambda-Runtime-Aws-Request-Id''
             | Some request_id \<Rightarrow>
                 (case body of
                    Inl e \<Rightarrow> Inl e
                  | Inr b \<Rightarrow> Inr \<lparr>ni_request_id = request_id, ni_headers = headers, ni_body = b\<rparr>)))"

definition invocation_path :: "string \<Rightarrow> string \<Rightarrow> string" where
  "invocation_path rid what = ''/2018-06-01/runtime/invocation/'' @ rid @ ''/'' @ what"

record proxy_response =
  px_status :: u16
  px_headers :: header_map
  px_body :: bytes

definition MAX_FORWARD_BODY_BYTES :: nat where
  "MAX_FORWARD_BODY_BYTES = 10 * 1024 * 1024"

text \<open>
  Every other request of the runtime goes to the Runtime API as it is. \<open>body\<close> is what the connection
  delivers; \<open>upstream\<close> is the Runtime API.
\<close>

definition handle_fallback ::
  "(string \<Rightarrow> string \<Rightarrow> header_map \<Rightarrow> bytes \<Rightarrow> (u16 \<times> header_map \<times> bytes) res) \<Rightarrow> string \<Rightarrow> string \<Rightarrow> header_map \<Rightarrow>
   bytes res \<Rightarrow> u16 + proxy_response" where
  "handle_fallback upstream method path_and_query headers body =
     (case body of
        Inl _ \<Rightarrow> Inl BAD_GATEWAY
      | Inr b \<Rightarrow>
          if MAX_FORWARD_BODY_BYTES < length b then Inl BAD_GATEWAY
          else
            (case upstream method path_and_query (forwarded_headers headers) b of
               Inl _ \<Rightarrow> Inl BAD_GATEWAY
             | Inr (status, hs, out) \<Rightarrow>
                 Inr \<lparr>px_status = status, px_headers = sanitize_next_headers hs, px_body = out\<rparr>))"

subsection \<open>State (\<open>state.rs\<close>)\<close>

record pass_through =
  pt_request_id :: string
  pt_headers :: header_map
  pt_body :: bytes
  pt_delivered :: bool

record khone_batch =
  kb_outer_request_id :: string
  kb_base_headers :: header_map
  kb_queue :: "virtual_invocation list"
  kb_inflight :: "string set"
  kb_stream_tx :: "chan option"
  kb_stream_join :: "chan option"

datatype active_invocation =
    ActiveNone
  | PassThrough pass_through
  | KhoneBatch khone_batch
  | KhoneFinalizing

record inner_state =
  in_fetching_outer :: bool
  in_active :: active_invocation

text \<open>
  A streaming response under way (\<open>start_streaming_response\<close>): the lines sent so far, and whether
  its sender still exists. \<open>st_virtuals\<close> records the batch it answers.
\<close>

record proxy_stream =
  st_request_id :: string
  st_virtuals :: "virtual_invocation list"
  st_lines :: "bytes list"
  st_open :: bool

definition send_line :: "proxy_stream list \<Rightarrow> chan option \<Rightarrow> bytes \<Rightarrow> proxy_stream list" where
  "send_line ss tx line =
     (case tx of None \<Rightarrow> ss | Some k \<Rightarrow> ss[k := (ss ! k)\<lparr>st_lines := st_lines (ss ! k) @ [line]\<rparr>])"

definition close_stream :: "proxy_stream list \<Rightarrow> chan option \<Rightarrow> proxy_stream list" where
  "close_stream ss tx = (case tx of None \<Rightarrow> ss | Some k \<Rightarrow> ss[k := (ss ! k)\<lparr>st_open := False\<rparr>])"

text \<open>Overwriting the active invocation drops what it held, the sender of a batch included.\<close>

definition drop_active :: "active_invocation \<Rightarrow> proxy_stream list \<Rightarrow> proxy_stream list" where
  "drop_active a ss = (case a of KhoneBatch b \<Rightarrow> close_stream ss (kb_stream_tx b) | _ \<Rightarrow> ss)"

subsection \<open>Critical sections of the handlers (\<open>proxy.rs\<close>)\<close>

definition try_take_next ::
  "ext_lib \<Rightarrow> inner_state \<Rightarrow> inner_state \<times> (u16 + proxy_response option)" where
  "try_take_next ext inner =
     (case in_active inner of
        PassThrough pass \<Rightarrow>
          if pt_delivered pass then (inner, Inr None)
          else (inner\<lparr>in_active := PassThrough (pass\<lparr>pt_delivered := True\<rparr>)\<rparr>,
                Inr (Some \<lparr>px_status = OK_STATUS, px_headers = pt_headers pass, px_body = pt_body pass\<rparr>))
      | KhoneBatch batch \<Rightarrow>
          (case kb_queue batch of
             [] \<Rightarrow> (inner, Inr None)
           | vi # rest \<Rightarrow>
               let inner' = inner\<lparr>in_active := KhoneBatch (batch\<lparr>kb_queue := rest,
                                    kb_inflight := insert (vi_id vi) (kb_inflight batch)\<rparr>)\<rparr>
               in case header_value_from_str ext (vi_id vi) of
                    Inl _ \<Rightarrow> (inner', Inl BAD_GATEWAY)
                  | Inr value \<Rightarrow>
                      (inner', Inr (Some \<lparr>px_status = OK_STATUS,
                         px_headers = hdr_insert ''lambda-runtime-aws-request-id'' value (kb_base_headers batch),
                         px_body = vi_event_bytes vi\<rparr>)))
      | ActiveNone \<Rightarrow> (inner, Inr None)
      | KhoneFinalizing \<Rightarrow> (inner, Inr None))"

text \<open>Whether the handler that asks becomes the one that fetches the next outer invocation.\<close>

definition claim_fetch :: "inner_state \<Rightarrow> inner_state \<times> bool" where
  "claim_fetch inner =
     (if in_active inner = ActiveNone
      then (inner\<lparr>in_fetching_outer := True\<rparr>, \<not> in_fetching_outer inner)
      else (inner, False))"

text \<open>
  The outer invocation is in: a batch opens its response stream (its handle is the next free one),
  anything else is passed through. The sanitised headers are used for a batch only.
\<close>

definition activate ::
  "next_invocation \<Rightarrow> virtual_invocation list option \<Rightarrow> inner_state \<Rightarrow> proxy_stream list \<Rightarrow>
   inner_state \<times> proxy_stream list" where
  "activate nxt parsed inner ss =
     (let headers = sanitize_next_headers (ni_headers nxt) in
      case parsed of
        Some virtuals \<Rightarrow>
          let tx = length ss in
          (\<lparr>in_fetching_outer = False, in_active = KhoneBatch
              \<lparr>kb_outer_request_id = ni_request_id nxt,
               kb_base_headers = hdr_remove ''lambda-runtime-function-response-mode'' headers,
               kb_queue = virtuals, kb_inflight = {}, kb_stream_tx = Some tx, kb_stream_join = Some tx\<rparr>\<rparr>,
           drop_active (in_active inner) ss @
             [\<lparr>st_request_id = ni_request_id nxt, st_virtuals = virtuals, st_lines = [], st_open = True\<rparr>])
      | None \<Rightarrow>
          (\<lparr>in_fetching_outer = False, in_active = PassThrough
              \<lparr>pt_request_id = ni_request_id nxt, pt_headers = ni_headers nxt, pt_body = ni_body nxt,
               pt_delivered = False\<rparr>\<rparr>, drop_active (in_active inner) ss))"

datatype completion_kind =
    CompletionResponse header_map bytes
  | CompletionError header_map bytes

datatype completion_outcome =
    ForwardToUpstream string header_map bytes
  | HandledLocally "chan option"

definition completion_record :: "proxy_lib \<Rightarrow> string \<Rightarrow> completion_kind \<Rightarrow> proxy_record" where
  "completion_record lib rid kind =
     (case kind of
        CompletionResponse headers body \<Rightarrow>
          (case parse_apigw_v2_response lib rid body of
             Inl _ \<Rightarrow> proxy_error_record rid BAD_GATEWAY | Inr r \<Rightarrow> r)
      | CompletionError headers body \<Rightarrow> proxy_error_record rid INTERNAL_SERVER_ERROR)"

definition handle_completion_inner ::
  "proxy_lib \<Rightarrow> inner_state \<Rightarrow> proxy_stream list \<Rightarrow> string \<Rightarrow> completion_kind \<Rightarrow>
   (inner_state \<times> proxy_stream list) \<times> (u16 + completion_outcome)" where
  "handle_completion_inner lib inner ss rid kind =
     (case in_active inner of
        PassThrough pass \<Rightarrow>
          if rid \<noteq> pt_request_id pass then ((inner, ss), Inr (HandledLocally None))
          else ((inner, ss), Inr (case kind of
                  CompletionResponse headers body \<Rightarrow> ForwardToUpstream (invocation_path rid ''response'') headers body
                | CompletionError headers body \<Rightarrow> ForwardToUpstream (invocation_path rid ''error'') headers body))
      | KhoneBatch batch \<Rightarrow>
          if rid \<notin> kb_inflight batch then ((inner, ss), Inr (HandledLocally None))
          else
            (let batch1 = batch\<lparr>kb_inflight := kb_inflight batch - {rid}\<rparr>;
                inner1 = inner\<lparr>in_active := KhoneBatch batch1\<rparr>
            in case encode_record_line lib (completion_record lib rid kind) of
                 Inl _ \<Rightarrow> ((inner1, ss), Inl BAD_GATEWAY)
               | Inr line \<Rightarrow>
                   let ss1 = send_line ss (kb_stream_tx batch) line in
                   if kb_queue batch1 = [] \<and> kb_inflight batch1 = {} then
                     ((inner\<lparr>in_active := KhoneFinalizing\<rparr>, close_stream ss1 (kb_stream_tx batch)),
                      Inr (HandledLocally (kb_stream_join batch)))
                   else ((inner1, ss1), Inr (HandledLocally None)))
      | ActiveNone \<Rightarrow> ((inner, ss), Inr (HandledLocally None))
      | KhoneFinalizing \<Rightarrow> ((inner, ss), Inr (HandledLocally None)))"

subsection \<open>The handlers as concurrent programs\<close>

text \<open>
  A poll of \<open>/next\<close> is at \<open>NextTake\<close> (before the first critical section of the loop),
  \<open>NextDecide\<close> (before the second), \<open>NextFetch\<close> (waiting for the Runtime API),
  \<open>NextPostError\<close> (posting the parse error), \<open>NextNotify\<close> (before the notification after a
  fetch), \<open>NextSubscribe\<close> (the lock is released, the \<open>Notified\<close> is not created yet) or
  \<open>NextWait\<close>. A completion is at \<open>ComplEnter\<close> or waits for the forwarded call. \<open>FinalizeJoin\<close>
  is the spawned task that waits for the outer response. The rest are replies.
\<close>

datatype proxy_pc =
    NextTake | NextDecide | NextFetch | NextPostError | NextNotify | NextSubscribe | NextWait
  | NextReply "u16 + proxy_response"
  | ComplEnter string completion_kind | ComplForward | ComplReply "u16 + u16"
  | FinalizeJoin "chan" | FinalizeDone

record proxy =
  ly_inner :: inner_state
  ly_streams :: "proxy_stream list"
  ly_handlers :: "proxy_pc list"

definition proxy_new :: proxy where
  "proxy_new = \<lparr>ly_inner = \<lparr>in_fetching_outer = False, in_active = ActiveNone\<rparr>, ly_streams = [], ly_handlers = []\<rparr>"

text \<open>Calls to the Runtime API.\<close>

datatype proxy_call =
    GetNext
  | PostCall string header_map bytes

datatype proxy_event =
    PollNext
  | Complete string completion_kind
  | Act nat
  | Fetched nat exchange
  | ErrorPosted nat "u16 res"
  | Forwarded nat "u16 res"
  | Joined nat "unit res"

fun wake :: "proxy_pc \<Rightarrow> proxy_pc" where
  "wake NextWait = NextTake"
| "wake pc = pc"

definition goto :: "nat \<Rightarrow> proxy_pc \<Rightarrow> proxy \<Rightarrow> proxy" where
  "goto i pc s = s\<lparr>ly_handlers := (ly_handlers s)[i := pc]\<rparr>"

definition spawn :: "proxy_pc \<Rightarrow> proxy \<Rightarrow> proxy" where
  "spawn pc s = s\<lparr>ly_handlers := ly_handlers s @ [pc]\<rparr>"

definition notify_waiters :: "proxy \<Rightarrow> proxy" where
  "notify_waiters s = s\<lparr>ly_handlers := map wake (ly_handlers s)\<rparr>"

definition stop_fetching :: "proxy \<Rightarrow> proxy" where
  "stop_fetching s = s\<lparr>ly_inner := (ly_inner s)\<lparr>in_fetching_outer := False\<rparr>\<rparr>"

definition deactivate :: "proxy \<Rightarrow> proxy" where
  "deactivate s = s\<lparr>ly_inner := (ly_inner s)\<lparr>in_active := ActiveNone\<rparr>,
     ly_streams := drop_active (in_active (ly_inner s)) (ly_streams s)\<rparr>"

definition post_outer_parse_error :: "proxy_lib \<Rightarrow> string \<Rightarrow> string \<Rightarrow> proxy_call" where
  "post_outer_parse_error lib outer_request_id error_message =
     PostCall (invocation_path outer_request_id ''error'')
       (forwarded_headers [(''content-type'', ''application/json''),
          (''lambda-runtime-function-error-type'', ''KhoneBatchParseError'')])
       (json_to_string lib (JObject
          [(''errorMessage'', JString (''failed to parse Khone batch envelope: '' @ error_message)),
           (''errorType'', JString ''KhoneBatchParseError'')]))"

text \<open>One critical section of handler \<open>i\<close>, or one answer of the Runtime API to it.\<close>

definition act :: "proxy_lib \<Rightarrow> ext_lib \<Rightarrow> proxy \<Rightarrow> nat \<Rightarrow> proxy_pc \<Rightarrow> (proxy \<times> proxy_call list) option" where
  "act lib ext s i pc =
     (case pc of
        NextTake \<Rightarrow>
          let (inner, r) = try_take_next ext (ly_inner s); s = s\<lparr>ly_inner := inner\<rparr>
          in (case r of
                Inl status \<Rightarrow> Some (goto i (NextReply (Inl status)) s, [])
              | Inr (Some res) \<Rightarrow> Some (goto i (NextReply (Inr res)) s, [])
              | Inr None \<Rightarrow> Some (goto i NextDecide s, []))
      | NextDecide \<Rightarrow>
          let (inner, should_fetch) = claim_fetch (ly_inner s); s = s\<lparr>ly_inner := inner\<rparr>
          in if should_fetch then Some (goto i NextFetch s, [GetNext]) else Some (goto i NextSubscribe s, [])
      | NextNotify \<Rightarrow> Some (goto i NextTake (notify_waiters s), [])
      | NextSubscribe \<Rightarrow> Some (goto i NextWait s, [])
      | ComplEnter rid kind \<Rightarrow>
          let ((inner, ss), r) = handle_completion_inner lib (ly_inner s) (ly_streams s) rid kind;
              s = s\<lparr>ly_inner := inner, ly_streams := ss\<rparr>
          in (case r of
                Inl status \<Rightarrow> Some (goto i (ComplReply (Inl status)) s, [])
              | Inr (ForwardToUpstream path headers body) \<Rightarrow>
                  Some (goto i ComplForward s, [PostCall path (forwarded_headers headers) body])
              | Inr (HandledLocally None) \<Rightarrow> Some (goto i (ComplReply (Inr ACCEPTED)) s, [])
              | Inr (HandledLocally (Some join)) \<Rightarrow>
                  Some (spawn (FinalizeJoin join) (goto i (ComplReply (Inr ACCEPTED)) s), []))
      | _ \<Rightarrow> None)"

definition fetched ::
  "proxy_lib \<Rightarrow> ext_lib \<Rightarrow> proxy \<Rightarrow> nat \<Rightarrow> exchange \<Rightarrow> proxy \<times> proxy_call list" where
  "fetched lib ext s i resp =
     (case read_next_invocation lib resp of
        Inl _ \<Rightarrow> (goto i (NextReply (Inl BAD_GATEWAY)) (notify_waiters (stop_fetching s)), [])
      | Inr nxt \<Rightarrow>
          (case parse_outer_khone_batch ext (ni_body nxt) of
             Inl err \<Rightarrow> (goto i NextPostError s, [post_outer_parse_error lib (ni_request_id nxt) err])
           | Inr parsed \<Rightarrow>
               let (inner, ss) = activate nxt parsed (ly_inner s) (ly_streams s)
               in (goto i NextNotify (s\<lparr>ly_inner := inner, ly_streams := ss\<rparr>), [])))"

definition success :: "proxy_lib \<Rightarrow> u16 res \<Rightarrow> bool" where
  "success lib r = (case r of Inl _ \<Rightarrow> False | Inr status \<Rightarrow> status_is_success lib status)"

fun proxy_step ::
  "proxy_lib \<Rightarrow> ext_lib \<Rightarrow> proxy \<Rightarrow> proxy_event \<Rightarrow> (proxy \<times> proxy_call list) option" where
  "proxy_step lib ext s PollNext = Some (spawn NextTake s, [])"
| "proxy_step lib ext s (Complete rid kind) = Some (spawn (ComplEnter rid kind) s, [])"
| "proxy_step lib ext s (Act i) =
     (if i < length (ly_handlers s) then act lib ext s i (ly_handlers s ! i) else None)"
| "proxy_step lib ext s (Fetched i resp) =
     (if i < length (ly_handlers s) \<and> ly_handlers s ! i = NextFetch then Some (fetched lib ext s i resp) else None)"
| "proxy_step lib ext s (ErrorPosted i r) =
     (if i < length (ly_handlers s) \<and> ly_handlers s ! i = NextPostError then
        Some (goto i (if success lib r then NextTake else NextReply (Inl BAD_GATEWAY)) (notify_waiters (stop_fetching s)), [])
      else None)"
| "proxy_step lib ext s (Forwarded i r) =
     (if i < length (ly_handlers s) \<and> ly_handlers s ! i = ComplForward then
        if success lib r then Some (goto i (ComplReply (Inr ACCEPTED)) (notify_waiters (deactivate s)), [])
        else Some (goto i (ComplReply (Inl BAD_GATEWAY)) s, [])
      else None)"
| "proxy_step lib ext s (Joined i r) =
     (if i < length (ly_handlers s) \<and> (case ly_handlers s ! i of FinalizeJoin _ \<Rightarrow> True | _ \<Rightarrow> False) then
        Some (goto i FinalizeDone (notify_waiters (deactivate s)), [])
      else None)"

subsection \<open>The batch parser\<close>

lemma parse_items_ids:
  "parse_items ext seen items = Inr out \<Longrightarrow>
     distinct (map vi_id out) \<and> set (map vi_id out) \<inter> seen = {} \<and>
     list_all2 (\<lambda>item v. item_request_id item = Some (vi_id v) \<and> json_to_vec ext item = Inr (vi_event_bytes v)) items out"
proof (induction items arbitrary: seen out)
  case Nil
  then show ?case by simp
next
  case (Cons item items)
  then obtain rid ev out' where
    r: "item_request_id item = Some rid" "rid \<notin> seen" "json_to_vec ext item = Inr ev"
    "parse_items ext (insert rid seen) items = Inr out'" "out = \<lparr>vi_id = rid, vi_event_bytes = ev\<rparr> # out'"
    by (auto split: option.splits sum.splits if_splits)
  from Cons.IH [OF r(4)] r show ?case by auto
qed

lemma parse_items_iff:
  "parse_items ext seen items = Inr out \<longleftrightarrow>
     list_all2 (\<lambda>item v. item_request_id item = Some (vi_id v) \<and> json_to_vec ext item = Inr (vi_event_bytes v)) items out \<and>
     distinct (map vi_id out) \<and> set (map vi_id out) \<inter> seen = {}"
proof
  show "list_all2 (\<lambda>item v. item_request_id item = Some (vi_id v) \<and> json_to_vec ext item = Inr (vi_event_bytes v)) items out \<and>
     distinct (map vi_id out) \<and> set (map vi_id out) \<inter> seen = {} \<Longrightarrow> parse_items ext seen items = Inr out"
  proof (induction items arbitrary: seen out)
    case Nil
    then show ?case by simp
  next
    case (Cons item items)
    then obtain v vs where "out = v # vs" by (auto simp: list_all2_Cons1)
    then show ?case using Cons.IH [where seen = "insert (vi_id v) seen" and out = vs] Cons.prems by auto
  qed
qed (use parse_items_ids in blast)

subsection \<open>Counting handlers\<close>

definition tally :: "(proxy_pc \<Rightarrow> bool) \<Rightarrow> proxy \<Rightarrow> nat" where
  "tally P s = length (filter P (ly_handlers s))"

lemma tally_goto:
  "i < length (ly_handlers s) \<Longrightarrow>
     tally P (goto i pc s) + of_bool (P (ly_handlers s ! i)) = tally P s + of_bool (P pc)"
  by (simp add: tally_def goto_def length_filter_update)

lemma tally_pos: "i < length (ly_handlers s) \<Longrightarrow> P (ly_handlers s ! i) \<Longrightarrow> 0 < tally P s"
  by (auto simp: tally_def filter_empty_conv)

lemma tally_notify: "P NextWait = P NextTake \<Longrightarrow> tally P (notify_waiters s) = tally P s"
proof -
  assume a: "P NextWait = P NextTake"
  have "P (wake pc) = P pc" for pc using a by (cases pc) auto
  then show ?thesis by (simp add: tally_def notify_waiters_def filter_map comp_def)
qed

lemma tally_simps [simp]:
  "tally P (s\<lparr>ly_inner := x\<rparr>) = tally P s"
  "tally P (s\<lparr>ly_inner := x, ly_streams := ss\<rparr>) = tally P s"
  "tally P (stop_fetching s) = tally P s"
  "tally P (deactivate s) = tally P s"
  "tally P (spawn pc s) = tally P s + of_bool (P pc)"
  by (auto simp: tally_def stop_fetching_def deactivate_def spawn_def)

lemma handlers_simps [simp]:
  "ly_handlers (stop_fetching s) = ly_handlers s" "ly_handlers (deactivate s) = ly_handlers s"
  "length (ly_handlers (goto i pc s)) = length (ly_handlers s)"
  "length (ly_handlers (notify_waiters s)) = length (ly_handlers s)"
  "ly_inner (goto i pc s) = ly_inner s" "ly_streams (goto i pc s) = ly_streams s"
  "ly_inner (spawn pc s) = ly_inner s" "ly_streams (spawn pc s) = ly_streams s"
  "ly_handlers (spawn pc s) = ly_handlers s @ [pc]"
  "ly_inner (notify_waiters s) = ly_inner s" "ly_streams (notify_waiters s) = ly_streams s"
  "ly_streams (stop_fetching s) = ly_streams s"
  "ly_inner (stop_fetching s) = (ly_inner s)\<lparr>in_fetching_outer := False\<rparr>"
  "ly_inner (deactivate s) = (ly_inner s)\<lparr>in_active := ActiveNone\<rparr>"
  "ly_streams (deactivate s) = drop_active (in_active (ly_inner s)) (ly_streams s)"
  by (auto simp: stop_fetching_def deactivate_def goto_def notify_waiters_def spawn_def)

lemma handler_notify: "i < length (ly_handlers s) \<Longrightarrow> ly_handlers (notify_waiters s) ! i = wake (ly_handlers s ! i)"
  by (simp add: notify_waiters_def)

subsection \<open>One fetch at a time\<close>

fun fetching :: "proxy_pc \<Rightarrow> bool" where
  "fetching NextFetch = True" | "fetching NextPostError = True" | "fetching _ = False"

definition fetch_inv :: "proxy \<Rightarrow> bool" where
  "fetch_inv s \<longleftrightarrow> tally fetching s = of_bool (in_fetching_outer (ly_inner s)) \<and>
     (in_fetching_outer (ly_inner s) \<longrightarrow> in_active (ly_inner s) = ActiveNone)"

lemma try_take_next_flag:
  "try_take_next ext inner = (inner', r) \<Longrightarrow>
     in_fetching_outer inner' = in_fetching_outer inner \<and> (in_active inner = ActiveNone \<longrightarrow> inner' = inner)"
  by (auto simp: try_take_next_def Let_def split: active_invocation.splits if_splits list.splits sum.splits)

lemma handle_completion_inner_flag:
  "handle_completion_inner lib inner ss rid kind = ((inner', ss'), r) \<Longrightarrow>
     in_fetching_outer inner' = in_fetching_outer inner \<and> (in_active inner = ActiveNone \<longrightarrow> inner' = inner)"
  by (auto simp: handle_completion_inner_def Let_def split: active_invocation.splits if_splits sum.splits)

lemma fetch_inv_goto:
  assumes "fetch_inv s" "i < length (ly_handlers s)" "fetching (ly_handlers s ! i) = fetching pc"
    and "in_fetching_outer inner = in_fetching_outer (ly_inner s)"
    and "in_active (ly_inner s) = ActiveNone \<longrightarrow> in_active inner = ActiveNone"
  shows "fetch_inv (goto i pc (s\<lparr>ly_inner := inner\<rparr>))" "fetch_inv (goto i pc (s\<lparr>ly_inner := inner, ly_streams := ss\<rparr>))"
  using assms tally_goto [of i "s\<lparr>ly_inner := inner\<rparr>" fetching pc]
    tally_goto [of i "s\<lparr>ly_inner := inner, ly_streams := ss\<rparr>" fetching pc]
  by (auto simp: fetch_inv_def)

lemma fetch_inv_goto_same:
  "fetch_inv s \<Longrightarrow> i < length (ly_handlers s) \<Longrightarrow> fetching (ly_handlers s ! i) = fetching pc \<Longrightarrow> fetch_inv (goto i pc s)"
  using tally_goto [of i s fetching pc] by (auto simp: fetch_inv_def)

lemma fetch_inv_spawn: "\<not> fetching pc \<Longrightarrow> fetch_inv (spawn pc s) = fetch_inv s"
  by (simp add: fetch_inv_def)

lemma fetch_inv_act:
  assumes "fetch_inv s" "i < length (ly_handlers s)" "act lib ext s i (ly_handlers s ! i) = Some (s', os)"
  shows "fetch_inv s'"
proof (cases "ly_handlers s ! i")
  case NextTake
  obtain inner r where t: "try_take_next ext (ly_inner s) = (inner, r)" by fastforce
  obtain pc where "s' = goto i pc (s\<lparr>ly_inner := inner\<rparr>)" "\<not> fetching pc"
    using assms(3) NextTake t by (auto simp: act_def Let_def split: sum.splits option.splits)
  then show ?thesis using assms(1,2) NextTake try_take_next_flag [OF t] by (auto intro!: fetch_inv_goto)
next
  case NextDecide
  have "tally fetching (goto i pc (s\<lparr>ly_inner := x\<rparr>)) = tally fetching s + of_bool (fetching pc)" for pc x
    using tally_goto [of i "s\<lparr>ly_inner := x\<rparr>" fetching pc] assms(2) NextDecide by simp
  moreover have "tally fetching (goto i NextSubscribe s) = tally fetching s"
    using tally_goto [of i s fetching NextSubscribe] assms(2) NextDecide by simp
  ultimately show ?thesis using assms NextDecide
    by (auto simp: act_def claim_fetch_def fetch_inv_def Let_def split: if_splits)
next
  case NextNotify
  have "fetch_inv (notify_waiters s)" using assms(1) by (simp add: fetch_inv_def tally_notify)
  moreover have "ly_handlers (notify_waiters s) ! i = NextNotify" using assms(2) NextNotify by (simp add: handler_notify)
  ultimately have "fetch_inv (goto i NextTake (notify_waiters s))"
    using assms(2) by (intro fetch_inv_goto_same) auto
  then show ?thesis using assms(3) NextNotify by (simp add: act_def)
next
  case NextSubscribe
  have "fetch_inv (goto i NextWait s)"
    using assms(1,2) NextSubscribe by (intro fetch_inv_goto_same) auto
  then show ?thesis using assms(3) NextSubscribe by (simp add: act_def)
next
  case (ComplEnter rid kind)
  obtain inner ss r where t: "handle_completion_inner lib (ly_inner s) (ly_streams s) rid kind = ((inner, ss), r)"
    by (metis surj_pair)
  have "fetch_inv (goto i pc (s\<lparr>ly_inner := inner, ly_streams := ss\<rparr>))" if "\<not> fetching pc" for pc
    using assms(1,2) ComplEnter that handle_completion_inner_flag [OF t] by (intro fetch_inv_goto) auto
  then show ?thesis using assms(3) ComplEnter t
    by (auto simp: act_def Let_def fetch_inv_spawn split: sum.splits option.splits completion_outcome.splits)
qed (use assms in \<open>auto simp: act_def\<close>)

lemma fetching_handler: "fetch_inv s \<Longrightarrow> i < length (ly_handlers s) \<Longrightarrow> fetching (ly_handlers s ! i) \<Longrightarrow>
    in_fetching_outer (ly_inner s) \<and> in_active (ly_inner s) = ActiveNone"
  using tally_pos [of i s fetching] by (auto simp: fetch_inv_def split: if_splits)

lemma fetch_inv_step:
  assumes "fetch_inv s" "proxy_step lib ext s e = Some (s', os)"
  shows "fetch_inv s'"
proof (cases e)
  case (Act i)
  then show ?thesis using assms fetch_inv_act by (auto split: if_splits)
next
  case (Fetched i resp)
  then have i: "i < length (ly_handlers s)" "ly_handlers s ! i = NextFetch" and s': "(s', os) = fetched lib ext s i resp"
    using assms(2) by (auto split: if_splits)
  have f: "in_fetching_outer (ly_inner s)" "in_active (ly_inner s) = ActiveNone" "tally fetching s = 1"
    using fetching_handler [OF assms(1) i(1)] i(2) assms(1) by (auto simp: fetch_inv_def)
  have t: "tally fetching (goto i pc s1) = of_bool (fetching pc)"
    if "ly_handlers s1 = ly_handlers s" for pc s1
    using tally_goto [of i s1 fetching pc] that i f(3) by (simp add: tally_def)
  have n: "tally fetching (goto i pc (notify_waiters (stop_fetching s))) = of_bool (fetching pc)" for pc
    using tally_goto [of i "notify_waiters (stop_fetching s)" fetching pc] i f(3)
    by (simp add: tally_notify handler_notify)
  show ?thesis
    using s' f t n
    by (auto simp: fetched_def activate_def fetch_inv_def Let_def split: sum.splits option.splits)
next
  case (ErrorPosted i r)
  then have i: "i < length (ly_handlers s)" "ly_handlers s ! i = NextPostError"
    using assms(2) by (auto split: if_splits)
  have f: "in_active (ly_inner s) = ActiveNone" "tally fetching s = 1"
    using fetching_handler [OF assms(1) i(1)] i(2) assms(1) by (auto simp: fetch_inv_def)
  have "tally fetching (goto i pc (notify_waiters (stop_fetching s))) = of_bool (fetching pc)" for pc
    using tally_goto [of i "notify_waiters (stop_fetching s)" fetching pc] i f(2)
    by (simp add: tally_notify handler_notify)
  then show ?thesis using assms(2) ErrorPosted i f by (auto simp: fetch_inv_def)
next
  case (Forwarded i r)
  then have i: "i < length (ly_handlers s)" "ly_handlers s ! i = ComplForward"
    using assms(2) by (auto split: if_splits)
  have "tally fetching (goto i (ComplReply x) (notify_waiters (deactivate s))) = tally fetching s"
    "tally fetching (goto i (ComplReply x) s) = tally fetching s" for x
    using tally_goto [of i "notify_waiters (deactivate s)" fetching] tally_goto [of i s fetching] i
    by (simp_all add: tally_notify handler_notify)
  then show ?thesis using assms Forwarded i by (auto simp: fetch_inv_def split: if_splits)
next
  case (Joined i r)
  then obtain j where i: "i < length (ly_handlers s)" "ly_handlers s ! i = FinalizeJoin j"
    using assms(2) by (auto split: if_splits proxy_pc.splits)
  have "tally fetching (goto i FinalizeDone (notify_waiters (deactivate s))) = tally fetching s"
    using tally_goto [of i "notify_waiters (deactivate s)" fetching] i
    by (simp add: tally_notify handler_notify)
  then show ?thesis using assms Joined i by (auto simp: fetch_inv_def)
qed (use assms in \<open>auto simp: fetch_inv_def\<close>)

subsection \<open>What a response stream carries\<close>

text \<open>
  Every virtual invocation of a batch is in exactly one place: waiting in the queue, in flight in the
  runtime, or answered by one record on the stream. A stream that is closed has a record for each.
\<close>

definition carries :: "proxy_lib \<Rightarrow> proxy_stream \<Rightarrow> proxy_record list \<Rightarrow> bool" where
  "carries lib st recs \<longleftrightarrow> list_all2 (\<lambda>r line. (\<exists>kind. r = completion_record lib (xr_id r) kind) \<and>
     encode_record_line lib r = Inr line) recs (st_lines st)"

definition stream_partition :: "string list \<Rightarrow> string list \<Rightarrow> string set \<Rightarrow> string list \<Rightarrow> bool" where
  "stream_partition ids answered inflight queued \<longleftrightarrow>
     distinct (answered @ queued) \<and> inflight \<inter> set (answered @ queued) = {} \<and>
     set answered \<union> inflight \<union> set queued = set ids"

definition stream_live :: "proxy_lib \<Rightarrow> khone_batch \<Rightarrow> proxy_stream \<Rightarrow> bool" where
  "stream_live lib b st \<longleftrightarrow> st_open st \<and> (\<exists>recs. carries lib st recs \<and>
     stream_partition (map vi_id (st_virtuals st)) (map xr_id recs) (kb_inflight b) (map vi_id (kb_queue b)))"

definition stream_done :: "proxy_lib \<Rightarrow> proxy_stream \<Rightarrow> bool" where
  "stream_done lib st \<longleftrightarrow> \<not> st_open st \<and> (\<exists>recs. carries lib st recs \<and>
     stream_partition (map vi_id (st_virtuals st)) (map xr_id recs) {} [])"

text \<open>All streams but the one of the active batch are closed and complete.\<close>

definition streams_ok :: "proxy_lib \<Rightarrow> active_invocation \<Rightarrow> proxy_stream list \<Rightarrow> bool" where
  "streams_ok lib a ss \<longleftrightarrow>
     (case a of
        KhoneBatch b \<Rightarrow> \<exists>k < length ss. kb_stream_tx b = Some k \<and> kb_stream_join b = Some k \<and>
          stream_live lib b (ss ! k) \<and> (\<forall>j < length ss. j \<noteq> k \<longrightarrow> stream_done lib (ss ! j))
      | _ \<Rightarrow> \<forall>j < length ss. stream_done lib (ss ! j))"

lemma partition_take:
  "stream_partition ids answered inflight (v # queued) \<Longrightarrow> stream_partition ids answered (insert v inflight) queued"
  by (auto simp: stream_partition_def)

lemma partition_answer:
  "stream_partition ids answered inflight queued \<Longrightarrow> v \<in> inflight \<Longrightarrow>
     stream_partition ids (answered @ [v]) (inflight - {v}) queued"
  by (auto simp: stream_partition_def)

lemma partition_start: "distinct ids \<Longrightarrow> stream_partition ids [] {} ids"
  by (simp add: stream_partition_def)

lemma carries_send:
  "carries lib st recs \<Longrightarrow> encode_record_line lib r = Inr line \<Longrightarrow> r = completion_record lib (xr_id r) kind \<Longrightarrow>
     carries lib (st\<lparr>st_lines := st_lines st @ [line]\<rparr>) (recs @ [r])"
  by (auto simp: carries_def intro!: list_all2_appendI)

lemma try_take_next_streams:
  assumes "streams_ok lib (in_active inner) ss" "try_take_next ext inner = (inner', r)"
  shows "streams_ok lib (in_active inner') ss"
proof (cases "in_active inner")
  case (KhoneBatch b)
  show ?thesis
  proof (cases "kb_queue b")
    case Nil
    then show ?thesis using assms KhoneBatch by (simp add: try_take_next_def)
  next
    case (Cons v rest)
    let ?b = "b\<lparr>kb_queue := rest, kb_inflight := insert (vi_id v) (kb_inflight b)\<rparr>"
    have a: "in_active inner' = KhoneBatch ?b"
      using assms(2) KhoneBatch Cons by (auto simp: try_take_next_def Let_def split: sum.splits)
    have "stream_live lib b st \<Longrightarrow> stream_live lib ?b st" for st
      using Cons partition_take by (fastforce simp: stream_live_def)
    then show ?thesis using assms(1) KhoneBatch a by (auto simp: streams_ok_def)
  qed
next
  case (PassThrough p)
  then show ?thesis using assms by (auto simp: try_take_next_def streams_ok_def split: if_splits)
qed (use assms in \<open>auto simp: try_take_next_def\<close>)

lemma xr_id_completion [simp]: "xr_id (completion_record lib rid kind) = rid"
  by (auto simp: completion_record_def parse_apigw_v2_response_def proxy_error_record_def
      split: completion_kind.splits sum.splits)

lemma handle_completion_inner_streams:
  assumes "streams_ok lib (in_active inner) ss" "handle_completion_inner lib inner ss rid kind = ((inner', ss'), r)"
    and total: "\<And>x. \<exists>b. record_to_vec lib x = Inr b"
  shows "streams_ok lib (in_active inner') ss'"
proof (cases "in_active inner")
  case (KhoneBatch b)
  from assms(1) KhoneBatch obtain k where
    k: "k < length ss" "kb_stream_tx b = Some k" "kb_stream_join b = Some k" "stream_live lib b (ss ! k)"
    "\<forall>j < length ss. j \<noteq> k \<longrightarrow> stream_done lib (ss ! j)" by (auto simp: streams_ok_def)
  show ?thesis
  proof (cases "rid \<in> kb_inflight b")
    case False
    then show ?thesis using assms KhoneBatch by (simp add: handle_completion_inner_def)
  next
    case True
    obtain line where line: "encode_record_line lib (completion_record lib rid kind) = Inr line"
      using total [of "completion_record lib rid kind"] by (auto simp: encode_record_line_def)
    let ?b = "b\<lparr>kb_inflight := kb_inflight b - {rid}\<rparr>"
    let ?st = "(ss ! k)\<lparr>st_lines := st_lines (ss ! k) @ [line]\<rparr>"
    from k(4) obtain recs where recs: "st_open (ss ! k)" "carries lib (ss ! k) recs"
      "stream_partition (map vi_id (st_virtuals (ss ! k))) (map xr_id recs) (kb_inflight b) (map vi_id (kb_queue b))"
      by (auto simp: stream_live_def)
    have part: "carries lib ?st (recs @ [completion_record lib rid kind])"
      "stream_partition (map vi_id (st_virtuals ?st)) (map xr_id (recs @ [completion_record lib rid kind]))
         (kb_inflight ?b) (map vi_id (kb_queue ?b))"
      using carries_send [OF recs(2) line, of kind] partition_answer [OF recs(3) True] by simp_all
    show ?thesis
    proof (cases "kb_queue b = [] \<and> kb_inflight b - {rid} = {}")
      case True
      then have "in_active inner' = KhoneFinalizing" "ss' = ss[k := ?st\<lparr>st_open := False\<rparr>]"
        using assms(2) KhoneBatch \<open>rid \<in> kb_inflight b\<close> line k(1,2)
        by (auto simp: handle_completion_inner_def Let_def send_line_def close_stream_def)
      moreover have "stream_done lib (?st\<lparr>st_open := False\<rparr>)"
        using part True by (auto simp: stream_done_def carries_def)
      ultimately show ?thesis using k by (auto simp: streams_ok_def nth_list_update)
    next
      case False
      then have "in_active inner' = KhoneBatch ?b" "ss' = ss[k := ?st]"
        using assms(2) KhoneBatch \<open>rid \<in> kb_inflight b\<close> line k(2)
        by (auto simp: handle_completion_inner_def Let_def send_line_def split: if_splits)
      moreover have "stream_live lib ?b ?st" using part recs(1) by (auto simp: stream_live_def)
      ultimately show ?thesis using k by (auto simp: streams_ok_def nth_list_update)
    qed
  qed
qed (use assms in \<open>auto simp: handle_completion_inner_def split: if_splits\<close>)

lemma activate_streams:
  assumes "streams_ok lib (in_active inner) ss" "in_active inner = ActiveNone"
    and "activate nxt parsed inner ss = (inner', ss')"
    and "\<And>vs. parsed = Some vs \<Longrightarrow> distinct (map vi_id vs)"
  shows "streams_ok lib (in_active inner') ss'"
proof (cases parsed)
  case None
  then show ?thesis using assms by (auto simp: activate_def drop_active_def streams_ok_def Let_def)
next
  case (Some vs)
  let ?st = "\<lparr>st_request_id = ni_request_id nxt, st_virtuals = vs, st_lines = [], st_open = True\<rparr>"
  have "carries lib ?st []" by (simp add: carries_def)
  moreover have "stream_partition (map vi_id (st_virtuals ?st)) (map xr_id []) {} (map vi_id vs)"
    using partition_start [OF assms(4) [OF Some]] by simp
  ultimately have "\<exists>recs. carries lib ?st recs \<and>
      stream_partition (map vi_id (st_virtuals ?st)) (map xr_id recs) {} (map vi_id vs)" by blast
  then show ?thesis using assms(1-3) Some
    by (auto simp: activate_def drop_active_def streams_ok_def stream_live_def Let_def nth_append)
qed

subsection \<open>Runs of a runtime that completes an invocation once at a time\<close>

fun stage :: "active_invocation \<Rightarrow> nat" where
  "stage ActiveNone = 0" | "stage (PassThrough _) = 1" | "stage (KhoneBatch _) = 2" | "stage KhoneFinalizing = 3"

fun forwarding :: "proxy_pc \<Rightarrow> bool" where
  "forwarding ComplForward = True" | "forwarding _ = False"

fun finalizing :: "proxy_pc \<Rightarrow> bool" where
  "finalizing (FinalizeJoin _) = True" | "finalizing _ = False"

definition role_inv :: "proxy \<Rightarrow> bool" where
  "role_inv s \<longleftrightarrow> tally forwarding s \<le> of_bool (stage (in_active (ly_inner s)) = 1) \<and>
     tally finalizing s \<le> of_bool (stage (in_active (ly_inner s)) = 3)"

definition proxy_inv :: "proxy_lib \<Rightarrow> proxy \<Rightarrow> bool" where
  "proxy_inv lib s \<longleftrightarrow> fetch_inv s \<and> role_inv s \<and> streams_ok lib (in_active (ly_inner s)) (ly_streams s)"

text \<open>
  A runtime is polite when it does not post a second completion of a passed-through invocation while
  the first one is being forwarded.
\<close>

definition polite :: "proxy \<Rightarrow> proxy_event \<Rightarrow> bool" where
  "polite s e \<longleftrightarrow> (case e of
      Act i \<Rightarrow> (case ly_handlers s ! i of
          ComplEnter rid _ \<Rightarrow> (case in_active (ly_inner s) of
              PassThrough p \<Rightarrow> rid = pt_request_id p \<longrightarrow> tally forwarding s = 0 | _ \<Rightarrow> True)
        | _ \<Rightarrow> True)
    | _ \<Rightarrow> True)"

definition polite_step ::
  "proxy_lib \<Rightarrow> ext_lib \<Rightarrow> proxy \<Rightarrow> proxy_event \<Rightarrow> (proxy \<times> proxy_call list) option" where
  "polite_step lib ext s e = (if polite s e then proxy_step lib ext s e else None)"

lemma try_take_next_stage:
  "try_take_next ext inner = (inner', r) \<Longrightarrow> stage (in_active inner') = stage (in_active inner)"
  by (auto simp: try_take_next_def Let_def split: active_invocation.splits if_splits list.splits sum.splits)

lemma handle_completion_inner_stage:
  "handle_completion_inner lib inner ss rid kind = ((inner', ss'), r) \<Longrightarrow>
     (case r of
        Inr (ForwardToUpstream _ _ _) \<Rightarrow> inner' = inner \<and> (\<exists>p. in_active inner = PassThrough p \<and> rid = pt_request_id p)
      | Inr (HandledLocally (Some _)) \<Rightarrow> stage (in_active inner) = 2 \<and> stage (in_active inner') = 3
      | Inr (HandledLocally None) \<Rightarrow> stage (in_active inner') = stage (in_active inner) \<or>
          (stage (in_active inner) = 2 \<and> stage (in_active inner') = 3)
      | Inl _ \<Rightarrow> stage (in_active inner') = stage (in_active inner))"
  by (auto simp: handle_completion_inner_def Let_def
      split: active_invocation.splits if_splits sum.splits completion_kind.splits option.splits)

lemma streams_ok_stage: "stage a \<noteq> 2 \<Longrightarrow> streams_ok lib a ss \<Longrightarrow> streams_ok lib ActiveNone (drop_active a ss)"
  by (cases a) (auto simp: streams_ok_def drop_active_def)

lemma claim_fetch_active: "claim_fetch inner = (inner', b) \<Longrightarrow> in_active inner' = in_active inner"
  by (auto simp: claim_fetch_def split: if_splits)

lemma act_streams:
  assumes "streams_ok lib (in_active (ly_inner s)) (ly_streams s)" "act lib ext s i pc = Some (s', os)"
    and total: "\<And>x. \<exists>b. record_to_vec lib x = Inr b"
  shows "streams_ok lib (in_active (ly_inner s')) (ly_streams s')"
proof (cases pc)
  case NextTake
  obtain inner r where t: "try_take_next ext (ly_inner s) = (inner, r)" by fastforce
  show ?thesis using assms(2) NextTake t try_take_next_streams [OF assms(1) t]
    by (auto simp: act_def Let_def split: sum.splits option.splits)
next
  case NextDecide
  obtain inner r where t: "claim_fetch (ly_inner s) = (inner, r)" by fastforce
  show ?thesis using assms(1,2) NextDecide t claim_fetch_active [OF t]
    by (auto simp: act_def Let_def split: if_splits)
next
  case (ComplEnter rid kind)
  obtain inner ss r where t: "handle_completion_inner lib (ly_inner s) (ly_streams s) rid kind = ((inner, ss), r)"
    by (metis surj_pair)
  show ?thesis using assms(2) ComplEnter t handle_completion_inner_streams [OF assms(1) t total]
    by (auto simp: act_def Let_def split: sum.splits option.splits completion_outcome.splits)
qed (use assms in \<open>auto simp: act_def\<close>)

lemma role_goto:
  assumes "i < length (ly_handlers s)"
  shows "tally forwarding (goto i pc s) + of_bool (forwarding (ly_handlers s ! i)) = tally forwarding s + of_bool (forwarding pc)"
    "tally finalizing (goto i pc s) + of_bool (finalizing (ly_handlers s ! i)) = tally finalizing s + of_bool (finalizing pc)"
  using assms by (simp_all add: tally_goto)

lemma role_stages:
  "role_inv s \<Longrightarrow> 0 < tally forwarding s \<Longrightarrow>
     stage (in_active (ly_inner s)) = 1 \<and> tally forwarding s = 1 \<and> tally finalizing s = 0"
  "role_inv s \<Longrightarrow> 0 < tally finalizing s \<Longrightarrow>
     stage (in_active (ly_inner s)) = 3 \<and> tally finalizing s = 1 \<and> tally forwarding s = 0"
  by (cases "stage (in_active (ly_inner s)) = 1"; cases "stage (in_active (ly_inner s)) = 3"; simp add: role_inv_def)+

lemma role_inv_goto:
  assumes "role_inv s" "i < length (ly_handlers s)" "stage (in_active inner) = stage (in_active (ly_inner s))"
    and "\<not> forwarding pc" "\<not> finalizing pc"
  shows "role_inv (goto i pc (s\<lparr>ly_inner := inner, ly_streams := ss\<rparr>))"
proof -
  have "tally forwarding (goto i pc (s\<lparr>ly_inner := inner, ly_streams := ss\<rparr>)) \<le> tally forwarding s"
    "tally finalizing (goto i pc (s\<lparr>ly_inner := inner, ly_streams := ss\<rparr>)) \<le> tally finalizing s"
    using role_goto [of i "s\<lparr>ly_inner := inner, ly_streams := ss\<rparr>" pc] assms(2,4,5) by simp_all
  then show ?thesis using assms(1,3) by (auto simp: role_inv_def)
qed

lemma role_inv_act:
  assumes "role_inv s" "i < length (ly_handlers s)" "act lib ext s i (ly_handlers s ! i) = Some (s', os)"
    and "polite s (Act i)"
  shows "role_inv s'"
proof (cases "ly_handlers s ! i")
  case NextTake
  obtain inner r where t: "try_take_next ext (ly_inner s) = (inner, r)" by fastforce
  have "role_inv (goto i (NextReply x) (s\<lparr>ly_inner := inner, ly_streams := ly_streams s\<rparr>))"
    "role_inv (goto i NextDecide (s\<lparr>ly_inner := inner, ly_streams := ly_streams s\<rparr>))" for x
    by (rule role_inv_goto [OF assms(1,2) try_take_next_stage [OF t]]; simp)+
  then show ?thesis using assms(3) NextTake t by (auto simp: act_def Let_def split: sum.splits option.splits)
next
  case NextDecide
  obtain inner r where t: "claim_fetch (ly_inner s) = (inner, r)" by fastforce
  have "stage (in_active inner) = stage (in_active (ly_inner s))" using claim_fetch_active [OF t] by simp
  then have "role_inv (goto i NextFetch (s\<lparr>ly_inner := inner, ly_streams := ly_streams s\<rparr>))"
    "role_inv (goto i NextSubscribe (s\<lparr>ly_inner := inner, ly_streams := ly_streams s\<rparr>))"
    by (rule role_inv_goto [OF assms(1,2)]; simp)+
  then show ?thesis using assms(3) NextDecide t by (auto simp: act_def Let_def split: if_splits)
next
  case NextNotify
  have "role_inv (notify_waiters s)" using assms(1) by (simp add: role_inv_def tally_notify)
  then show ?thesis using assms(2,3) NextNotify role_goto [of i "notify_waiters s" NextTake]
    by (auto simp: act_def role_inv_def handler_notify)
next
  case NextSubscribe
  then show ?thesis using assms role_goto [of i s NextWait] by (auto simp: act_def role_inv_def)
next
  case (ComplEnter rid kind)
  obtain inner ss r where t: "handle_completion_inner lib (ly_inner s) (ly_streams s) rid kind = ((inner, ss), r)"
    by (metis surj_pair)
  let ?s = "s\<lparr>ly_inner := inner, ly_streams := ss\<rparr>"
  have "tally forwarding (goto i pc ?s) = tally forwarding s + of_bool (forwarding pc)"
    "tally finalizing (goto i pc ?s) = tally finalizing s + of_bool (finalizing pc)" for pc
    using role_goto [of i ?s pc] assms(2) ComplEnter by simp_all
  then show ?thesis using assms(1,3,4) ComplEnter t handle_completion_inner_stage [OF t]
    by (auto simp: act_def Let_def role_inv_def polite_def split: sum.splits option.splits completion_outcome.splits)
qed (use assms in \<open>auto simp: act_def\<close>)

lemma parse_outer_distinct: "parse_outer_khone_batch ext body = Inr (Some vs) \<Longrightarrow> distinct (map vi_id vs) \<and> vs \<noteq> []"
  by (auto simp: parse_outer_khone_batch_def dest: parse_items_ids split: sum.splits option.splits if_splits)

lemma proxy_inv_step:
  assumes inv: "proxy_inv lib s" and step: "polite_step lib ext s e = Some (s', os)"
    and total: "\<And>x. \<exists>b. record_to_vec lib x = Inr b"
  shows "proxy_inv lib s'"
proof -
  have i: "fetch_inv s" "role_inv s" "streams_ok lib (in_active (ly_inner s)) (ly_streams s)"
    using inv by (auto simp: proxy_inv_def)
  have p: "polite s e" "proxy_step lib ext s e = Some (s', os)" using step by (auto simp: polite_step_def split: if_splits)
  have "fetch_inv s'" by (rule fetch_inv_step [OF i(1) p(2)])
  moreover have "role_inv s' \<and> streams_ok lib (in_active (ly_inner s')) (ly_streams s')"
  proof (cases e)
    case PollNext
    then show ?thesis using p(2) i by (auto simp: role_inv_def)
  next
    case (Complete rid kind)
    then show ?thesis using p(2) i by (auto simp: role_inv_def)
  next
    case (Act n)
    then show ?thesis using p i role_inv_act act_streams [OF i(3) _ total] by (auto split: if_splits)
  next
    case (Fetched n resp)
    then have n: "n < length (ly_handlers s)" "ly_handlers s ! n = NextFetch" "(s', os) = fetched lib ext s n resp"
      using p(2) by (auto split: if_splits)
    have a: "in_active (ly_inner s) = ActiveNone" using fetching_handler [OF i(1) n(1)] n(2) by simp
    then have z: "tally forwarding s = 0" "tally finalizing s = 0" using i(2) by (auto simp: role_inv_def)
    have g: "tally P (goto n pc s1) = 0"
      if "ly_handlers s1 = ly_handlers s" "\<not> P pc" "tally P s = 0" for P pc s1
      using tally_goto [of n s1 P pc] that n(1) by (simp add: tally_def)
    have g2: "tally P (goto n pc (notify_waiters (stop_fetching s))) = 0"
      if "P NextWait = P NextTake" "\<not> P pc" "tally P s = 0" for P pc
      using tally_goto [of n "notify_waiters (stop_fetching s)" P pc] that n(1) by (simp add: tally_notify)
    have act: "streams_ok lib (in_active inner) ss"
      if "activate nxt parsed (ly_inner s) (ly_streams s) = (inner, ss)"
        "parse_outer_khone_batch ext body = Inr parsed" for nxt parsed body inner ss
      using activate_streams [OF i(3) a that(1)] parse_outer_distinct that(2) by blast
    show ?thesis using n(3) z i(3) a g g2 act
      by (auto simp: fetched_def role_inv_def Let_def split: sum.splits prod.splits)
  next
    case (ErrorPosted n r)
    then have n: "n < length (ly_handlers s)" "ly_handlers s ! n = NextPostError" using p(2) by (auto split: if_splits)
    have "role_inv (goto n pc (notify_waiters (stop_fetching s)))" if "\<not> forwarding pc" "\<not> finalizing pc" for pc
      using role_goto [of n "notify_waiters (stop_fetching s)" pc] that i(2) n
      by (auto simp: role_inv_def tally_notify handler_notify)
    then show ?thesis using ErrorPosted p(2) n i(3) by auto
  next
    case (Forwarded n r)
    then have n: "n < length (ly_handlers s)" "ly_handlers s ! n = ComplForward" using p(2) by (auto split: if_splits)
    have f: "stage (in_active (ly_inner s)) = 1" "tally forwarding s = 1" "tally finalizing s = 0"
      using tally_pos [of n s forwarding] n role_stages(1) [OF i(2)] by simp_all
    have "role_inv (goto n (ComplReply x) (notify_waiters (deactivate s)))" "role_inv (goto n (ComplReply x) s)" for x
      using role_goto [of n "notify_waiters (deactivate s)" "ComplReply x"] role_goto [of n s "ComplReply x"] n f
      by (auto simp: role_inv_def tally_notify handler_notify)
    then show ?thesis using Forwarded p(2) n i(3) f(1) streams_ok_stage by (auto split: if_splits)
  next
    case (Joined n r)
    then obtain j where n: "n < length (ly_handlers s)" "ly_handlers s ! n = FinalizeJoin j"
      using p(2) by (auto split: if_splits proxy_pc.splits)
    have f: "stage (in_active (ly_inner s)) = 3" "tally finalizing s = 1" "tally forwarding s = 0"
      using tally_pos [of n s finalizing] n role_stages(2) [OF i(2)] by simp_all
    have "role_inv (goto n FinalizeDone (notify_waiters (deactivate s)))"
      using role_goto [of n "notify_waiters (deactivate s)" FinalizeDone] n f
      by (auto simp: role_inv_def tally_notify handler_notify)
    then show ?thesis using Joined p(2) n i(3) f(1) streams_ok_stage by (auto split: if_splits)
  qed
  ultimately show ?thesis by (simp add: proxy_inv_def)
qed

subsection \<open>Properties\<close>

lemma proxy_new_inv: "proxy_inv lib proxy_new" "fetch_inv proxy_new"
  by (simp_all add: proxy_inv_def fetch_inv_def role_inv_def streams_ok_def proxy_new_def tally_def)

lemma fetch_inv_run: "run (proxy_step lib ext) proxy_new es = Some (s, os) \<Longrightarrow> fetch_inv s"
  using run_invariant [of fetch_inv "proxy_step lib ext" "\<lambda>_. True"] fetch_inv_step proxy_new_inv(2) by blast

lemma proxy_inv_run:
  assumes "\<And>x. \<exists>b. record_to_vec lib x = Inr b" "run (polite_step lib ext) proxy_new es = Some (s, os)"
  shows "proxy_inv lib s"
  using run_invariant [of "proxy_inv lib" "polite_step lib ext" "\<lambda>_. True"] proxy_inv_step [OF _ _ assms(1)]
    proxy_new_inv(1) assms(2) by blast

lemma streams_ok_each:
  "streams_ok lib a ss \<Longrightarrow> st \<in> set ss \<Longrightarrow> stream_done lib st \<or> (\<exists>b. a = KhoneBatch b \<and> stream_live lib b st)"
  by (cases a) (auto simp: streams_ok_def in_set_conv_nth)

lemma stream_answers:
  "stream_done lib st \<or> (\<exists>b. a = KhoneBatch b \<and> stream_live lib b st) \<Longrightarrow>
     \<exists>recs. carries lib st recs \<and> distinct (map xr_id recs) \<and> set (map xr_id recs) \<subseteq> set (map vi_id (st_virtuals st)) \<and>
       (st_open st \<or> set (map xr_id recs) = set (map vi_id (st_virtuals st)))"
  by (auto simp: stream_done_def stream_live_def stream_partition_def) blast

definition example_json :: "json \<Rightarrow> bytes" where
  "example_json j = (case json_get j ''id'' of Some (JString s) \<Rightarrow> s | _ \<Rightarrow> [])"

definition example_item_json :: "string \<Rightarrow> json" where
  "example_item_json s = JObject [(''requestContext'', JObject [(''requestId'', JString s)])]"

text \<open>A runtime and a Runtime API for the examples: bodies name the batch they stand for.\<close>

definition example_proxy_ext :: ext_lib where
  "example_proxy_ext =
     \<lparr>status_from_u16 = (\<lambda>s. Inr s), header_name_from_bytes = (\<lambda>b. Inr b), header_value_from_str = (\<lambda>v. Inr v),
      b64_encode = (\<lambda>b. b), b64_decode = (\<lambda>b. Inr b),
      json_from_slice = (\<lambda>b.
        if b = ''one'' then Inr (JObject [(''v'', JNumber (PosInt 1)), (''batch'', JArray [example_item_json ''a''])])
        else if b = ''two'' then Inr (JObject [(''v'', JNumber (PosInt 1)),
          (''batch'', JArray [example_item_json ''a'', example_item_json ''b''])]) else Inl ''not JSON''),
      json_to_vec = (\<lambda>j. Inr (example_json j)), batch_response_from_slice = (\<lambda>_. Inl ''no batch''),
      legacy_from_value = (\<lambda>_. Inl ''no record''), interleaved_from_value = (\<lambda>_. Inl ''no record'')\<rparr>"

definition example_lib :: proxy_lib where
  "example_lib = \<lparr>header_to_str = (\<lambda>v. Some v), status_is_success = (\<lambda>s. s = 202), status_display = (\<lambda>_. ''status''),
     json_to_string = example_json, apigw_response_from_slice = (\<lambda>_. Inl ''no response''),
     record_to_vec = (\<lambda>r. Inr (xr_id r))\<rparr>"

definition example_next :: "string \<Rightarrow> bytes \<Rightarrow> exchange" where
  "example_next rid body = Inr (202, [(''lambda-runtime-aws-request-id'', rid)], Inr body)"

text \<open>The proxy takes an event apart exactly when it is a batch envelope of version 1 with a non-empty array
  whose items all have distinct request ids and can be serialised: one virtual invocation per item, in order,
  with the item's id and the item as its event.\<close>

theorem outer_batch_parsed_iff:
  "parse_outer_khone_batch ext body = Inr (Some vs) \<longleftrightarrow>
     (\<exists>env batch. json_from_slice ext body = Inr env \<and> Option.bind (json_get env ''v'') json_as_u64 = Some 1 \<and>
        Option.bind (json_get env ''batch'') json_as_array = Some batch \<and> batch \<noteq> [] \<and> distinct (map vi_id vs) \<and>
        list_all2 (\<lambda>item v. item_request_id item = Some (vi_id v) \<and> json_to_vec ext item = Inr (vi_event_bytes v)) batch vs)"
proof -
  have key: "distinct (map vi_id vs) \<and>
      list_all2 (\<lambda>item v. item_request_id item = Some (vi_id v) \<and> json_to_vec ext item = Inr (vi_event_bytes v)) batch vs \<longleftrightarrow>
      parse_items ext {} batch = Inr vs" for batch
    by (auto simp: parse_items_iff)
  show ?thesis unfolding key by (auto simp: parse_outer_khone_batch_def split: sum.splits option.splits if_splits)
qed

text \<open>C37: Under every interleaving of polls, completions and answers of the Runtime API, at most one poll is
  fetching an outer invocation (or reporting a malformed one), and only while no invocation is active.\<close>

theorem proxy_one_fetch:
  assumes "run (proxy_step lib ext) proxy_new es = Some (s, os)"
  shows "tally fetching s = of_bool (in_fetching_outer (ly_inner s)) \<and>
    \<not> (in_fetching_outer (ly_inner s) \<and> in_active (ly_inner s) \<noteq> ActiveNone)"
  using fetch_inv_run [OF assms] by (auto simp: fetch_inv_def)

theorem proxy_one_fetch_witness:
  "\<exists>s os. run (proxy_step example_lib example_proxy_ext) proxy_new
       [PollNext, PollNext, Act 0, Act 1, Act 1, Act 0] = Some (s, os) \<and>
     ly_handlers s = [NextSubscribe, NextFetch] \<and>
     tally fetching s = of_bool (in_fetching_outer (ly_inner s)) \<and>
    \<not> (in_fetching_outer (ly_inner s) \<and> in_active (ly_inner s) \<noteq> ActiveNone)"
proof -
  have "\<exists>s os. run (proxy_step example_lib example_proxy_ext) proxy_new
       [PollNext, PollNext, Act 0, Act 1, Act 1, Act 0] = Some (s, os) \<and> ly_handlers s = [NextSubscribe, NextFetch]"
    by (rule run_exists) code_simp
  then obtain s os where s: "run (proxy_step example_lib example_proxy_ext) proxy_new
       [PollNext, PollNext, Act 0, Act 1, Act 1, Act 0] = Some (s, os)" "ly_handlers s = [NextSubscribe, NextFetch]" by blast
  show ?thesis by (rule exI [of _ s], rule exI [of _ os], rule conjI, rule s(1), rule conjI, rule s(2), rule proxy_one_fetch [OF s(1)])
qed

text \<open>C21: Under every interleaving with a runtime that completes a passed-through invocation once at a time, each
  response stream the proxy opens for a batch carries well-formed records, at most one per virtual invocation
  and none for anything else, and it is closed only when it has a record for every one.\<close>

theorem proxy_streams_complete:
  assumes "\<And>x. \<exists>b. record_to_vec lib x = Inr b" "run (polite_step lib ext) proxy_new es = Some (s, os)"
  shows "list_all (\<lambda>st. \<exists>recs. carries lib st recs \<and> distinct (map xr_id recs) \<and>
      set (map xr_id recs) \<subseteq> set (map vi_id (st_virtuals st)) \<and>
      (st_open st \<or> set (map xr_id recs) = set (map vi_id (st_virtuals st)))) (ly_streams s)"
proof -
  have "streams_ok lib (in_active (ly_inner s)) (ly_streams s)"
    using proxy_inv_run [OF assms] by (simp add: proxy_inv_def)
  then have "stream_done lib st \<or> (\<exists>b. in_active (ly_inner s) = KhoneBatch b \<and> stream_live lib b st)"
    if "st \<in> set (ly_streams s)" for st
    using that by (rule streams_ok_each)
  then show ?thesis unfolding list_all_iff by (intro ballI stream_answers)
qed

definition example_batch_run :: "proxy_event list" where
  "example_batch_run = [PollNext, Act 0, Act 0, Fetched 0 (example_next ''outer'' ''two''), Act 0, Act 0,
     PollNext, Act 1, Complete ''b'' (CompletionError [] ''''), Act 2, Complete ''a'' (CompletionResponse [] ''''), Act 3]"

theorem proxy_streams_complete_witness:
  "\<exists>s os. run (polite_step example_lib example_proxy_ext) proxy_new example_batch_run = Some (s, os) \<and>
     map st_open (ly_streams s) = [False] \<and> in_active (ly_inner s) = KhoneFinalizing \<and>
     list_all (\<lambda>st. \<exists>recs. carries example_lib st recs \<and> distinct (map xr_id recs) \<and>
      set (map xr_id recs) \<subseteq> set (map vi_id (st_virtuals st)) \<and>
      (st_open st \<or> set (map xr_id recs) = set (map vi_id (st_virtuals st)))) (ly_streams s)"
proof -
  have "\<exists>s os. run (polite_step example_lib example_proxy_ext) proxy_new example_batch_run = Some (s, os) \<and>
     map st_open (ly_streams s) = [False] \<and> in_active (ly_inner s) = KhoneFinalizing"
    by (rule run_exists) code_simp
  then obtain s os where s: "run (polite_step example_lib example_proxy_ext) proxy_new example_batch_run = Some (s, os)"
    "map st_open (ly_streams s) = [False]" "in_active (ly_inner s) = KhoneFinalizing" by (elim exE conjE)
  have total: "\<exists>b. record_to_vec example_lib x = Inr b" for x by (simp add: example_lib_def)
  show ?thesis using s proxy_streams_complete [OF total s(1)] by auto
qed

text \<open>The wake-up of a poll can be lost. A poll that has seen another one fetching, but has not yet begun to
  wait when that one notifies, goes to sleep: it then waits although the batch still has an item to hand out,
  and every other handler has finished.\<close>

theorem wakeup_lost:
  "\<exists>s os. run (proxy_step example_lib example_proxy_ext) proxy_new
       [PollNext, PollNext, Act 0, Act 1, Act 0, Act 1, Fetched 0 (example_next ''outer'' ''two''), Act 0, Act 1, Act 0] =
         Some (s, os) \<and>
     ly_handlers s = [NextReply (Inr \<lparr>px_status = OK_STATUS, px_headers = [(''lambda-runtime-aws-request-id'', ''a'')],
       px_body = []\<rparr>), NextWait] \<and>
     (case in_active (ly_inner s) of KhoneBatch b \<Rightarrow> map vi_id (kb_queue b) = [''b''] | _ \<Rightarrow> False)"
  by (rule run_exists) code_simp

text \<open>Without that courtesy of the runtime the streams are not complete: when two completions of a
  passed-through invocation are forwarded and the second one is confirmed after the next batch has started,
  the batch is dropped and its stream closed without a record.\<close>

theorem late_duplicate_drops_batch:
  "\<exists>s os. run (proxy_step example_lib example_proxy_ext) proxy_new
       [PollNext, Act 0, Act 0, Fetched 0 (example_next ''p'' ''x''), Act 0, Act 0,
        Complete ''p'' (CompletionResponse [] ''''), Complete ''p'' (CompletionResponse [] ''''), Act 1, Act 2,
        Forwarded 1 (Inr 202), PollNext, Act 3, Act 3, Fetched 3 (example_next ''outer'' ''one''),
        Forwarded 2 (Inr 202)] = Some (s, os) \<and>
     in_active (ly_inner s) = ActiveNone \<and>
     map (\<lambda>st. (map vi_id (st_virtuals st), st_lines st, st_open st)) (ly_streams s) = [([''a''], [], False)]"
  by (rule run_exists) code_simp

end
