(* ===== verification/End_To_End.thy ===== *)
theory End_To_End
  imports Server Adapter Layer_Proxy
begin

text \<open>
  The components together: a batcher task, its flushes and the jobs they start; and the gateway with the
  two programs that run beside the function, the Rust adapter and the layer proxy. The two sides of
  a wire share no code, only the serialised records, so what \<open>serde\<close> does between them is a hypothesis.
\<close>

subsection \<open>From requests to answers\<close>

text \<open>What becomes of a job that a flush enqueued: it runs, with the outcome and the two clock readings, or
  it is failed because the gateway shuts down.\<close>

type_synonym job_fate = "(lambda_invoke_result res \<times> u64 \<times> u64) option"

definition job_effects :: "response_dispatcher_ops \<Rightarrow> feedback_reporter_ops \<Rightarrow> job_fate \<Rightarrow> invocation_job \<Rightarrow> effect list" where
  "job_effects d rep fate job =
     (case fate of
        Some (outcome, el1, el2) \<Rightarrow> run_invocation_job d rep outcome el1 el2 job
      | None \<Rightarrow> job_fail d rep BAD_GATEWAY ''gateway shutting down'' job)"

text \<open>One flush call of the task, carried out to the end.\<close>

definition flush_effects ::
  "ext_lib \<Rightarrow> batch_key \<Rightarrow> batcher_runtime \<Rightarrow> (nat \<Rightarrow> try_send_result) \<Rightarrow> u64 \<Rightarrow> (invocation_job \<Rightarrow> job_fate) \<Rightarrow> flush_call \<Rightarrow>
   effect list" where
  "flush_effects ext key rt sends received_at_ms fate f =
     (let out = flush_batch ext key rt sends received_at_ms (fc_wait_ms f) (fc_estimated_rps f) (fc_is_probe f) (fc_batch f)
      in effects_of out @ concat (map (\<lambda>job. job_effects (rt_response_dispatcher rt) (rt_probe_feedback_reporter rt)
           (fate job) job) (jobs_of out)))"

lemma request_callers_append [simp]: "request_callers (xs @ ys) = request_callers xs + request_callers ys"
  by (simp add: request_callers_def)

lemma job_effects_resolve:
  "job_ok job \<Longrightarrow> resolved (job_effects (default_dispatcher ext env) default_reporter fate job) = job_callers job"
  by (auto simp: job_effects_def default_invocation.run_resolves default_invocation.job_fail_resolves split: option.split)

lemma resolved_jobs:
  "list_all job_ok jobs \<Longrightarrow>
     resolved (concat (map (\<lambda>job. job_effects (default_dispatcher ext env) default_reporter (fate job) job) jobs)) =
     sum_list (map job_callers jobs)"
  by (induction jobs) (auto simp: job_effects_resolve)

lemma flush_effects_resolve:
  assumes "rt_response_dispatcher rt = default_dispatcher ext env" "rt_probe_feedback_reporter rt = default_reporter"
  shows "resolved (flush_effects ext key rt sends t fate f) = request_callers (fc_batch f)"
proof -
  let ?out = "flush_batch ext key rt sends t (fc_wait_ms f) (fc_estimated_rps f) (fc_is_probe f) (fc_batch f)"
  have "list_all job_ok (jobs_of ?out)" using flush_jobs_ok by (auto simp: list_all_iff)
  then have "resolved (flush_effects ext key rt sends t fate f) = flush_callers ?out"
    by (simp add: flush_effects_def Let_def assms resolved_jobs flush_callers_def)
  then show ?thesis using default_invocation.flush_batch_callers [OF assms] by simp
qed

text \<open>From the channel of a batch key to the callers: whatever a batcher task receives is either still in
  its hands or has been answered exactly once, for every schedule of requests, timers and feedback, every state
  of the job queue at every flush and every outcome of every invocation.\<close>

theorem gateway_answers_each_request_once:
  assumes "run (batcher_step rt cfg) (batcher_init hasher key cfg now) es = Some (s, os)"
    and "rt_response_dispatcher rt = default_dispatcher ext env" "rt_probe_feedback_reporter rt = default_reporter"
  shows "resolved (concat (map (\<lambda>f. flush_effects ext key rt (sends f) (clock f) (fate f) f) os)) +
    request_callers (task_held s) = request_callers (concat (map arrived es))"
proof -
  have "resolved (concat (map (\<lambda>f. flush_effects ext key rt (sends f) (clock f) (fate f) f) os)) = request_callers (flushed os)"
    by (induction os) (simp_all add: flush_effects_resolve [OF assms(2,3)] request_callers_def)
  moreover have "flushed os @ task_held s = concat (map arrived es)" using task.run_order [OF assms(1)] by simp
  ultimately show ?thesis by (metis request_callers_append)
qed

theorem gateway_answers_each_request_once_witness:
  "\<exists>s os. run (batcher_step example_policies (example_config\<lparr>bc_duration_wait := None\<rparr>))
       (batcher_init (\<lambda>_. 0) example_key (example_config\<lparr>bc_duration_wait := None\<rparr>) 0)
       [Recv (example_request ''a'' 1) 5 6, Recv (example_request ''b'' 2) 7 8, Recv (example_request ''c'' 3) 9 9] =
         Some (s, os) \<and>
     resolved (concat (map (\<lambda>f. flush_effects example_ext example_key example_policies (\<lambda>_. SendOk) 7 (\<lambda>_. None) f) os)) +
       request_callers (task_held s) =
     request_callers (concat (map arrived
       [Recv (example_request ''a'' 1) 5 6, Recv (example_request ''b'' 2) 7 8, Recv (example_request ''c'' 3) 9 9]))"
proof -
  obtain s os where r: "run (batcher_step example_policies (example_config\<lparr>bc_duration_wait := None\<rparr>))
       (batcher_init (\<lambda>_. 0) example_key (example_config\<lparr>bc_duration_wait := None\<rparr>) 0)
       [Recv (example_request ''a'' 1) 5 6, Recv (example_request ''b'' 2) 7 8, Recv (example_request ''c'' 3) 9 9] =
         Some (s, os)"
    by (simp add: example_config_def batcher_init_def fixed_fill_def from_millis_def)
  have d: "rt_response_dispatcher example_policies = default_dispatcher example_ext example_stream_env"
    and f: "rt_probe_feedback_reporter example_policies = default_reporter"
    by (simp_all add: example_policies_def example_runtime_def)
  show ?thesis
    using r gateway_answers_each_request_once [OF r d f, where
      sends = "\<lambda>_ _. SendOk" and clock = "\<lambda>_. 7" and fate = "\<lambda>_ _. None"] by blast
qed

subsection \<open>The adapter and the gateway, buffered\<close>

text \<open>The adapter's records as the gateway reads them: both sides name the JSON fields alike.\<close>

definition wire_item :: "adapter_item \<Rightarrow> batch_response_item" where
  "wire_item i = \<lparr>bri_id = ai_id i, bri_status_code = ai_status_code i, bri_headers = ai_headers i,
     bri_cookies = ai_cookies i, bri_body = ai_body i, bri_is_base64_encoded = ai_is_base64_encoded i\<rparr>"

definition wire_response :: "adapter_response \<Rightarrow> batch_response" where
  "wire_response r = \<lparr>br_v = as_v r, br_responses = map wire_item (as_responses r)\<rparr>"

lemma find_item:
  "distinct (map item_id batch) \<Longrightarrow> item \<in> set batch \<Longrightarrow>
     find (\<lambda>r. bri_id r = item_id item) (map (\<lambda>it. wire_item (response_item ext handler it)) batch) =
       Some (wire_item (response_item ext handler item))"
  by (induction batch) (auto simp: wire_item_def)

text \<open>A batch served by the Rust adapter: when its payload arrives as it was sent, every caller of the
  batch gets the response built from what the handler returned for that caller's own item, whatever the order
  in which the handlers completed and the limit on their number.\<close>

theorem adapter_response_reaches_callers:
  assumes "run (handle_complete ext_a handler) (handle_start c event) ks = Some (s, os)" "handle_finish s = Some resp"
    and "batch_response_from_slice ext payload = Inr (wire_response resp)"
    and "hm_ok pending" "distinct (map item_id (be_batch event))"
    and "fst ` set pending \<subseteq> set (map item_id (be_batch event))"
  shows "\<exists>item_of. list_all (\<lambda>(i, tx). item_of i \<in> set (be_batch event) \<and> item_id (item_of i) = i) pending \<and>
    mset (dispatch_buffered_impl ext key wait_ms el payload pending) =
    mset (map (\<lambda>(i, tx). (tx, with_meta (length pending) wait_ms (Some el)
      (buffered_response ext (wire_item (response_item ext_a handler (item_of i)))))) pending)"
proof -
  define item_of where "item_of i = (SOME it. it \<in> set (be_batch event) \<and> item_id it = i)" for i
  have it: "item_of i \<in> set (be_batch event) \<and> item_id (item_of i) = i" if "i \<in> fst ` set pending" for i
  proof -
    have "i \<in> item_id ` set (be_batch event)" using assms(6) that by auto
    then have "\<exists>x. x \<in> set (be_batch event) \<and> item_id x = i" by auto
    then show ?thesis unfolding item_of_def by (rule someI_ex)
  qed
  have resp: "resp = \<lparr>as_v = 1, as_responses = map (response_item ext_a handler) (be_batch event)\<rparr>"
    using handle_finish_inv handle_run_inv [OF assms(1) handle_start_inv] assms(2) by (metis option.inject option.distinct(1))
  have "buffered_answer ext payload i = buffered_response ext (wire_item (response_item ext_a handler (item_of i)))"
    if "i \<in> fst ` set pending" for i
    using find_item [OF assms(5), of "item_of i" ext_a handler] it [OF that]
    by (simp add: buffered_answer_def assms(3) resp wire_response_def record_answer_def comp_def)
  then have "map (\<lambda>(i, tx). (tx, with_meta (length pending) wait_ms (Some el) (buffered_answer ext payload i))) pending =
    map (\<lambda>(i, tx). (tx, with_meta (length pending) wait_ms (Some el)
      (buffered_response ext (wire_item (response_item ext_a handler (item_of i)))))) pending"
    by force
  then have "mset (dispatch_buffered_impl ext key wait_ms el payload pending) =
    mset (map (\<lambda>(i, tx). (tx, with_meta (length pending) wait_ms (Some el)
      (buffered_response ext (wire_item (response_item ext_a handler (item_of i)))))) pending)"
    using dispatch_buffered_spec [OF assms(4), of ext key wait_ms el payload] by metis
  moreover have "list_all (\<lambda>(i, tx). item_of i \<in> set (be_batch event) \<and> item_id (item_of i) = i) pending"
    using it by (fastforce simp: list_all_iff)
  ultimately show ?thesis by blast
qed

theorem adapter_response_reaches_callers_witness:
  "\<exists>s os resp item_of. run (handle_complete example_ext example_handler) (handle_start 2 example_event) [1, 0, 0] = Some (s, os) \<and>
    handle_finish s = Some resp \<and>
    list_all (\<lambda>(i, tx). item_of i \<in> set (be_batch example_event) \<and> item_id (item_of i) = i) [(''b'', 1), (''a'', 2 :: chan)] \<and>
    mset (dispatch_buffered_impl (example_ext\<lparr>batch_response_from_slice := \<lambda>_. Inr (wire_response resp)\<rparr>) example_key 5 9
      ''x'' [(''b'', 1), (''a'', 2)]) =
    mset (map (\<lambda>(i, tx). (tx, with_meta (length [(''b'', 1), (''a'', 2 :: chan)]) 5 (Some 9)
      (buffered_response (example_ext\<lparr>batch_response_from_slice := \<lambda>_. Inr (wire_response resp)\<rparr>)
        (wire_item (response_item example_ext example_handler (item_of i)))))) [(''b'', 1), (''a'', 2)])"
proof -
  obtain s os where r: "run (handle_complete example_ext example_handler) (handle_start 2 example_event) [1, 0, 0] = Some (s, os)"
    by (simp add: handle_start_def handle_complete_def start_more_def example_event_def example_items_def
        normalize_concurrency_def enumerate_eq_zip)
  have "pending_items s = []"
    using handle_run_inv [OF r handle_start_inv] by (simp add: handle_start_facts(1) example_event_def example_items_def)
  then obtain resp where f: "handle_finish s = Some resp" by (auto simp: handle_finish_def pending_items_def)
  let ?ext = "example_ext\<lparr>batch_response_from_slice := \<lambda>_. Inr (wire_response resp)\<rparr>"
  have "batch_response_from_slice ?ext ''x'' = Inr (wire_response resp)" by simp
  note slice = this
  have p: "hm_ok [(''b'', 1), (''a'', 2 :: chan)]" by simp
  have e: "distinct (map item_id (be_batch example_event))"
    and i: "fst ` set [(''b'', 1), (''a'', 2 :: chan)] \<subseteq> set (map item_id (be_batch example_event))"
    by (simp_all add: example_event_def example_items_def item_id_def)
  show ?thesis
    using r f adapter_response_reaches_callers [OF r f slice p e i, of example_key 5 9]
    by - (elim exE, intro exI conjI, assumption, assumption, erule conjunct1, erule conjunct2)
qed

subsection \<open>The layer proxy and the gateway, streamed\<close>

text \<open>What each caller of a batch sees when the gateway reads the proxy's records: its response; nothing but the
  close of its channels, when its own record makes no response; a failure, when an earlier record of the
  batch made none.\<close>

definition wire_record :: "proxy_record \<Rightarrow> stream_record_legacy" where
  "wire_record r = \<lparr>sl_v = xr_v r, sl_id = xr_id r, sl_status_code = xr_status_code r, sl_headers = xr_headers r,
     sl_cookies = xr_cookies r, sl_body = xr_body r, sl_is_base64_encoded = xr_is_base64_encoded r\<rparr>"

definition record_parts :: "ext_lib \<Rightarrow> proxy_record \<Rightarrow> gateway_response res" where
  "record_parts ext r = build_gateway_response_parts ext (xr_status_code r) (xr_headers r) (xr_cookies r) (xr_body r)
     (xr_is_base64_encoded r)"

datatype caller_answer = Response gateway_response | Closed | Failure string

fun stream_answer :: "ext_lib \<Rightarrow> proxy_record list \<Rightarrow> string \<Rightarrow> caller_answer" where
  "stream_answer ext [] i = Failure ''missing response record''"
| "stream_answer ext (r # recs) i =
     (case record_parts ext r of
        Inl err \<Rightarrow> if xr_id r = i then Closed else Failure (''bad response: '' @ err)
      | Inr resp \<Rightarrow> if xr_id r = i then Response resp else stream_answer ext recs i)"

fun answer_log :: "nat \<Rightarrow> u64 \<Rightarrow> u64 \<Rightarrow> caller_answer \<Rightarrow> stream_pending \<Rightarrow> stream_log" where
  "answer_log n w el (Response resp) e =
     (case sp_init e of Some tx \<Rightarrow> [SendInit tx (InitResponse (with_meta n w (Some el) resp))] | None \<Rightarrow> []) @ [DropBody (sp_body e)]"
| "answer_log n w el Closed e = drop_pending e"
| "answer_log n w el (Failure msg) e = fail_stream_entry n w (Some el) BAD_GATEWAY msg e"

lemma answer_log_concerns: "x \<in> set (answer_log n w el a e) \<Longrightarrow> concerns e x"
  by (cases a) (auto simp: drop_pending_def fail_stream_entry_def split: option.splits)

lemma answer_log_filter: "filter (concerns e) (answer_log n w el a e) = answer_log n w el a e"
  by (rule filter_True) (auto dest: answer_log_concerns)

lemma answer_log_others:
  "separate p \<Longrightarrow> x \<in> set p \<Longrightarrow> y \<in> set p \<Longrightarrow> fst x \<noteq> fst y \<Longrightarrow> filter (concerns (snd x)) (answer_log n w el a (snd y)) = []"
  by (auto simp: filter_empty_conv dest: answer_log_concerns separate_concerns)

lemma fail_all_concerns: "x \<in> set (fail_all_stream_impl p n w el st msg) \<Longrightarrow> \<exists>y \<in> set p. concerns (snd y) x"
  by (induction p) (auto simp: fail_all_stream_impl_def fail_stream_entry_def split: option.splits)

lemma fail_all_filter:
  "hm_ok p \<Longrightarrow> separate p \<Longrightarrow> (i, e) \<in> set p \<Longrightarrow>
     filter (concerns e) (fail_all_stream_impl p n w (Some el) BAD_GATEWAY msg) = answer_log n w el (Failure msg) e"
proof (induction p)
  case (Cons y p)
  have split: "fail_all_stream_impl (y # p) n w (Some el) BAD_GATEWAY msg =
      answer_log n w el (Failure msg) (snd y) @ fail_all_stream_impl p n w (Some el) BAD_GATEWAY msg"
    by (simp add: fail_all_stream_impl_def case_prod_beta)
  have rest: "separate p" "hm_ok p" using Cons.prems by (auto simp: separate_def)
  show ?case
  proof (cases "(i, e) = y")
    case True
    have "\<not> concerns e x" if x: "x \<in> set (fail_all_stream_impl p n w (Some el) BAD_GATEWAY msg)" for x
    proof -
      obtain z where z: "z \<in> set p" "x \<in> set (answer_log n w el (Failure msg) (snd z))"
        using x by (auto simp: fail_all_stream_impl_def case_prod_beta)
      have "fst z \<noteq> fst y" using Cons.prems(1) z(1) by (cases y, cases z) (auto simp: rev_image_eqI)
      then show ?thesis
        using separate_concerns [OF Cons.prems(2), of z y x] z answer_log_concerns [OF z(2)] True by auto
    qed
    then show ?thesis using answer_log_filter [of e n w el "Failure msg"] True by (auto simp: split filter_empty_conv)
  next
    case False
    then have i: "(i, e) \<in> set p" using Cons.prems(3) by simp
    then have "fst (i, e) \<noteq> fst y" using Cons.prems(1) by (cases y) (auto simp: rev_image_eqI)
    then have "filter (concerns e) (answer_log n w el (Failure msg) (snd y)) = []"
      using answer_log_others [OF Cons.prems(2), of "(i, e)" y n w el "Failure msg"] i by auto
    then show ?thesis using Cons.IH [OF rest(2,1) i] by (simp add: split)
  qed
qed simp

text \<open>A line the gateway reads back as the record it was written from.\<close>

definition read_back :: "ext_lib \<Rightarrow> proxy_lib \<Rightarrow> proxy_record \<Rightarrow> bytes \<Rightarrow> bool" where
  "read_back ext lib r line \<longleftrightarrow> (\<exists>b. line = b @ [newline] \<and> newline \<notin> set b \<and> b \<noteq> [] \<and> last b \<noteq> carriage \<and>
     parse_stream_record ext b = Inr (Legacy (wire_record r)) \<and> xr_v r = 1)"

lemma drain_read_back:
  assumes "read_back ext lib r line" "hm_get p (xr_id r) = Some e"
  shows "drain_lines ext env n w (line @ rest) p hist =
    (case record_parts ext r of
       Inl err \<Rightarrow> Inl (fail_rest env n w (''bad response: '' @ err) (hm_delete (xr_id r) p)
           (hist @ answer_log n w (elapsed env hist) Closed e))
     | Inr resp \<Rightarrow> drain_lines ext env n w rest (hm_delete (xr_id r) p)
           (hist @ answer_log n w (elapsed env hist) (Response resp) e))"
proof -
  obtain b where b: "line = b @ [newline]" "newline \<notin> set b" "b \<noteq> []" "last b \<noteq> carriage"
    "parse_stream_record ext b = Inr (Legacy (wire_record r))" "xr_v r = 1" using assms(1) by (auto simp: read_back_def)
  have s: "split_once newline (line @ rest) = Some (b, rest)" using b(1,2) by (simp add: split_once_Some)
  have c: "strip_cr b = b" using b(4) by (simp add: strip_cr_def)
  show ?thesis
    by (subst drain_lines.simps) (simp add: s c b(3,5,6) process_line_def dispatch_stream_record_def legacy_record_def
        record_parts_def wire_record_def assms(2) Let_def map_err_def split: sum.split)
qed

lemma answer_first:
  assumes p: "hm_ok p" "separate p" "(k, e) \<in> set p"
    and rest: "\<forall>x \<in> set outs. \<exists>y \<in> set (hm_delete k p). concerns (snd y) x"
      "\<forall>(i, e) \<in> set (hm_delete k p). \<exists>el. filter (concerns e) outs = answer_log n w el (ans i) e"
  shows "(\<forall>x \<in> set (answer_log n w el (ans k) e @ outs). \<exists>y \<in> set p. concerns (snd y) x) \<and>
    (\<forall>(i, e') \<in> set p. \<exists>el'. filter (concerns e') (answer_log n w el (ans k) e @ outs) = answer_log n w el' (ans i) e')"
proof
  show "\<forall>x \<in> set (answer_log n w el (ans k) e @ outs). \<exists>y \<in> set p. concerns (snd y) x"
  proof
    fix x assume "x \<in> set (answer_log n w el (ans k) e @ outs)"
    then consider "x \<in> set (answer_log n w el (ans k) e)" | "x \<in> set outs" by auto
    then show "\<exists>y \<in> set p. concerns (snd y) x"
    proof cases
      case 1
      then show ?thesis using p(3) answer_log_concerns by (intro bexI [of _ "(k, e)"]) auto
    next
      case 2
      then show ?thesis using rest(1) by (fastforce simp: hm_set_delete)
    qed
  qed
  have "\<exists>el'. filter (concerns e') (answer_log n w el (ans k) e @ outs) = answer_log n w el' (ans i) e'"
    if i: "(i, e') \<in> set p" for i e'
  proof (cases "i = k")
    case True
    then have "e' = e" using hm_get_set [OF p(1,3)] hm_get_set [OF p(1) i] by simp
    moreover have "\<not> concerns e x" if "x \<in> set outs" for x
      using rest(1) that separate_concerns [OF p(2) _ p(3), of _ x] by (fastforce simp: hm_set_delete)
    ultimately show ?thesis using True by (auto simp: answer_log_filter filter_empty_conv)
  next
    case False
    then have "\<exists>el. filter (concerns e') outs = answer_log n w el (ans i) e'" using rest(2) i by (auto simp: hm_set_delete)
    then show ?thesis using answer_log_others [OF p(2) i p(3)] False by simp
  qed
  then show "\<forall>(i, e') \<in> set p. \<exists>el'. filter (concerns e') (answer_log n w el (ans k) e @ outs) = answer_log n w el' (ans i) e'"
    by blast
qed

lemma drain_records:
  "list_all2 (read_back ext lib) recs lines \<Longrightarrow> distinct (map xr_id recs) \<Longrightarrow> hm_ok p \<Longrightarrow> separate p \<Longrightarrow>
   fst ` set p = set (map xr_id recs) \<Longrightarrow>
   \<exists>outs. (drain_lines ext env n w (concat lines) p hist = Inl (hist @ outs) \<or>
       drain_lines ext env n w (concat lines) p hist = Inr ([], [], hist @ outs)) \<and>
     (\<forall>x \<in> set outs. \<exists>y \<in> set p. concerns (snd y) x) \<and>
     (\<forall>(i, e) \<in> set p. \<exists>el. filter (concerns e) outs = answer_log n w el (stream_answer ext recs i) e)"
proof (induction recs lines arbitrary: p hist rule: list_all2_induct)
  case Nil
  then show ?case by (simp add: drain_lines.simps [of ext env n w "[]"])
next
  case (Cons r recs line lines)
  let ?el = "elapsed env hist" and ?q = "hm_delete (xr_id r) p"
  have "xr_id r \<in> fst ` set p" using Cons.prems(4) by simp
  then obtain e where e: "(xr_id r, e) \<in> set p" by auto
  have get: "hm_get p (xr_id r) = Some e" by (rule hm_get_set [OF Cons.prems(2) e])
  have "fst ` set ?q = fst ` set p - {xr_id r}" by (auto simp: hm_set_delete)
  then have q: "hm_ok ?q" "separate ?q" "fst ` set ?q = set (map xr_id recs)"
    using Cons.prems by (auto simp: separate_delete)
  note step = drain_read_back [OF Cons.hyps(1) get, of env n w "concat lines" hist]
  show ?case
  proof (cases "record_parts ext r")
    case (Inl err)
    let ?msg = "''bad response: '' @ err"
    let ?h = "hist @ answer_log n w ?el Closed e"
    let ?rest = "fail_all_stream_impl ?q n w (Some (elapsed env ?h)) BAD_GATEWAY ?msg"
    have ans: "stream_answer ext (r # recs) i = (if i = xr_id r then Closed else Failure ?msg)" for i
      by (auto simp: Inl)
    have "\<forall>x \<in> set ?rest. \<exists>y \<in> set ?q. concerns (snd y) x"
      using fail_all_concerns by blast
    moreover have "\<forall>(i, e) \<in> set ?q. \<exists>el. filter (concerns e) ?rest = answer_log n w el (stream_answer ext (r # recs) i) e"
    proof clarify
      fix i e' assume i: "(i, e') \<in> set ?q"
      then have "i \<noteq> xr_id r" by (simp add: hm_set_delete)
      then have "filter (concerns e') ?rest = answer_log n w (elapsed env ?h) (stream_answer ext (r # recs) i) e'"
        unfolding ans using fail_all_filter [OF q(1,2) i] by simp
      then show "\<exists>el. filter (concerns e') ?rest = answer_log n w el (stream_answer ext (r # recs) i) e'" by blast
    qed
    ultimately show ?thesis
      using answer_first [OF Cons.prems(2,3) e, of ?rest n w "stream_answer ext (r # recs)" ?el] step
      by (intro exI [of _ "answer_log n w ?el Closed e @ ?rest"]) (simp add: Inl fail_rest_def)
  next
    case (Inr resp)
    let ?h = "hist @ answer_log n w ?el (Response resp) e"
    have "distinct (map xr_id recs)" using Cons.prems(1) by simp
    from Cons.IH [OF this q, of ?h] obtain outs where
      d: "drain_lines ext env n w (concat lines) ?q ?h = Inl (?h @ outs) \<or>
          drain_lines ext env n w (concat lines) ?q ?h = Inr ([], [], ?h @ outs)"
      and o1: "\<forall>x \<in> set outs. \<exists>y \<in> set ?q. concerns (snd y) x"
      and o2: "\<forall>(i, e) \<in> set ?q. \<exists>el. filter (concerns e) outs = answer_log n w el (stream_answer ext recs i) e"
      by (elim exE conjE)
    have "\<forall>(i, e) \<in> set ?q. \<exists>el. filter (concerns e) outs = answer_log n w el (stream_answer ext (r # recs) i) e"
      using o2 by (auto simp: Inr hm_set_delete)
    then show ?thesis
      using answer_first [OF Cons.prems(2,3) e o1, of n w "stream_answer ext (r # recs)" ?el] step d
      by (intro exI [of _ "answer_log n w ?el (Response resp) e @ outs"]) (simp add: Inr)
  qed
qed

text \<open>What \<open>serde_json\<close> does for the two sides: a completion's record is written as one line, without a line
  break inside, and read back as the same record.\<close>

definition serde_reads_back :: "ext_lib \<Rightarrow> proxy_lib \<Rightarrow> bool" where
  "serde_reads_back ext lib \<longleftrightarrow> (\<forall>rid kind b. record_to_vec lib (completion_record lib rid kind) = Inr b \<longrightarrow>
     newline \<notin> set b \<and> b \<noteq> [] \<and> last b \<noteq> carriage \<and>
     parse_stream_record ext b = Inr (Legacy (wire_record (completion_record lib rid kind))))"

text \<open>C17: A batch taken apart by the layer proxy: the response stream of the batch has been closed and reaches the gateway
  in whatever pieces, with the gateway's buffer (the bytes since the last newline and the next piece) never above its
  limit of 8 MiB, as for any stream beyond it all callers are failed. The records are those the proxy made of the runtime's
  completions, one per request, and the gateway reads back a record that the proxy wrote. Then each caller of the batch
  sees on its channels: the response its own record makes, if it and all records before it make one; the drop of its
  channel, if its own record is the first that makes none; a 502 that quotes the error, if an earlier record makes none.\<close>

theorem proxy_batch_reaches_callers:
  assumes "\<And>x. \<exists>b. record_to_vec lib x = Inr b" "run (polite_step lib ext_p) proxy_new es = Some (s, os)"
    and "st \<in> set (ly_streams s)" "\<not> st_open st"
    and "serde_reads_back ext lib"
    and "concat chunks = concat (st_lines st)" "buffers_fit [] chunks"
    and "hm_ok pending" "separate pending" "fst ` set pending = set (map vi_id (st_virtuals st))"
  shows "\<exists>recs. carries lib st recs \<and> set (map xr_id recs) = set (map vi_id (st_virtuals st)) \<and>
    list_all (\<lambda>(i, e). \<exists>el. filter (concerns e) (dispatch_response_stream_impl ext env key w (map Inr chunks) pending) =
      answer_log (length pending) w el (stream_answer ext recs i) e) pending"
proof -
  have "streams_ok lib (in_active (ly_inner s)) (ly_streams s)"
    using proxy_inv_run [OF assms(1,2)] by (simp add: proxy_inv_def)
  then have "stream_done lib st" using streams_ok_each [OF _ assms(3)] assms(4) by (auto simp: stream_live_def)
  then obtain recs where r: "carries lib st recs" "distinct (map xr_id recs)"
      "set (map xr_id recs) = set (map vi_id (st_virtuals st))"
    by (auto simp: stream_done_def stream_partition_def)
  have rb: "read_back ext lib r line"
    if "(\<exists>kind. r = completion_record lib (xr_id r) kind) \<and> encode_record_line lib r = Inr line" for r line
  proof -
    from that obtain kind where k: "r = completion_record lib (xr_id r) kind" and l: "encode_record_line lib r = Inr line"
      by (elim exE conjE)
    from l obtain b where b: "record_to_vec lib r = Inr b" "line = b @ [newline]"
      by (auto simp: encode_record_line_def split: sum.splits)
    have "xr_v r = 1"
      by (subst k) (auto simp: completion_record_def parse_apigw_v2_response_def proxy_error_record_def
          split: completion_kind.splits sum.splits)
    then show ?thesis unfolding read_back_def using assms(5) [unfolded serde_reads_back_def, rule_format, of "xr_id r" kind b, folded k] b by blast
  qed
  have "list_all2 (read_back ext lib) recs (st_lines st)"
    using r(1) rb unfolding carries_def by (rule list_all2_mono)
  from drain_records [OF this r(2) assms(8,9), of env "length pending" w "[]"] assms(10) r(3) obtain outs where
    d: "drain_lines ext env (length pending) w (concat (st_lines st)) pending [] = Inl outs \<or>
      drain_lines ext env (length pending) w (concat (st_lines st)) pending [] = Inr ([], [], outs)"
    and o: "\<forall>(i, e) \<in> set pending. \<exists>el. filter (concerns e) outs = answer_log (length pending) w el (stream_answer ext recs i) e"
    by auto
  have "dispatch_response_stream_impl ext env key w (map Inr chunks) pending = outs"
    using d stream_loop_chunks [of "[]" chunks ext env "length pending" w pending "[]"] assms(7)
    by (auto simp: dispatch_response_stream_impl_def assms(6) drain_lines.simps [of ext env _ w "[]"]
        finish_stream_def strip_eol_def fail_rest_def fail_all_stream_impl_def)
  then show ?thesis using r(1,3) o by (auto simp: list_all_iff)
qed

text \<open>For an example: records as the status and the escaped request id.\<close>

fun escape :: "string \<Rightarrow> string" where
  "escape [] = []"
| "escape (c # cs) = (if c = newline then ''%n'' else if c = CHR ''%'' then ''%%'' else [c]) @ escape cs"

fun unescape :: "string \<Rightarrow> string" where
  "unescape [] = []"
| "unescape (c # cs) =
     (if c = CHR ''%'' then (case cs of [] \<Rightarrow> [] | d # ds \<Rightarrow> (if d = CHR ''n'' then newline else d) # unescape ds)
      else c # unescape cs)"

lemma unescape_escape: "unescape (escape s) = s"
  by (induction s) auto

lemma escape_newline: "newline \<notin> set (escape s)"
  by (induction s) auto

definition example_line_lib :: proxy_lib where
  "example_line_lib = example_lib\<lparr>record_to_vec := \<lambda>r. Inr ((if xr_status_code r = BAD_GATEWAY then CHR ''g'' else CHR ''e'') #
     escape (xr_id r) @ ''.'')\<rparr>"

definition example_line_ext :: ext_lib where
  "example_line_ext = example_ext\<lparr>json_from_slice := \<lambda>b. Inr (JString b),
     legacy_from_value := \<lambda>v. case v of JString (h # b) \<Rightarrow> Inr \<lparr>sl_v = 1, sl_id = unescape (butlast b),
       sl_status_code = (if h = CHR ''g'' then BAD_GATEWAY else INTERNAL_SERVER_ERROR), sl_headers = [], sl_cookies = [],
       sl_body = [], sl_is_base64_encoded = False\<rparr> | _ \<Rightarrow> Inl ''no record''\<rparr>"

lemma example_lines_read_back:
  "serde_reads_back example_line_ext example_line_lib"
  unfolding serde_reads_back_def
proof (intro allI impI)
  fix rid kind b
  assume "record_to_vec example_line_lib (completion_record example_line_lib rid kind) = Inr b"
  moreover have "completion_record example_line_lib rid kind =
      proxy_error_record rid (case kind of CompletionResponse _ _ \<Rightarrow> BAD_GATEWAY | _ \<Rightarrow> INTERNAL_SERVER_ERROR)"
    by (simp add: completion_record_def parse_apigw_v2_response_def example_line_lib_def example_lib_def split: completion_kind.split)
  ultimately show "newline \<notin> set b \<and> b \<noteq> [] \<and> last b \<noteq> carriage \<and>
    parse_stream_record example_line_ext b = Inr (Legacy (wire_record (completion_record example_line_lib rid kind)))"
    using escape_newline [of rid]
    by (auto simp: example_line_lib_def example_line_ext_def proxy_error_record_def wire_record_def parse_stream_record_def
        unescape_escape map_err_def BAD_GATEWAY_def INTERNAL_SERVER_ERROR_def butlast_append
        split: completion_kind.splits)
qed

theorem proxy_batch_reaches_callers_witness:
  "\<exists>s os st recs. run (polite_step example_line_lib example_proxy_ext) proxy_new example_batch_run = Some (s, os) \<and>
     ly_streams s = [st] \<and> \<not> st_open st \<and> carries example_line_lib st recs \<and>
     set (map xr_id recs) = set (map vi_id (st_virtuals st)) \<and>
     list_all (\<lambda>(i, e). \<exists>el. filter (concerns e) (dispatch_response_stream_impl example_line_ext example_stream_env
         example_key 5 (map Inr [take 3 (concat (st_lines st)), drop 3 (concat (st_lines st))]) example_callers) =
       answer_log (length example_callers) 5 el (stream_answer example_line_ext recs i) e) example_callers"
proof -
  have "\<exists>s os. run (polite_step example_line_lib example_proxy_ext) proxy_new example_batch_run = Some (s, os) \<and>
     map (\<lambda>st. (st_open st, map vi_id (st_virtuals st), st_lines st)) (ly_streams s) =
       [(False, [''a'', ''b''], [''eb.'' @ [newline], ''ga.'' @ [newline]])]"
    by (rule run_exists) code_simp
  then obtain s os where s: "run (polite_step example_line_lib example_proxy_ext) proxy_new example_batch_run = Some (s, os)"
    "map (\<lambda>st. (st_open st, map vi_id (st_virtuals st), st_lines st)) (ly_streams s) =
       [(False, [''a'', ''b''], [''eb.'' @ [newline], ''ga.'' @ [newline]])]" by (elim exE conjE)
  then obtain st where st: "ly_streams s = [st]" "\<not> st_open st" "map vi_id (st_virtuals st) = [''a'', ''b'']"
    "st_lines st = [''eb.'' @ [newline], ''ga.'' @ [newline]]" by auto
  have total: "\<exists>b. record_to_vec example_line_lib x = Inr b" for x by (simp add: example_line_lib_def)
  have m: "st \<in> set (ly_streams s)" by (simp add: st(1))
  have c: "concat [take 3 (concat (st_lines st)), drop 3 (concat (st_lines st))] = concat (st_lines st)" by simp
  have len: "buffers_fit [] [take 3 (concat (st_lines st)), drop 3 (concat (st_lines st))]"
    by (rule concat_fits) (simp add: st(4) MAX_BUFFER_BYTES_def)
  have p: "hm_ok example_callers" "separate example_callers" "fst ` set example_callers = set (map vi_id (st_virtuals st))"
    by (simp_all add: example_callers_def separate_def st(3))
  show ?thesis
    using s(1) st(1,2) proxy_batch_reaches_callers [OF total s(1) m st(2) example_lines_read_back c len p,
      of example_stream_env example_key 5]
    by blast
qed

subsection \<open>From the configuration to the requests\<close>

text \<open>A gateway that starts is validated throughout: its resource caps are positive, and every request its handlers
  hand to the batchers is for a validated operation with that request's method and route, and has a body within
  the configured limit. The router only returns templates that were put into it.\<close>

theorem started_gateway_enqueues_valid:
  assumes "load_gateway yaml ext rl bs = Inr (cfg, spec)" "build_router ext rl to_str form env cfg spec otel = Inr gw"
    and "\<And>ts p t ps. router_at rl ts p = Some (t, ps) \<Longrightarrow> t \<in> set ts"
    and "run (server_step (gw_app gw)) (gw_server gw) es = Some (s, os)"
  shows "0 < sv_permits (gw_server gw) \<and> 0 < mg_depth (gw_manager gw) \<and> 0 < jq_permits (gw_queue gw) \<and>
    list_all (\<lambda>out. case out of
        Enqueue op p \<Rightarrow> op_valid op \<and> oc_method op = pr_method p \<and> oc_route_template op = pr_route p \<and>
          length (pr_body p) \<le> gc_max_body_bytes cfg
      | _ \<Rightarrow> True) os"
proof -
  obtain full doc where f: "from_yaml_bytes yaml bs = Inr full" "cfg = full\<lparr>gc_spec := None\<rparr>"
    "compile ext rl doc (gc_default_timeout_ms full) = Inr spec" using load_gateway_Inr [OF assms(1)] by blast
  have caps: "0 < gc_max_inflight_requests cfg" "0 < gc_max_queue_depth_per_key cfg" "0 < gc_max_inflight_invocations cfg"
    using f(1,2) by (auto simp: from_yaml_bytes_def validate_Inr)
  obtain policy where gw: "gw_server gw = server_new (gc_max_inflight_requests cfg)" "ap_router (gw_app gw) = rl"
    "ap_spec (gw_app gw) = spec" "ap_max_body_bytes (gw_app gw) = gc_max_body_bytes cfg"
    "gw_manager gw = manager_new (gc_max_queue_depth_per_key cfg)"
    "gw_queue gw = queue_new (gc_max_inflight_invocations cfg) (gc_max_pending_invocations cfg)"
    using assms(2) by (auto simp: build_router_def split: sum.splits)
  have valid: "op_valid op \<and> oc_method op = pr_method p \<and> oc_route_template op = pr_route p \<and> length (pr_body p) \<le> gc_max_body_bytes cfg"
    if e: "enqueued_for (gw_app gw) R op p" for R op p
  proof -
    obtain rq ps uuid where m: "match_request rl spec (rq_method rq) (rq_path rq) = Matched op ps"
      "p = make_pending (gw_app gw) rq op ps uuid (pr_body p) (pr_respond_to p)"
      using e unfolding enqueued_for_def gw(2,3) by blast
    have "oc_method op = rq_method rq \<and> op_valid op" using match_request_spec [OF f(3) assms(3), where mth = "rq_method rq" and path = "rq_path rq"] m(1) by simp
    moreover have "pr_method p = rq_method rq" "pr_route p = oc_route_template op" by (subst m(2), simp add: make_pending_def)+
    ultimately show ?thesis using e gw(4) by (auto simp: enqueued_for_def)
  qed
  have "list_all (out_ok (gw_app gw) {rq. Arrive rq \<in> set es}) os"
    using enqueued_list_ok assms(4) unfolding gw(1) by blast
  then have "list_all (\<lambda>out. case out of
        Enqueue op p \<Rightarrow> op_valid op \<and> oc_method op = pr_method p \<and> oc_route_template op = pr_route p \<and>
          length (pr_body p) \<le> gc_max_body_bytes cfg
      | _ \<Rightarrow> True) os"
    by (rule list.pred_mono_strong) (use valid in \<open>auto split: http_out.split\<close>)
  then show ?thesis using caps gw by (simp add: server_new_def manager_new_def queue_new_def)
qed

definition example_doc :: gateway_doc where
  "example_doc = \<lparr>gd_spec = Some (example_spec example_arn), gd_aws_region = None, gd_forward_headers = None,
     gd_scalars = [(''DefaultTimeoutMs'', SU64 50), (''MaxBodyBytes'', SU64 3)]\<rparr>"

text \<open>The example process: its document has one route with one buffered operation.\<close>

lemma example_started:
  "\<exists>cfg spec. load_gateway (\<lambda>_. Inr example_doc) example_ext example_router bs = Inr (cfg, spec) \<and>
     (\<forall>env otel. \<exists>gw. build_router example_ext example_router Some (\<lambda>q. []) env cfg spec otel = Inr gw \<and>
        (env ''KHONE_EMF_METRICS'' = None \<longrightarrow> (\<exists>s os. run (server_step (gw_app gw)) (gw_server gw)
           [Arrive (example_http ''GET'' ''/a/7''), BodyRead 0 ''u'' (Inr ''xyz'')] = Some (s, os) \<and> (\<exists>op p. os = [Enqueue op p]))))"
proof -
  obtain op where op: "compile example_ext example_router (example_spec example_arn) 50 = Inr [(''/a/{id}'', [(''GET'', op)])]"
    using example_compiled [OF example_arn_ok(1)] by blast
  let ?spec = "[(''/a/{id}'', [(''GET'', op)])]"
  obtain cfg where c: "load_gateway (\<lambda>_. Inr example_doc) example_ext example_router bs = Inr (cfg, ?spec)"
    "gc_max_body_bytes cfg = 3" "gc_max_inflight_requests cfg = 4096" "gc_forward_headers cfg = \<lparr>fh_allow = [], fh_deny = []\<rparr>"
    by (simp add: load_gateway_def from_yaml_bytes_def config_fields_def bind_res_def example_doc_def field_or_def
        de_u64_or_string_def de_usize_or_string_def config_validate_def ensure_non_zero_def op
        default_max_inflight_invocations_def default_max_inflight_requests_def default_max_pending_invocations_def
        default_max_queue_depth_per_key_def default_max_invoke_payload_bytes_def)
  have m: "match_request example_router ?spec ''GET'' ''/a/7'' = Matched op (insert_params [(''id'', ''7'')] [])"
    by (simp add: match_request_def example_router_def)
  have "\<exists>gw. build_router example_ext example_router Some (\<lambda>q. []) env cfg ?spec otel = Inr gw \<and>
      (env ''KHONE_EMF_METRICS'' = None \<longrightarrow> (\<exists>s os. run (server_step (gw_app gw)) (gw_server gw)
         [Arrive (example_http ''GET'' ''/a/7''), BodyRead 0 ''u'' (Inr ''xyz'')] = Some (s, os) \<and> (\<exists>op p. os = [Enqueue op p])))" for env otel
  proof -
    obtain gw where g: "build_router example_ext example_router Some (\<lambda>q. []) env cfg ?spec otel = Inr gw"
      by (simp add: build_router_def policy_try_from_cfg_def c(4))
    have gw: "ap_router (gw_app gw) = example_router" "ap_spec (gw_app gw) = ?spec" "ap_max_body_bytes (gw_app gw) = 3"
      "gw_server gw = server_new 4096" "env ''KHONE_EMF_METRICS'' = None \<longrightarrow> \<not> ap_emf_enabled (gw_app gw)"
      using g c by (auto simp: build_router_def policy_try_from_cfg_def env_truthy_def)
    have w: "\<exists>s os. run (server_step (gw_app gw)) (gw_server gw)
        [Arrive (example_http ''GET'' ''/a/7''), BodyRead 0 ''u'' (Inr ''xyz'')] = Some (s, os) \<and> (\<exists>op p. os = [Enqueue op p])"
      if "env ''KHONE_EMF_METRICS'' = None"
      using that gw(5) by (simp add: arrive_def body_read_def gw(1-4) m example_http_def start_http_server_request_def server_new_def phase_def Let_def)
    show ?thesis by (rule exI [of _ gw], rule conjI, rule g, rule impI, rule w)
  qed
  then show ?thesis by (intro exI [of _ cfg] exI [of _ ?spec] conjI c(1) allI)
qed

lemma example_router_law: "router_at example_router ts p = Some (t, ps) \<Longrightarrow> t \<in> set ts"
  by (auto simp: example_router_def split: if_splits)

theorem started_gateway_enqueues_valid_witness:
  "\<exists>cfg spec gw s os. load_gateway (\<lambda>_. Inr example_doc) example_ext example_router ''x'' = Inr (cfg, spec) \<and>
     build_router example_ext example_router Some (\<lambda>q. []) (\<lambda>_. None) cfg spec False = Inr gw \<and>
     run (server_step (gw_app gw)) (gw_server gw) [Arrive (example_http ''GET'' ''/a/7''), BodyRead 0 ''u'' (Inr ''xyz'')] = Some (s, os) \<and>
     length os = 1 \<and>
     0 < sv_permits (gw_server gw) \<and> 0 < mg_depth (gw_manager gw) \<and> 0 < jq_permits (gw_queue gw) \<and>
     list_all (\<lambda>out. case out of
        Enqueue op p \<Rightarrow> op_valid op \<and> oc_method op = pr_method p \<and> oc_route_template op = pr_route p \<and>
          length (pr_body p) \<le> gc_max_body_bytes cfg
      | _ \<Rightarrow> True) os"
proof -
  obtain cfg spec where c: "load_gateway (\<lambda>_. Inr example_doc) example_ext example_router ''x'' = Inr (cfg, spec)"
    and b: "\<forall>env otel. \<exists>gw. build_router example_ext example_router Some (\<lambda>q. []) env cfg spec otel = Inr gw \<and>
        (env ''KHONE_EMF_METRICS'' = None \<longrightarrow> (\<exists>s os. run (server_step (gw_app gw)) (gw_server gw)
           [Arrive (example_http ''GET'' ''/a/7''), BodyRead 0 ''u'' (Inr ''xyz'')] = Some (s, os) \<and> (\<exists>op p. os = [Enqueue op p])))"
    using example_started [of "''x''"] by (elim exE conjE)
  from b [rule_format, of "\<lambda>_. None" False] obtain gw s os where
    g: "build_router example_ext example_router Some (\<lambda>q. []) (\<lambda>_. None) cfg spec False = Inr gw"
    "run (server_step (gw_app gw)) (gw_server gw) [Arrive (example_http ''GET'' ''/a/7''), BodyRead 0 ''u'' (Inr ''xyz'')] = Some (s, os)"
    "length os = 1"
    by auto
  show ?thesis
    by (rule exI [of _ cfg], rule exI [of _ spec], rule exI [of _ gw], rule exI [of _ s], rule exI [of _ os],
        rule conjI, rule c, rule conjI, rule g(1), rule conjI, rule g(2), rule conjI, rule g(3),
        rule started_gateway_enqueues_valid [OF c g(1) _ g(2)], rule example_router_law)
qed

end
