(* ===== verification/Metrics.thy ===== *)
theory Metrics
  imports Server Lambda
begin

text \<open>
  \<open>gateway/src/metrics.rs\<close>: the EMF records and the functions that emit them, the switch that attaches the
  sink, and the gauge of active requests as the concurrent program it is. \<open>Server\<close> uses the gauge as an atomic
  counter; here each guard is a thread that adds, loads, compares and exchanges in steps that interleave with
  those of all others, and the gauge is shown to count the live guards and the loop to end.

  The statics of the process are the record \<open>metrics\<close>. Appending to \<open>ServiceMetrics\<close> panics when no sink is
  attached; \<open>None\<close> is that panic.
\<close>

named_theorems emits_intros \<open>what each function of metrics.rs appends to the sink\<close>

subsection \<open>Records\<close>

record khone_lambda_invoke_profile =
  li_http_route :: string
  li_khone_invoke_mode :: string
  li_batch_size :: u64
  li_batch_wait_ms :: u64
  li_lambda_duration_ms :: "f64 option"
  li_lambda_billed_duration_ms :: "f64 option"
  li_lambda_init_duration_ms :: "f64 option"
  li_memory_size_mb :: "u64 option"
  li_max_memory_used_mb :: "u64 option"

record khone_http_server_request =
  hs_http_route :: string
  hs_http_request_method :: string
  hs_http_response_status_code :: string
  hs_http_server_request_duration_ms :: u64
  hs_http_server_request_count :: u64

record khone_batching_plan_splits =
  ps_http_route :: string
  ps_khone_invoke_mode :: string
  ps_splits :: u64

record khone_batching_responses_missing =
  rm_http_route :: string
  rm_khone_invoke_mode :: string
  rm_missing :: u64

datatype emf_entry =
    KhoneLambdaInvokeProfile khone_lambda_invoke_profile
  | KhoneHttpServer u64
  | KhoneHttpServerRequest khone_http_server_request
  | KhoneBatchingQueueDepth u64
  | KhoneBatchingQueueRejections u64
  | KhoneBatchingProbeSuccess u64
  | KhoneBatchingProbeFailure u64
  | KhoneBatchingPlanSplits khone_batching_plan_splits
  | KhoneBatchingResponsesMissing khone_batching_responses_missing

record emf_sink =
  es_namespace :: string
  es_high_res :: bool
  es_dimension_sets :: "string list list"
  es_entries :: "emf_entry list"

record metrics =
  mx_emf_enabled :: bool
  mx_active_requests :: u64
  mx_service_sink :: "emf_sink option"

definition metrics_new :: metrics where
  "metrics_new = \<lparr>mx_emf_enabled = False, mx_active_requests = 0, mx_service_sink = None\<rparr>"

subsection \<open>The switch\<close>

text \<open>The sink is attached before the switch is turned on. The flag says whether there is a handle.\<close>

definition init_emf_from_env :: "environment \<Rightarrow> metrics \<Rightarrow> metrics \<times> bool" where
  "init_emf_from_env env m =
     (if \<not> env_truthy env ''KHONE_EMF_METRICS'' then (m, False)
      else
        let high_res = env_truthy env ''KHONE_EMF_HIGH_RES'';
            namespace = (case non_blank (map_option trim (env ''KHONE_EMF_NAMESPACE'')) of
              Some v \<Rightarrow> v | None \<Rightarrow> ''KhoneGateway'');
            dimension_sets = [[], [''http.route'', ''khone.invoke.mode''],
              [''http.route'', ''http.request.method'', ''http.response.status_code'']];
            m = m\<lparr>mx_service_sink := Some \<lparr>es_namespace = namespace, es_high_res = high_res,
                    es_dimension_sets = dimension_sets, es_entries = []\<rparr>\<rparr>
        in (m\<lparr>mx_emf_enabled := True\<rparr>, True))"

subsection \<open>Emitting\<close>

definition append_and_close :: "emf_entry \<Rightarrow> metrics \<Rightarrow> metrics option" where
  "append_and_close entry m =
     (case mx_service_sink m of
        None \<Rightarrow> None
      | Some sink \<Rightarrow> Some (m\<lparr>mx_service_sink := Some (sink\<lparr>es_entries := es_entries sink @ [entry]\<rparr>)\<rparr>))"

fun invoke_mode_value :: "invoke_mode \<Rightarrow> string" where
  "invoke_mode_value Buffered = ''buffered''"
| "invoke_mode_value ResponseStream = ''response_stream''"

definition emit_http_server_active_requests :: "u64 \<Rightarrow> metrics \<Rightarrow> metrics option" where
  "emit_http_server_active_requests active_requests m =
     (if \<not> mx_emf_enabled m then Some m else append_and_close (KhoneHttpServer active_requests) m)"

definition emit_http_server_request :: "string \<Rightarrow> string \<Rightarrow> u16 \<Rightarrow> u64 \<Rightarrow> metrics \<Rightarrow> metrics option" where
  "emit_http_server_request route verb status_code duration_ms m =
     (if \<not> mx_emf_enabled m then Some m
      else append_and_close (KhoneHttpServerRequest
        \<lparr>hs_http_route = route, hs_http_request_method = verb, hs_http_response_status_code = dec (unat status_code),
         hs_http_server_request_duration_ms = duration_ms, hs_http_server_request_count = 1\<rparr>) m)"

definition emit_batched_invocation_queue_depth :: "u64 \<Rightarrow> metrics \<Rightarrow> metrics option" where
  "emit_batched_invocation_queue_depth depth m =
     (if \<not> mx_emf_enabled m then Some m else append_and_close (KhoneBatchingQueueDepth depth) m)"

definition emit_batched_invocation_queue_rejection :: "metrics \<Rightarrow> metrics option" where
  "emit_batched_invocation_queue_rejection m =
     (if \<not> mx_emf_enabled m then Some m else append_and_close (KhoneBatchingQueueRejections 1) m)"

definition emit_batched_probe_feedback :: "bool \<Rightarrow> metrics \<Rightarrow> metrics option" where
  "emit_batched_probe_feedback success m =
     (if \<not> mx_emf_enabled m then Some m
      else if success then append_and_close (KhoneBatchingProbeSuccess 1) m
      else append_and_close (KhoneBatchingProbeFailure 1) m)"

definition emit_batched_plan_splits :: "string \<Rightarrow> invoke_mode \<Rightarrow> u64 \<Rightarrow> metrics \<Rightarrow> metrics option" where
  "emit_batched_plan_splits route mode splits m =
     (if \<not> mx_emf_enabled m \<or> splits = 0 then Some m
      else append_and_close (KhoneBatchingPlanSplits
        \<lparr>ps_http_route = route, ps_khone_invoke_mode = invoke_mode_value mode, ps_splits = splits\<rparr>) m)"

definition emit_batched_missing_responses :: "string \<Rightarrow> invoke_mode \<Rightarrow> u64 \<Rightarrow> metrics \<Rightarrow> metrics option" where
  "emit_batched_missing_responses route mode missing m =
     (if \<not> mx_emf_enabled m \<or> missing = 0 then Some m
      else append_and_close (KhoneBatchingResponsesMissing
        \<lparr>rm_http_route = route, rm_khone_invoke_mode = invoke_mode_value mode, rm_missing = missing\<rparr>) m)"

definition emit_lambda_invoke_profile ::
  "string \<Rightarrow> invoke_mode \<Rightarrow> nat \<Rightarrow> u64 \<Rightarrow> lambda_invoke_report option \<Rightarrow> metrics \<Rightarrow> metrics option" where
  "emit_lambda_invoke_profile route mode batch_size batch_wait_ms report m =
     (if \<not> mx_emf_enabled m then Some m
      else
        let report = (case report of Some r \<Rightarrow> r | None \<Rightarrow> empty_report)
        in append_and_close (KhoneLambdaInvokeProfile
          \<lparr>li_http_route = route, li_khone_invoke_mode = invoke_mode_value mode, li_batch_size = of_nat batch_size,
           li_batch_wait_ms = batch_wait_ms, li_lambda_duration_ms = lr_duration_ms report,
           li_lambda_billed_duration_ms = lr_billed_duration_ms report,
           li_lambda_init_duration_ms = lr_init_duration_ms report,
           li_memory_size_mb = lr_memory_size_mb report, li_max_memory_used_mb = lr_max_memory_used_mb report\<rparr>) m)"

subsection \<open>What every emitter keeps\<close>

text \<open>The statics are sound when the switch is only on with a sink; then no emitter panics.\<close>

definition metrics_ok :: "metrics \<Rightarrow> bool" where
  "metrics_ok m \<longleftrightarrow> (mx_emf_enabled m \<longrightarrow> mx_service_sink m \<noteq> None)"

definition recorded :: "metrics \<Rightarrow> emf_entry list" where
  "recorded m = (case mx_service_sink m of Some sink \<Rightarrow> es_entries sink | None \<Rightarrow> [])"

text \<open>\<open>emits f es\<close>: from sound statics \<open>f\<close> returns, appends \<open>es\<close> when the switch is on and nothing else, and leaves the
  switch, the gauge and the soundness as they are.\<close>

definition emits :: "(metrics \<Rightarrow> metrics option) \<Rightarrow> emf_entry list \<Rightarrow> bool" where
  "emits f es \<longleftrightarrow> (\<forall>m. metrics_ok m \<longrightarrow> (\<exists>m'. f m = Some m' \<and> metrics_ok m' \<and> mx_emf_enabled m' = mx_emf_enabled m \<and>
     mx_active_requests m' = mx_active_requests m \<and> recorded m' = recorded m @ (if mx_emf_enabled m then es else [])))"

lemma emitsD:
  "emits f es \<Longrightarrow> metrics_ok m \<Longrightarrow> \<exists>m'. f m = Some m' \<and> metrics_ok m' \<and> mx_emf_enabled m' = mx_emf_enabled m \<and>
     mx_active_requests m' = mx_active_requests m \<and> recorded m' = recorded m @ (if mx_emf_enabled m then es else [])"
  by (simp add: emits_def)

lemma emits_gated: "(\<And>m. f m = (if \<not> mx_emf_enabled m then Some m else append_and_close e m)) \<Longrightarrow> emits f [e]"
  by (auto simp: emits_def metrics_ok_def append_and_close_def recorded_def)

lemma emits_nothing: "(\<And>m. f m = Some m) \<Longrightarrow> emits f []"
  by (simp add: emits_def)

lemma emits_active [emits_intros]: "emits (emit_http_server_active_requests n) [KhoneHttpServer n]"
  by (rule emits_gated) (simp add: emit_http_server_active_requests_def)

lemma emits_request [emits_intros]:
  "emits (emit_http_server_request route verb status elapsed_ms) [KhoneHttpServerRequest
     \<lparr>hs_http_route = route, hs_http_request_method = verb, hs_http_response_status_code = dec (unat status),
      hs_http_server_request_duration_ms = elapsed_ms, hs_http_server_request_count = 1\<rparr>]"
  by (rule emits_gated) (simp add: emit_http_server_request_def)

lemma emits_depth [emits_intros]: "emits (emit_batched_invocation_queue_depth n) [KhoneBatchingQueueDepth n]"
  by (rule emits_gated) (simp add: emit_batched_invocation_queue_depth_def)

lemma emits_rejection [emits_intros]: "emits emit_batched_invocation_queue_rejection [KhoneBatchingQueueRejections 1]"
  by (rule emits_gated) (simp add: emit_batched_invocation_queue_rejection_def)

lemma emits_probe [emits_intros]:
  "emits (emit_batched_probe_feedback success) [if success then KhoneBatchingProbeSuccess 1 else KhoneBatchingProbeFailure 1]"
  by (rule emits_gated) (simp add: emit_batched_probe_feedback_def)

lemma emits_splits [emits_intros]:
  "emits (emit_batched_plan_splits route mode n) (if n = 0 then [] else [KhoneBatchingPlanSplits
     \<lparr>ps_http_route = route, ps_khone_invoke_mode = invoke_mode_value mode, ps_splits = n\<rparr>])"
  by (auto intro!: emits_gated emits_nothing simp: emit_batched_plan_splits_def)

lemma emits_missing [emits_intros]:
  "emits (emit_batched_missing_responses route mode n) (if n = 0 then [] else [KhoneBatchingResponsesMissing
     \<lparr>rm_http_route = route, rm_khone_invoke_mode = invoke_mode_value mode, rm_missing = n\<rparr>])"
  by (auto intro!: emits_gated emits_nothing simp: emit_batched_missing_responses_def)

lemma emits_profile [emits_intros]:
  "emits (emit_lambda_invoke_profile route mode n wait_ms report) [KhoneLambdaInvokeProfile
     \<lparr>li_http_route = route, li_khone_invoke_mode = invoke_mode_value mode, li_batch_size = of_nat n,
      li_batch_wait_ms = wait_ms, li_lambda_duration_ms = Option.bind report lr_duration_ms,
      li_lambda_billed_duration_ms = Option.bind report lr_billed_duration_ms,
      li_lambda_init_duration_ms = Option.bind report lr_init_duration_ms,
      li_memory_size_mb = Option.bind report lr_memory_size_mb,
      li_max_memory_used_mb = Option.bind report lr_max_memory_used_mb\<rparr>]"
  by (rule emits_gated, cases report) (simp_all add: emit_lambda_invoke_profile_def Let_def empty_report_def)

lemma metrics_new_ok: "metrics_ok metrics_new" "mx_active_requests metrics_new = 0"
  by (simp_all add: metrics_ok_def metrics_new_def)

lemma init_emf_ok:
  "metrics_ok m \<Longrightarrow> metrics_ok (fst (init_emf_from_env env m))"
  "mx_active_requests (fst (init_emf_from_env env m)) = mx_active_requests m"
  by (simp_all add: init_emf_from_env_def metrics_ok_def Let_def)

lemma init_emf_enabled:
  "mx_emf_enabled (fst (init_emf_from_env env metrics_new)) = env_truthy env ''KHONE_EMF_METRICS''"
  "snd (init_emf_from_env env m) = env_truthy env ''KHONE_EMF_METRICS''"
  by (simp_all add: init_emf_from_env_def Let_def metrics_new_def)

subsection \<open>The gauge of active requests\<close>

text \<open>
  Where the thread of one request stands: \<open>start_http_server_request\<close> reads the switch (\<open>Starting\<close>), adds to the
  gauge (\<open>Counting\<close>) and emits (\<open>Counted\<close>); the guard lives until it is dropped (\<open>Live\<close>); the drop runs the
  loop of \<open>decrement_active_requests_saturating\<close>, which loads (\<open>Dropping\<close>) and exchanges if the gauge is still
  what it loaded (\<open>Loaded\<close>), and emits (\<open>Lowered\<close>).
\<close>

datatype guard_pc = Starting | Counting | Counted u64 | Live | Dropping | Loaded u64 | Lowered u64 | Over

fun guard_step :: "metrics \<Rightarrow> guard_pc \<Rightarrow> (metrics \<times> guard_pc) option" where
  "guard_step m Starting = Some (m, if mx_emf_enabled m then Counting else Over)"
| "guard_step m Counting =
     Some (m\<lparr>mx_active_requests := mx_active_requests m + 1\<rparr>, Counted (mx_active_requests m + 1))"
| "guard_step m (Counted current) = map_option (\<lambda>m. (m, Live)) (emit_http_server_active_requests current m)"
| "guard_step m Live = Some (m, Dropping)"
| "guard_step m Dropping = Some (m, Loaded (mx_active_requests m))"
| "guard_step m (Loaded current) =
     Some (if mx_active_requests m = current
           then let n = decrement_active_requests_saturating current in (m\<lparr>mx_active_requests := n\<rparr>, Lowered n)
           else (m, Dropping))"
| "guard_step m (Lowered current) = map_option (\<lambda>m. (m, Over)) (emit_http_server_active_requests current m)"
| "guard_step m Over = None"

text \<open>Any thread may move; between two of its steps all others may have moved.\<close>

inductive guards_step :: "metrics \<times> guard_pc list \<Rightarrow> metrics \<times> guard_pc list \<Rightarrow> bool" where
  guard_moves: "i < length gs \<Longrightarrow> guard_step m (gs ! i) = Some (m', p) \<Longrightarrow> guards_step (m, gs) (m', gs[i := p])"

inductive_cases guards_stepE: "guards_step (m, gs) x"
inductive_simps guards_step_iff: "guards_step (m, gs) (m', gs')"

fun guard_counts :: "guard_pc \<Rightarrow> bool" where
  "guard_counts (Counted _) = True"
| "guard_counts Live = True"
| "guard_counts Dropping = True"
| "guard_counts (Loaded _) = True"
| "guard_counts _ = False"

text \<open>Alone, a thread does what \<open>Server\<close> does in one step.\<close>

lemma guard_start_alone:
  assumes "metrics_ok m" "mx_emf_enabled m"
  shows "\<exists>m'. (guards_step ^^ 3) (m, [Starting]) (m', [Live]) \<and> mx_active_requests m' = mx_active_requests m + 1 \<and>
    recorded m' = recorded m @ [KhoneHttpServer (mx_active_requests m + 1)]"
proof -
  let ?m = "m\<lparr>mx_active_requests := mx_active_requests m + 1\<rparr>"
  have "metrics_ok ?m" using assms(1) by (simp add: metrics_ok_def)
  from emitsD [OF emits_active [of "mx_active_requests m + 1"] this] assms(2) obtain m' where
    e: "emit_http_server_active_requests (mx_active_requests m + 1) ?m = Some m'"
      "mx_active_requests m' = mx_active_requests m + 1"
      "recorded m' = recorded m @ [KhoneHttpServer (mx_active_requests m + 1)]"
    by (auto simp: recorded_def)
  have "guards_step (m, [Starting]) (m, [Counting])" "guards_step (m, [Counting]) (?m, [Counted (mx_active_requests m + 1)])"
    "guards_step (?m, [Counted (mx_active_requests m + 1)]) (m', [Live])"
    using guard_moves [of 0 "[Starting]" m m Counting] guard_moves [of 0 "[Counting]" m]
      guard_moves [of 0 "[Counted (mx_active_requests m + 1)]" ?m m' Live] assms(2) e(1) by auto
  then show ?thesis using e by (auto simp: numeral_3_eq_3 intro!: exI [of _ m'] relcompp.relcompI)
qed

subsection \<open>The gauge counts the live guards\<close>

definition gauge_records :: "metrics \<Rightarrow> nat" where
  "gauge_records m = length (filter (\<lambda>e. case e of KhoneHttpServer _ \<Rightarrow> True | _ \<Rightarrow> False) (recorded m))"

fun guard_records :: "guard_pc \<Rightarrow> nat" where
  "guard_records Live = 1"
| "guard_records Dropping = 1"
| "guard_records (Loaded _) = 1"
| "guard_records (Lowered _) = 1"
| "guard_records Over = 2"
| "guard_records _ = 0"

text \<open>With the switch off every thread is at its start or over, and neither gauge nor sink is touched.\<close>

definition gauge_inv :: "bool \<Rightarrow> nat \<Rightarrow> nat \<Rightarrow> metrics \<times> guard_pc list \<Rightarrow> bool" where
  "gauge_inv enabled r0 n s \<longleftrightarrow> (let (m, gs) = s in
     metrics_ok m \<and> mx_emf_enabled m = enabled \<and> length gs = n \<and> n < 2 ^ 64 \<and>
     unat (mx_active_requests m) = length (filter guard_counts gs) \<and>
     (if enabled then gauge_records m = r0 + sum_list (map guard_records gs)
      else gauge_records m = r0 \<and> set gs \<subseteq> {Starting, Over}))"

lemma gauge_init:
  assumes "metrics_ok m" "mx_active_requests m = 0" "n < 2 ^ 64"
  shows "gauge_inv (mx_emf_enabled m) (gauge_records m) n (m, replicate n Starting)"
  using assms by (auto simp: gauge_inv_def sum_list_replicate)

lemma emit_gauge:
  assumes "metrics_ok m" "emit_http_server_active_requests c m = Some m'"
  shows "metrics_ok m'" "mx_emf_enabled m' = mx_emf_enabled m" "mx_active_requests m' = mx_active_requests m"
    "gauge_records m' = gauge_records m + of_bool (mx_emf_enabled m)"
  using emitsD [OF emits_active [of c] assms(1)] assms(2) by (auto simp: gauge_records_def)

lemma gauge_records_active [simp]: "gauge_records (m\<lparr>mx_active_requests := a\<rparr>) = gauge_records m"
  by (simp add: gauge_records_def recorded_def)

lemma decrement_counted: "0 < unat a \<Longrightarrow> unat (decrement_active_requests_saturating a) = unat a - 1"
  by (simp add: decrement_active_requests_saturating_def unat_gt_0 unat_minus_one)

lemma filter_pos: "i < length gs \<Longrightarrow> P (gs ! i) \<Longrightarrow> 0 < length (filter P gs)"
  by (auto simp: filter_empty_conv)

lemma sum_map_update:
  fixes f :: "'a \<Rightarrow> nat"
  assumes "i < length xs"
  shows "sum_list (map f (xs[i := y])) + f (xs ! i) = sum_list (map f xs) + f y"
proof -
  have "f (xs ! i) \<le> sum_list (map f xs)" using assms by (intro member_le_sum_list) auto
  then show ?thesis using assms by (simp add: map_update sum_list_update)
qed

lemma gauge_step:
  assumes inv: "gauge_inv enabled r0 n s" and st: "guards_step s s'"
  shows "gauge_inv enabled r0 n s'"
  using st
proof cases
  case (guard_moves i gs m m' p)
  note i = guard_moves(3) and mv = guard_moves(4)
  have I: "metrics_ok m" "mx_emf_enabled m = enabled" "length gs = n" "n < 2 ^ 64"
    "unat (mx_active_requests m) = length (filter guard_counts gs)"
    using inv guard_moves(1) by (simp_all add: gauge_inv_def)
  have cnt: "length (filter guard_counts (gs[i := p])) + of_bool (guard_counts (gs ! i)) =
      length (filter guard_counts gs) + of_bool (guard_counts p)"
    by (rule length_filter_update [OF i])
  have bound: "length (filter guard_counts gs) + of_bool (\<not> guard_counts (gs ! i)) \<le> n"
  proof (cases "guard_counts (gs ! i)")
    case True
    then show ?thesis using I(3) length_filter_le [of guard_counts gs] by simp
  next
    case False
    then have "length (filter guard_counts gs) < length gs" using i by (intro length_filter_less [of "gs ! i"]) auto
    then show ?thesis using I(3) False by simp
  qed
  show ?thesis
  proof (cases enabled)
    case False
    then have s: "set gs \<subseteq> {Starting, Over}" "gauge_records m = r0"
      using inv guard_moves(1) by (simp_all add: gauge_inv_def)
    with i have "gs ! i \<in> {Starting, Over}" by (meson nth_mem subsetD)
    then have "gs ! i = Starting" "m' = m" "p = Over" using mv False I(2) by auto
    then show ?thesis using False I s cnt set_update_subset_insert [of gs i p]
      by (auto simp: gauge_inv_def guard_moves(2))
  next
    case True
    then have r: "gauge_records m = r0 + sum_list (map guard_records gs)"
      using inv guard_moves(1) by (simp add: gauge_inv_def)
    have rec: "sum_list (map guard_records (gs[i := p])) + guard_records (gs ! i) =
        sum_list (map guard_records gs) + guard_records p"
      by (rule sum_map_update [OF i])
    have fit: "metrics_ok m' \<and> mx_emf_enabled m' = enabled \<and>
        unat (mx_active_requests m') + of_bool (guard_counts (gs ! i)) = unat (mx_active_requests m) + of_bool (guard_counts p) \<and>
        gauge_records m' + guard_records (gs ! i) = gauge_records m + guard_records p"
    proof (cases "gs ! i")
      case Counting
      then have "unat (mx_active_requests m) < 2 ^ 64 - 1" using bound I(4,5) by simp
      then have "unat (mx_active_requests m + 1) = unat (mx_active_requests m) + 1"
        using unat_add_lem [of "mx_active_requests m" 1] by simp
      then show ?thesis using mv Counting I True by (auto simp: metrics_ok_def)
    next
      case (Loaded c)
      have "0 < unat (mx_active_requests m)" using filter_pos [OF i, of guard_counts] Loaded I(5) by simp
      then show ?thesis using mv Loaded I decrement_counted [of c] by (auto simp: Let_def metrics_ok_def split: if_splits)
    qed (use mv True I(1,2) in \<open>auto dest: emit_gauge\<close>)
    then show ?thesis using True I cnt r rec by (simp add: gauge_inv_def guard_moves(2))
  qed
qed

lemma gauge_run:
  "gauge_inv enabled r0 n s \<Longrightarrow> (guards_step ^^ k) s s' \<Longrightarrow> gauge_inv enabled r0 n s'"
proof (induction k arbitrary: s')
  case 0
  then show ?case by simp
next
  case (Suc k)
  then show ?case by (auto intro: gauge_step)
qed

subsection \<open>The loop ends\<close>

text \<open>
  A thread whose loaded value is out of date pays two more steps; only a change of the gauge can make it so, and
  each thread changes the gauge at most twice.
\<close>

fun guard_weight :: "u64 \<Rightarrow> guard_pc \<Rightarrow> nat" where
  "guard_weight a Starting = 7"
| "guard_weight a Counting = 6"
| "guard_weight a (Counted _) = 5"
| "guard_weight a Live = 4"
| "guard_weight a Dropping = 3"
| "guard_weight a (Loaded c) = (if c = a then 2 else 4)"
| "guard_weight a (Lowered _) = 1"
| "guard_weight a Over = 0"

fun guard_changes :: "guard_pc \<Rightarrow> nat" where
  "guard_changes Starting = 2"
| "guard_changes Counting = 2"
| "guard_changes (Lowered _) = 0"
| "guard_changes Over = 0"
| "guard_changes _ = 1"

definition guards_measure :: "metrics \<times> guard_pc list \<Rightarrow> nat" where
  "guards_measure s = (let (m, gs) = s in
     sum_list (map (guard_weight (mx_active_requests m)) gs) + 2 * length gs * sum_list (map guard_changes gs))"

lemma guard_weight_change: "guard_weight b p \<le> guard_weight a p + 2"
  by (cases p) auto

lemma sum_weight_change: "sum_list (map (guard_weight b) gs) \<le> sum_list (map (guard_weight a) gs) + 2 * length gs"
proof (induction gs)
  case Nil
  then show ?case by simp
next
  case (Cons g gs)
  then show ?case using guard_weight_change [of b g a] by simp
qed

text \<open>A step either leaves the gauge and takes weight off its thread, or is one of the two changes.\<close>

lemma guard_step_weight:
  assumes "guard_step m p = Some (m', q)" "metrics_ok m"
  shows "(mx_active_requests m' = mx_active_requests m \<and> guard_changes q = guard_changes p \<or>
      guard_changes p = guard_changes q + 1 \<or> mx_active_requests m' = mx_active_requests m \<and> guard_changes q \<le> guard_changes p) \<and>
    guard_weight (mx_active_requests m) q < guard_weight (mx_active_requests m) p"
  using assms by (cases p) (auto simp: Let_def dest: emit_gauge split: if_splits)

lemma guards_measure_step:
  assumes "guards_step s s'" "metrics_ok (fst s)"
  shows "guards_measure s' < guards_measure s"
  using assms(1)
proof cases
  case (guard_moves i gs m m' p)
  note 1 = guard_moves(2-4) and eq = guard_moves(1)
  have ok: "metrics_ok m" using assms(2) eq by simp
  let ?w = "guard_weight (mx_active_requests m)" and ?w' = "guard_weight (mx_active_requests m')"
  let ?N = "2 * length gs"
  note d = guard_step_weight [OF 1(3) ok]
  have w: "sum_list (map ?w (gs[i := p])) < sum_list (map ?w gs)"
    using sum_map_update [OF 1(2), of ?w p] d by linarith
  have c: "sum_list (map guard_changes (gs[i := p])) + guard_changes (gs ! i) = sum_list (map guard_changes gs) + guard_changes p"
    by (rule sum_map_update [OF 1(2)])
  show ?thesis
  proof (cases "mx_active_requests m' = mx_active_requests m \<and> guard_changes p \<le> guard_changes (gs ! i)")
    case True
    then have "sum_list (map guard_changes (gs[i := p])) \<le> sum_list (map guard_changes gs)" using c by linarith
    then have "?N * sum_list (map guard_changes (gs[i := p])) \<le> ?N * sum_list (map guard_changes gs)" by (rule mult_le_mono2)
    then have "sum_list (map ?w (gs[i := p])) + ?N * sum_list (map guard_changes (gs[i := p])) <
        sum_list (map ?w gs) + ?N * sum_list (map guard_changes gs)" by (rule add_less_le_mono [OF w])
    then show ?thesis using True by (simp only: guards_measure_def 1(1) eq prod.case Let_def length_list_update)
  next
    case False
    then have "guard_changes (gs ! i) = guard_changes p + 1" using d by auto
    then have "sum_list (map guard_changes gs) = sum_list (map guard_changes (gs[i := p])) + 1" using c by linarith
    then have "?N * sum_list (map guard_changes gs) = ?N * sum_list (map guard_changes (gs[i := p])) + ?N"
      by (simp only: distrib_left mult_1_right)
    moreover have "sum_list (map ?w' (gs[i := p])) \<le> sum_list (map ?w (gs[i := p])) + ?N"
      using sum_weight_change [of "mx_active_requests m'" "gs[i := p]" "mx_active_requests m"] by simp
    ultimately show ?thesis using w by (simp add: guards_measure_def 1(1) eq)
  qed
qed

lemma guards_run_bound:
  "gauge_inv enabled r0 n s \<Longrightarrow> (guards_step ^^ k) s s' \<Longrightarrow> k + guards_measure s' \<le> guards_measure s"
proof (induction k arbitrary: s')
  case 0
  then show ?case by simp
next
  case (Suc k)
  from Suc.prems(2) obtain t where t: "(guards_step ^^ k) s t" "guards_step t s'" by auto
  obtain m gs where "t = (m, gs)" by (cases t)
  then have "guards_measure s' < guards_measure t"
    using guards_measure_step gauge_run [OF Suc.prems(1) t(1)] t(2) by (auto simp: gauge_inv_def)
  then show ?case using Suc.IH [OF Suc.prems(1) t(1)] by linarith
qed

text \<open>No thread waits for another: while one is not over it can move.\<close>

lemma guard_progress: "metrics_ok m \<Longrightarrow> p \<noteq> Over \<Longrightarrow> \<exists>m' q. guard_step m p = Some (m', q)"
  using emitsD [OF emits_active] by (cases p) (auto simp: Let_def)

lemma guards_progress:
  assumes "metrics_ok m" "\<nexists>x. guards_step (m, gs) x"
  shows "gs = replicate (length gs) Over"
proof -
  have "gs ! i = Over" if "i < length gs" for i
    using guard_progress [OF assms(1), of "gs ! i"] guard_moves [OF that, of m] assms(2) by blast
  then show ?thesis by (simp add: list_eq_iff_nth_eq)
qed

text \<open>A schedule names the thread of each step.\<close>

fun guards_exec :: "nat list \<Rightarrow> metrics \<times> guard_pc list \<Rightarrow> (metrics \<times> guard_pc list) option" where
  "guards_exec [] s = Some s"
| "guards_exec (i # is) (m, gs) =
     (if i < length gs then
        (case guard_step m (gs ! i) of Some (m', p) \<Rightarrow> guards_exec is (m', gs[i := p]) | None \<Rightarrow> None)
      else None)"

lemma guards_exec_run: "guards_exec is s = Some t \<Longrightarrow> (guards_step ^^ length is) s t"
proof (induction "is" s rule: guards_exec.induct)
  case (1 s)
  then show ?case by simp
next
  case (2 i is_rest m gs)
  then obtain m' p where st: "i < length gs" "guard_step m (gs ! i) = Some (m', p)"
    and r: "guards_exec is_rest (m', gs[i := p]) = Some t"
    by (auto split: if_splits option.splits prod.splits)
  from 2(1) [OF st _ r] have "(guards_step ^^ length is_rest) (m', gs[i := p]) t" by simp
  with guards_step.intros [OF st] show ?case by (metis length_Cons relpowp_Suc_I2)
qed

definition metrics_env :: environment where
  "metrics_env name = (if name = ''KHONE_EMF_METRICS'' then Some ''1'' else None)"

text \<open>Two requests; both load the gauge, the first lowers it, the exchange of the second fails and is repeated.\<close>

definition race_schedule :: "nat list" where
  "race_schedule = [0, 0, 1, 1, 1, 0, 0, 1, 0, 1, 0, 1, 1, 1, 0, 1]"

definition metrics_on :: metrics where
  "metrics_on = \<lparr>mx_emf_enabled = True, mx_active_requests = 0, mx_service_sink = Some
     \<lparr>es_namespace = ''KhoneGateway'', es_high_res = False, es_dimension_sets = [[], [''http.route'', ''khone.invoke.mode''],
       [''http.route'', ''http.request.method'', ''http.response.status_code'']], es_entries = []\<rparr>\<rparr>"

lemma trim_switch: "trim ''1'' = ''1''"
  by (rule trim_plain) (simp_all add: plain_char_def)

lemma metrics_on_init: "fst (init_emf_from_env metrics_env metrics_new) = metrics_on"
  by (simp add: init_emf_from_env_def metrics_env_def env_truthy_def trim_switch metrics_new_def metrics_on_def
      Let_def non_blank_def)

lemma metrics_on_ok: "metrics_ok metrics_on" "mx_active_requests metrics_on = 0"
  by (simp_all add: metrics_on_def metrics_ok_def)

lemma metrics_on_records: "gauge_records metrics_on = 0" "mx_emf_enabled metrics_on"
  by (simp_all add: metrics_on_def gauge_records_def recorded_def)

text \<open>C16: the gauge of active requests counts the live guards exactly, however the threads of the requests interleave
  their loads, compares and exchanges: it never wraps and the saturation of the decrement never takes effect, and
  the panic of an unattached sink is never reached.\<close>
theorem gauge_counts_guards:
  assumes "metrics_ok m" "mx_active_requests m = 0" "n < 2 ^ 64"
    and "(guards_step ^^ k) (fst (init_emf_from_env env m), replicate n Starting) (m', gs)"
  shows "unat (mx_active_requests m') = length (filter guard_counts gs) \<and> metrics_ok m' \<and>
    (\<forall>i < length gs. gs ! i \<noteq> Over \<longrightarrow> guard_step m' (gs ! i) \<noteq> None)"
proof -
  have "gauge_inv (mx_emf_enabled (fst (init_emf_from_env env m))) (gauge_records (fst (init_emf_from_env env m))) n (m', gs)"
    using gauge_run [OF gauge_init assms(4)] assms(1-3) by (simp add: init_emf_ok)
  then show ?thesis using guard_progress [of m'] by (fastforce simp: gauge_inv_def)
qed

theorem gauge_counts_guards_witness:
  "\<exists>m'. guards_exec (take 12 race_schedule) (fst (init_emf_from_env metrics_env metrics_new), replicate 2 Starting) =
       Some (m', [Lowered 1, Dropping]) \<and>
     unat (mx_active_requests m') = 1 \<and> metrics_ok m' \<and> guard_step m' Dropping \<noteq> None"
proof -
  have "map_option snd (guards_exec (take 12 race_schedule) (metrics_on, replicate 2 Starting)) = Some [Lowered 1, Dropping]"
    by code_simp
  then obtain m' where r: "guards_exec (take 12 race_schedule) (metrics_on, replicate 2 Starting) = Some (m', [Lowered 1, Dropping])"
    by auto
  note c = gauge_counts_guards [OF metrics_new_ok _ guards_exec_run [OF r, folded metrics_on_init]]
  then have "unat (mx_active_requests m') = 1" "metrics_ok m'" "guard_step m' Dropping \<noteq> None" by fastforce+
  with r show ?thesis by (auto simp: metrics_on_init)
qed

text \<open>the compare-and-exchange loop ends: \<open>n\<close> requests take at most \<open>4 n^2 + 7 n\<close> steps in any interleaving, and when no
  thread can move all are over, the gauge is back at zero and, with the switch on, each request has emitted it
  twice.\<close>
theorem gauge_loop_terminates:
  assumes "metrics_ok m" "mx_active_requests m = 0" "n < 2 ^ 64"
    and "(guards_step ^^ k) (m, replicate n Starting) (m', gs)"
  shows "k \<le> 4 * n * n + 7 * n \<and>
    ((\<nexists>x. guards_step (m', gs) x) \<longrightarrow> gs = replicate n Over \<and> mx_active_requests m' = 0 \<and>
       gauge_records m' = gauge_records m + (if mx_emf_enabled m then 2 * n else 0))"
proof -
  note inv = gauge_init [OF assms(1-3)]
  have e: "gauge_inv (mx_emf_enabled m) (gauge_records m) n (m', gs)" by (rule gauge_run [OF inv assms(4)])
  have "k \<le> 4 * n * n + 7 * n"
    using guards_run_bound [OF inv assms(4)] by (simp add: guards_measure_def sum_list_replicate algebra_simps)
  moreover have "gs = replicate n Over \<and> mx_active_requests m' = 0 \<and>
      gauge_records m' = gauge_records m + (if mx_emf_enabled m then 2 * n else 0)" if "\<nexists>x. guards_step (m', gs) x"
  proof -
    have "gs = replicate n Over" using guards_progress [OF _ that] e by (simp add: gauge_inv_def)
    then show ?thesis using e by (auto simp: gauge_inv_def sum_list_replicate unat_eq_0 split: if_splits)
  qed
  ultimately show ?thesis by blast
qed

theorem gauge_loop_terminates_witness:
  "\<exists>m'. guards_exec race_schedule (metrics_on, replicate 2 Starting) = Some (m', replicate 2 Over) \<and>
     16 \<le> 4 * 2 * 2 + 7 * (2 :: nat) \<and> mx_active_requests m' = 0 \<and> gauge_records m' = 4"
proof -
  have "map_option snd (guards_exec race_schedule (metrics_on, replicate 2 Starting)) = Some (replicate 2 Over)"
    by code_simp
  then obtain m' where r: "guards_exec race_schedule (metrics_on, replicate 2 Starting) = Some (m', replicate 2 Over)"
    by auto
  have "\<nexists>x. guards_step (m', replicate 2 Over) x"
    by (auto elim!: guards_step.cases simp: numeral_2_eq_2 less_Suc_eq)
  then show ?thesis
    using gauge_loop_terminates [OF metrics_on_ok _ guards_exec_run [OF r]] r metrics_on_records by simp
qed

end
