(* ===== verification/Start.thy ===== *)
theory Start
  imports End_To_End Metrics
begin

text \<open>
  The start of the gateway process: \<open>main\<close> of \<open>gateway/src/main.rs\<close> from the environment to the served
  application, with the reading of the document (\<open>location.rs\<close>), the resource and the ids of the tracer, and
  \<open>server::run\<close>. Files, S3, the URL parser, the YAML parser, the exporter and the subscriber are what the
  environment offers (\<open>start_io\<close>).
\<close>

record start_io =
  si_ext :: ext_lib
  si_router :: router_lib
  si_to_str :: "string \<Rightarrow> string option"
  si_form_parse :: "string \<Rightarrow> (string \<times> string) list"
  si_url_parse :: "string \<Rightarrow> parsed_url option"
  si_yaml :: "bytes \<Rightarrow> gateway_doc res"
  si_subscriber :: "unit res"
  si_exporter :: "string \<Rightarrow> unit res"
  si_read_file :: "string \<Rightarrow> bytes res"
  si_get_object :: "string \<Rightarrow> string \<Rightarrow> bytes res res"

subsection \<open>The document\<close>

text \<open>\<open>s3\<close>: there is a client. A request fails at once or while its body is collected.\<close>

definition read_bytes :: "start_io \<Rightarrow> bool \<Rightarrow> document_location \<Rightarrow> bytes res" where
  "read_bytes io s3 loc =
     (case loc of
        FileLocation path \<Rightarrow> si_read_file io path
      | S3Location bucket key \<Rightarrow>
          if \<not> s3 then Inl ''S3 client not configured''
          else (case si_get_object io bucket key of
             Inl _ \<Rightarrow> Inl (''get_object s3://'' @ bucket @ ''/'' @ key)
           | Inr (Inl _) \<Rightarrow> Inl ''collect get_object body''
           | Inr (Inr bs) \<Rightarrow> Inr bs))"

subsection \<open>Tracing\<close>

definition tracer_resource :: "environment \<Rightarrow> (string \<times> string) list" where
  "tracer_resource env =
     [(''service.name'', case non_blank (map_option trim (env ''OTEL_SERVICE_NAME'')) of Some v \<Rightarrow> v | None \<Rightarrow> ''khone-gateway''),
      (''service.version'', ''0.0.0''), (''cloud.provider'', ''aws''), (''cloud.platform'', ''aws_lambda'')]"

definition xray_id_generator :: "environment \<Rightarrow> bool" where
  "xray_id_generator env \<longleftrightarrow> map_option trim (env ''KHONE_OBSERVABILITY_VENDOR'') = Some ''AWSXRAY''"

record tracer_setup =
  ts_protocol :: string
  ts_resource :: "(string \<times> string) list"
  ts_xray_ids :: bool

text \<open>The environment it leaves behind and the tracer, if tracing is on.\<close>

definition init_logging_and_tracing :: "start_io \<Rightarrow> environment \<Rightarrow> (environment \<times> tracer_setup option) res" where
  "init_logging_and_tracing io env =
     (let subscriber = map_err (\<lambda>_. ''init tracing subscriber'') (si_subscriber io)
      in case init_tracing (si_ext io) env of
           Inl e \<Rightarrow> Inl e
         | Inr None \<Rightarrow> (case subscriber of Inl e \<Rightarrow> Inl e | Inr _ \<Rightarrow> Inr (env, None))
         | Inr (Some (env', protocol)) \<Rightarrow>
             (case si_exporter io protocol of
                Inl _ \<Rightarrow> Inl ''build OTLP span exporter''
              | Inr _ \<Rightarrow>
                  (case subscriber of
                     Inl e \<Rightarrow> Inl e
                   | Inr _ \<Rightarrow> Inr (env', Some \<lparr>ts_protocol = protocol, ts_resource = tracer_resource env',
                       ts_xray_ids = xray_id_generator env'\<rparr>))))"

subsection \<open>The process\<close>

record started =
  sd_tracer :: "tracer_setup option"
  sd_metrics :: metrics
  sd_config :: gateway_config
  sd_gateway :: gateway

text \<open>\<open>main\<close> up to the runtime that serves the router.\<close>

definition gateway_main :: "start_io \<Rightarrow> environment \<Rightarrow> started res" where
  "gateway_main io env =
     (case init_logging_and_tracing io env of
        Inl _ \<Rightarrow> Inl ''init tracing''
      | Inr (env, tracer) \<Rightarrow>
          (let m = fst (init_emf_from_env env metrics_new)
           in case resolve_config_location env of
                Inl e \<Rightarrow> Inl e
              | Inr config_location \<Rightarrow>
                  (case location_parse (si_url_parse io) config_location of
                     Inl e \<Rightarrow> Inl e
                   | Inr cfg_loc \<Rightarrow>
                       (let needs_s3 = (case cfg_loc of S3Location bucket key \<Rightarrow> True | FileLocation path \<Rightarrow> False)
                        in case read_bytes io needs_s3 cfg_loc of
                             Inl e \<Rightarrow> Inl e
                           | Inr cfg_bytes \<Rightarrow>
                               (case load_gateway (si_yaml io) (si_ext io) (si_router io) cfg_bytes of
                                  Inl e \<Rightarrow> Inl e
                                | Inr (cfg, spec) \<Rightarrow>
                                    (case build_router (si_ext io) (si_router io) (si_to_str io) (si_form_parse io) env cfg spec
                                            (tracer \<noteq> None) of
                                       Inl e \<Rightarrow> Inl e
                                     | Inr gw \<Rightarrow> Inr \<lparr>sd_tracer = tracer, sd_metrics = m, sd_config = cfg, sd_gateway = gw\<rparr>))))))"

text \<open>\<open>server::run\<close>: \<open>served\<close> is how the Lambda runtime ended.\<close>

definition server_run :: "started res \<Rightarrow> unit res \<Rightarrow> unit res" where
  "server_run start served =
     (case start of Inl e \<Rightarrow> Inl e | Inr _ \<Rightarrow> map_err (\<lambda>err. ''lambda runtime failed: '' @ err) served)"

subsection \<open>Properties\<close>

lemma needs_s3: "(case loc of S3Location bucket key \<Rightarrow> True | FileLocation path \<Rightarrow> False) = (\<exists>b k. loc = S3Location b k)"
  by (cases loc) simp_all

lemma gateway_main_Inr:
  assumes "gateway_main io env = Inr st"
  shows "\<exists>env' loc bs spec. init_logging_and_tracing io env = Inr (env', sd_tracer st) \<and>
    sd_metrics st = fst (init_emf_from_env env' metrics_new) \<and>
    start_location env' (si_url_parse io) = Inr loc \<and>
    read_bytes io (\<exists>b k. loc = S3Location b k) loc = Inr bs \<and>
    load_gateway (si_yaml io) (si_ext io) (si_router io) bs = Inr (sd_config st, spec) \<and>
    build_router (si_ext io) (si_router io) (si_to_str io) (si_form_parse io) env' (sd_config st) spec (sd_tracer st \<noteq> None) =
      Inr (sd_gateway st)"
  using assms
proof -
  obtain env' where e: "init_logging_and_tracing io env = Inr (env', sd_tracer st)"
    "sd_metrics st = fst (init_emf_from_env env' metrics_new)"
    "\<exists>x loc bs spec. resolve_config_location env' = Inr x \<and> location_parse (si_url_parse io) x = Inr loc \<and>
       read_bytes io (\<exists>b k. loc = S3Location b k) loc = Inr bs \<and>
       load_gateway (si_yaml io) (si_ext io) (si_router io) bs = Inr (sd_config st, spec) \<and>
       build_router (si_ext io) (si_router io) (si_to_str io) (si_form_parse io) env' (sd_config st) spec (sd_tracer st \<noteq> None) =
         Inr (sd_gateway st)"
    using assms unfolding gateway_main_def needs_s3 Let_def
    by (cases st) (auto split: sum.splits prod.splits)
  then show ?thesis unfolding start_location_def by force
qed

lemma map_sum_case: "map_sum id g r = (case r of Inl e \<Rightarrow> Inl e | Inr x \<Rightarrow> Inr (g x))"
  by (cases r) simp_all

lemma tracer_iff_endpoint:
  "init_logging_and_tracing io env = Inr (env', tracer) \<Longrightarrow> tracer \<noteq> None \<longleftrightarrow> otlp_traces_endpoint_env env \<noteq> None"
  by (auto simp: init_logging_and_tracing_def init_tracing_def map_sum_case Let_def split: sum.splits option.splits if_splits)

lemma build_router_switches:
  assumes "build_router ext rl to_str form_parse env cfg spec otel = Inr gw"
  shows "ap_otel_enabled (gw_app gw) = otel" "ap_emf_enabled (gw_app gw) = env_truthy env ''KHONE_EMF_METRICS''"
  using assms by (auto simp: build_router_def split: sum.splits)

text \<open>An S3 client is made exactly when it is needed, so its absence is never the error.\<close>

lemma needed_client: "read_bytes io (\<exists>b k. loc = S3Location b k) loc \<noteq> Inl ''S3 client not configured'' \<or>
    (\<exists>path. loc = FileLocation path \<and> si_read_file io path = Inl ''S3 client not configured'')"
  by (cases loc) (auto simp: read_bytes_def split: sum.split)

text \<open>C24: a gateway process that gets as far as serving has read and validated its document: whatever requests arrive, in
  any interleaving, what it enqueues is a request for a validated operation, within the body limit; its capacities are
  positive, it traces exactly when an endpoint was configured, the counters it serves with are those the switch of
  the environment asks for, and emitting metrics cannot panic.\<close>
theorem started_process_serves_valid:
  assumes "gateway_main io env = Inr st"
    and "\<And>ts p t ps. router_at (si_router io) ts p = Some (t, ps) \<Longrightarrow> t \<in> set ts"
    and "run (server_step (gw_app (sd_gateway st))) (gw_server (sd_gateway st)) es = Some (s, os)"
  shows "0 < sv_permits (gw_server (sd_gateway st)) \<and> 0 < mg_depth (gw_manager (sd_gateway st)) \<and>
    0 < jq_permits (gw_queue (sd_gateway st)) \<and>
    (ap_otel_enabled (gw_app (sd_gateway st)) \<longleftrightarrow> otlp_traces_endpoint_env env \<noteq> None) \<and>
    metrics_ok (sd_metrics st) \<and> mx_emf_enabled (sd_metrics st) = ap_emf_enabled (gw_app (sd_gateway st)) \<and>
    list_all (\<lambda>out. case out of
        Enqueue op p \<Rightarrow> op_valid op \<and> oc_method op = pr_method p \<and> oc_route_template op = pr_route p \<and>
          length (pr_body p) \<le> gc_max_body_bytes (sd_config st)
      | _ \<Rightarrow> True) os"
proof -
  obtain env' bs spec where r: "init_logging_and_tracing io env = Inr (env', sd_tracer st)"
    "sd_metrics st = fst (init_emf_from_env env' metrics_new)"
    "load_gateway (si_yaml io) (si_ext io) (si_router io) bs = Inr (sd_config st, spec)"
    "build_router (si_ext io) (si_router io) (si_to_str io) (si_form_parse io) env' (sd_config st) spec (sd_tracer st \<noteq> None) =
      Inr (sd_gateway st)"
    using gateway_main_Inr [OF assms(1)] by blast
  note a = build_router_switches [OF r(4)]
  show ?thesis
    using started_gateway_enqueues_valid [OF r(3,4) assms(2,3)] tracer_iff_endpoint [OF r(1)] a
    by (simp add: r(2) init_emf_ok metrics_new_ok init_emf_enabled)
qed

definition example_io :: start_io where
  "example_io = \<lparr>si_ext = example_ext, si_router = example_router, si_to_str = Some, si_form_parse = (\<lambda>q. []),
     si_url_parse = (\<lambda>_. None), si_yaml = (\<lambda>_. Inr example_doc), si_subscriber = Inr (), si_exporter = (\<lambda>_. Inr ()),
     si_read_file = (\<lambda>path. if path = ''c'' then Inr ''x'' else Inl ''no file''), si_get_object = (\<lambda>b k. Inl ''no bucket'')\<rparr>"

definition example_environment :: environment where
  "example_environment name = (if name = ''KHONE_CONFIG_URI'' then Some ''c'' else None)"

theorem started_process_serves_valid_witness:
  "\<exists>st s os. gateway_main example_io example_environment = Inr st \<and>
     run (server_step (gw_app (sd_gateway st))) (gw_server (sd_gateway st))
       [Arrive (example_http ''GET'' ''/a/7''), BodyRead 0 ''u'' (Inr ''xyz'')] = Some (s, os) \<and> length os = 1 \<and>
     0 < sv_permits (gw_server (sd_gateway st)) \<and> \<not> ap_otel_enabled (gw_app (sd_gateway st)) \<and>
     list_all (\<lambda>out. case out of
        Enqueue op p \<Rightarrow> op_valid op \<and> oc_method op = pr_method p \<and> oc_route_template op = pr_route p \<and>
          length (pr_body p) \<le> gc_max_body_bytes (sd_config st)
      | _ \<Rightarrow> True) os"
proof -
  have c: "trim ''c'' = ''c''" by (rule trim_plain) (simp_all add: plain_char_def)
  obtain cfg spec where l: "load_gateway (\<lambda>_. Inr example_doc) example_ext example_router ''x'' = Inr (cfg, spec)"
    and b: "\<forall>env otel. \<exists>gw. build_router example_ext example_router Some (\<lambda>q. []) env cfg spec otel = Inr gw \<and>
        (env ''KHONE_EMF_METRICS'' = None \<longrightarrow> (\<exists>s os. run (server_step (gw_app gw)) (gw_server gw)
           [Arrive (example_http ''GET'' ''/a/7''), BodyRead 0 ''u'' (Inr ''xyz'')] = Some (s, os) \<and> (\<exists>op p. os = [Enqueue op p])))"
    using example_started [of "''x''"] by (elim exE conjE)
  have n: "example_environment ''KHONE_EMF_METRICS'' = None" by (simp add: example_environment_def)
  from b [rule_format, of example_environment False] n obtain gw s os where
    g: "build_router example_ext example_router Some (\<lambda>q. []) example_environment cfg spec False = Inr gw"
    "run (server_step (gw_app gw)) (gw_server gw) [Arrive (example_http ''GET'' ''/a/7''), BodyRead 0 ''u'' (Inr ''xyz'')] = Some (s, os)"
    "length os = 1"
    by auto
  have t: "otlp_traces_endpoint_env example_environment = None"
    by (simp add: otlp_traces_endpoint_env_def first_set_def non_blank_def List.map_filter_def example_environment_def)
  have e: "init_emf_from_env example_environment metrics_new = (metrics_new, False)"
    by (simp add: init_emf_from_env_def env_truthy_def example_environment_def)
  have u: "example_environment ''KHONE_CONFIG_URI'' = Some ''c''" by (simp add: example_environment_def)
  let ?st = "\<lparr>sd_tracer = None, sd_metrics = metrics_new, sd_config = cfg, sd_gateway = gw\<rparr>"
  have st: "gateway_main example_io example_environment = Inr ?st"
    using l g(1) by (simp add: gateway_main_def init_logging_and_tracing_def init_tracing_def t e u c Let_def
        resolve_config_location_def location_parse_def read_bytes_def example_io_def)
  have law: "router_at (si_router example_io) ts p = Some (x, ps) \<Longrightarrow> x \<in> set ts" for ts p x ps
    using example_router_law by (simp add: example_io_def)
  have r: "run (server_step (gw_app (sd_gateway ?st))) (gw_server (sd_gateway ?st))
      [Arrive (example_http ''GET'' ''/a/7''), BodyRead 0 ''u'' (Inr ''xyz'')] = Some (s, os)"
    using g(2) by simp
  show ?thesis
    using started_process_serves_valid [OF st law r] st r g(3) t
    by (intro exI [of _ ?st] exI [of _ s] exI [of _ os]) simp
qed

end
