(* ===== verification/Gateway.thy ===== *)
theory Gateway
  imports Server
begin

text \<open>
  The gateway as a whole: the HTTP server, the batcher manager with one task per batch key, the flushes
  of those tasks and the job queue run concurrently and meet in the places where the code makes them
  meet. The composition is a labelled step relation with one rule for each interaction; what comes from
  outside (requests, timers, clock readings, what an invocation returns) is in the labels.
\<close>

subsection \<open>State\<close>

text \<open>
  Task \<open>c\<close> reads channel \<open>c\<close> of the manager. While it flushes, \<open>tk_outbox\<close> holds what the flush has still to
  do; the task takes no other step before it is done.
\<close>

record batcher_task =
  tk_state :: batcher_state
  tk_outbox :: "flush_out list"

text \<open>\<open>lv_calls\<close> names the HTTP handler that waits in each call of \<open>enqueue\<close>. \<open>lv_log\<close> is every message sent to
  a waiting caller or to a duration scheduler, and every sender dropped.\<close>

record live =
  lv_server :: server
  lv_manager :: manager
  lv_queue :: job_queue
  lv_calls :: "nat list"
  lv_tasks :: "batcher_task list"
  lv_log :: "effect list"

definition live_new :: "gateway \<Rightarrow> live" where
  "live_new gw = \<lparr>lv_server = gw_server gw, lv_manager = gw_manager gw, lv_queue = gw_queue gw, lv_calls = [],
     lv_tasks = [], lv_log = []\<rparr>"

text \<open>What all tasks share, and the hash of a batch key that jitters the first probe.\<close>

record live_env =
  le_app :: app_state
  le_runtime :: batcher_runtime
  le_hasher :: "batch_key \<Rightarrow> u64"

text \<open>The runtime handed to task \<open>c\<close>: a feedback channel of its own when the wait follows probe durations.\<close>

definition task_runtime :: "live_env \<Rightarrow> nat \<Rightarrow> batcher_config \<Rightarrow> batcher_runtime" where
  "task_runtime le c cfg =
     (le_runtime le)\<lparr>rt_duration_feedback_tx := (if bc_duration_wait cfg = None then None else Some c)\<rparr>"

text \<open>A channel the manager has just opened gets its task, which reads the clock when it starts.\<close>

definition spawn_tasks :: "live_env \<Rightarrow> time \<Rightarrow> manager \<Rightarrow> batcher_task list \<Rightarrow> batcher_task list" where
  "spawn_tasks le now m tasks =
     tasks @ map (\<lambda>ch. \<lparr>tk_state = batcher_init (le_hasher le) (ch_key ch) (ch_config ch) now, tk_outbox = []\<rparr>)
       (drop (length tasks) (mg_channels m))"

text \<open>The flush of a batch before any of its jobs is offered: each \<open>Enqueued\<close> is a \<open>try_send\<close> still to come.\<close>

definition flush_work :: "live_env \<Rightarrow> nat \<Rightarrow> channel \<Rightarrow> u64 \<Rightarrow> flush_call \<Rightarrow> flush_out list" where
  "flush_work le c ch received_at_ms f =
     flush_batch (ap_ext (le_app le)) (ch_key ch) (task_runtime le c (ch_config ch)) (\<lambda>_. SendOk) received_at_ms
       (fc_wait_ms f) (fc_estimated_rps f) (fc_is_probe f) (fc_batch f)"

fun task_stopped :: "batcher_state \<Rightarrow> bool" where
  "task_stopped (TaskFixed s) \<longleftrightarrow> s = FixedStopped"
| "task_stopped (TaskDuration s) \<longleftrightarrow> ds_phase s = Stopped"
| "task_stopped (TaskDynamic s) \<longleftrightarrow> dy_phase s = Stopped"

subsection \<open>Interactions\<close>

text \<open>What the task may hear besides requests: a closed channel is seen once its queue is empty, a feedback message
  has to have been sent to this task.\<close>

fun task_hears :: "live \<Rightarrow> nat \<Rightarrow> batcher_event \<Rightarrow> bool" where
  "task_hears g c (Recv req t1 t2) = False"
| "task_hears g c RecvClosed = (ch_queue (mg_channels (lv_manager g) ! c) = [])"
| "task_hears g c (FeedbackRecv fb) = ((c, fb) \<in> set (feedbacks (lv_log g)))"
| "task_hears g c FeedbackClosed = True"
| "task_hears g c TimerFired = True"
| "task_hears g c SamplerTick = True"

text \<open>The senders of a request are also dropped with the queue of a task that ended.\<close>

definition lost_requests :: "live \<Rightarrow> pending_request list" where
  "lost_requests g = concat (map ch_lost (mg_channels (lv_manager g)))"

definition sender_dropped :: "live \<Rightarrow> pending_request \<Rightarrow> effect \<Rightarrow> bool" where
  "sender_dropped g p eff \<longleftrightarrow> eff \<in> set (lv_log g) \<or> p \<in> set (lost_requests g)"

text \<open>What the handler of request \<open>p\<close> can receive on the channel it waits on.\<close>

fun receives :: "live \<Rightarrow> pending_request \<Rightarrow> response_sink \<Rightarrow> body_answer \<Rightarrow> bool" where
  "receives g p (SinkBuffered c) (BufferedAnswer resp) = (effect.Answer c resp \<in> set (lv_log g))"
| "receives g p (SinkBuffered c) SenderDropped = sender_dropped g p (DropAnswer c)"
| "receives g p (SinkStream c b) (StreamAnswer init) = (StreamEff (SendInit c init) \<in> set (lv_log g))"
| "receives g p (SinkStream c b) SenderDropped = sender_dropped g p (StreamEff (DropInit c))"
| "receives g p sink TimedOut = True"
| "receives g p sink r = False"

fun is_enqueue :: "http_out \<Rightarrow> bool" where
  "is_enqueue (Enqueue op p) = True"
| "is_enqueue out = False"

fun from_outside :: "http_event \<Rightarrow> bool" where
  "from_outside (EnqueueReturned i r) = False"
| "from_outside (http_event.Answer i r) = False"
| "from_outside e = True"

fun enqueue_result :: "enqueue_error + unit \<Rightarrow> enqueue_error option" where
  "enqueue_result (Inl err) = Some err"
| "enqueue_result (Inr u) = None"

fun is_offer :: "queue_event \<Rightarrow> bool" where
  "is_offer (TryEnqueue job) = True"
| "is_offer e = False"

datatype live_event =
    Http http_event
  | CallGoes nat time
  | CallReturns nat
  | TaskTakes nat time time u64
  | TaskHears nat batcher_event u64
  | TaskSends nat
  | TaskEnds nat
  | TaskUnregisters nat
  | QueueMoves queue_event
  | AnswerArrives nat body_answer

definition set_task :: "nat \<Rightarrow> batcher_task \<Rightarrow> live \<Rightarrow> live" where
  "set_task c t g = g\<lparr>lv_tasks := (lv_tasks g)[c := t]\<rparr>"

inductive live_step :: "live_env \<Rightarrow> live \<Rightarrow> live_event \<Rightarrow> live \<Rightarrow> http_out list \<Rightarrow> bool" for le where
  http:
    "from_outside e \<Longrightarrow> server_step (le_app le) (lv_server g) e = Some (s, outs) \<Longrightarrow> \<not> list_ex is_enqueue outs \<Longrightarrow>
     live_step le g (Http e) (g\<lparr>lv_server := s\<rparr>) outs"
| calls:
    "server_step (le_app le) (lv_server g) (BodyRead i uuid body) = Some (s, [Enqueue op p]) \<Longrightarrow>
     mgr_step (lv_manager g) (Call op p) = Some (m, us) \<Longrightarrow>
     live_step le g (Http (BodyRead i uuid body)) (g\<lparr>lv_server := s, lv_manager := m, lv_calls := lv_calls g @ [i]\<rparr>) [Enqueue op p]"
| call_goes:
    "mgr_step (lv_manager g) (Go t) = Some (m, us) \<Longrightarrow>
     live_step le g (CallGoes t now) (g\<lparr>lv_manager := m, lv_tasks := spawn_tasks le now m (lv_tasks g)\<rparr>) []"
| call_returns:
    "t < length (lv_calls g) \<Longrightarrow> th_pc (mg_threads (lv_manager g) ! t) = EnqDone r \<Longrightarrow>
     server_step (le_app le) (lv_server g) (EnqueueReturned (lv_calls g ! t) (enqueue_result r)) = Some (s, outs) \<Longrightarrow>
     live_step le g (CallReturns t) (g\<lparr>lv_server := s\<rparr>) outs"
| task_takes:
    "c < length (lv_tasks g) \<Longrightarrow> tk_state (lv_tasks g ! c) = s \<Longrightarrow> tk_outbox (lv_tasks g ! c) = [] \<Longrightarrow>
     mg_channels (lv_manager g) ! c = ch \<Longrightarrow> ch_queue ch = req # queue \<Longrightarrow>
     mgr_step (lv_manager g) (TaskRecv c) = Some (m, us) \<Longrightarrow>
     batcher_step (task_runtime le c (ch_config ch)) (ch_config ch) s (Recv req t1 t2) = Some (s', fs) \<Longrightarrow>
     live_step le g (TaskTakes c t1 t2 now)
       (set_task c \<lparr>tk_state = s', tk_outbox = concat (map (flush_work le c ch now) fs)\<rparr> (g\<lparr>lv_manager := m\<rparr>)) []"
| task_hears:
    "c < length (lv_tasks g) \<Longrightarrow> tk_state (lv_tasks g ! c) = s \<Longrightarrow> tk_outbox (lv_tasks g ! c) = [] \<Longrightarrow> task_hears g c e \<Longrightarrow>
     mg_channels (lv_manager g) ! c = ch \<Longrightarrow>
     batcher_step (task_runtime le c (ch_config ch)) (ch_config ch) s e = Some (s', fs) \<Longrightarrow>
     live_step le g (TaskHears c e now)
       (set_task c \<lparr>tk_state = s', tk_outbox = concat (map (flush_work le c ch now) fs)\<rparr> g) []"
| task_answers:
    "c < length (lv_tasks g) \<Longrightarrow> tk_state (lv_tasks g ! c) = s \<Longrightarrow> tk_outbox (lv_tasks g ! c) = Eff x # rest \<Longrightarrow>
     live_step le g (TaskSends c) (set_task c \<lparr>tk_state = s, tk_outbox = rest\<rparr> (g\<lparr>lv_log := lv_log g @ [x]\<rparr>)) []"
| task_offers:
    "c < length (lv_tasks g) \<Longrightarrow> tk_state (lv_tasks g ! c) = s \<Longrightarrow> tk_outbox (lv_tasks g ! c) = Enqueued job # rest \<Longrightarrow>
     queue_step (rt_response_dispatcher (le_runtime le)) (rt_probe_feedback_reporter (le_runtime le)) (lv_queue g)
       (TryEnqueue job) = Some (q, effs) \<Longrightarrow>
     live_step le g (TaskSends c)
       (set_task c \<lparr>tk_state = s, tk_outbox = rest\<rparr> (g\<lparr>lv_queue := q, lv_log := lv_log g @ effs\<rparr>)) []"
| task_ends:
    "c < length (lv_tasks g) \<Longrightarrow> tk_state (lv_tasks g ! c) = s \<Longrightarrow> tk_outbox (lv_tasks g ! c) = [] \<Longrightarrow> task_stopped s \<Longrightarrow>
     mgr_step (lv_manager g) (TaskExit c) = Some (m, us) \<Longrightarrow>
     live_step le g (TaskEnds c) (g\<lparr>lv_manager := m\<rparr>) []"
| task_unregisters:
    "mgr_step (lv_manager g) (TaskUnregister c) = Some (m, us) \<Longrightarrow>
     live_step le g (TaskUnregisters c) (g\<lparr>lv_manager := m\<rparr>) []"
| queue_moves:
    "\<not> is_offer e \<Longrightarrow>
     queue_step (rt_response_dispatcher (le_runtime le)) (rt_probe_feedback_reporter (le_runtime le)) (lv_queue g) e =
       Some (q, effs) \<Longrightarrow>
     live_step le g (QueueMoves e) (g\<lparr>lv_queue := q, lv_log := lv_log g @ effs\<rparr>) []"
| answer_arrives:
    "i < length (sv_handlers (lv_server g)) \<Longrightarrow> sv_handlers (lv_server g) ! i = (rq, Waiting op p) \<Longrightarrow>
     receives g p (pr_respond_to p) r \<Longrightarrow>
     server_step (le_app le) (lv_server g) (http_event.Answer i r) = Some (s, outs) \<Longrightarrow>
     live_step le g (AnswerArrives i r) (g\<lparr>lv_server := s\<rparr>) outs"

inductive live_run :: "live_env \<Rightarrow> live \<Rightarrow> live_event list \<Rightarrow> live \<Rightarrow> http_out list \<Rightarrow> bool" for le where
  start: "live_run le g [] g []"
| step: "live_run le g es g' outs \<Longrightarrow> live_step le g' e g'' outs' \<Longrightarrow> live_run le g (es @ [e]) g'' (outs @ outs')"

code_pred (modes: i \<Rightarrow> i \<Rightarrow> i \<Rightarrow> o \<Rightarrow> o \<Rightarrow> bool as live_next) live_step .

subsection \<open>A flush carried out send by send\<close>

text \<open>Filling in the results of the sends gives the flush as \<open>flush_batch\<close> describes it.\<close>

fun settle_sends :: "batcher_runtime \<Rightarrow> (nat \<Rightarrow> try_send_result) \<Rightarrow> nat \<Rightarrow> flush_out list \<Rightarrow> flush_out list" where
  "settle_sends rt sends n [] = []"
| "settle_sends rt sends n (Eff x # outs) = Eff x # settle_sends rt sends n outs"
| "settle_sends rt sends n (Enqueued job # outs) = offer_job rt (sends n) job @ settle_sends rt sends (n + 1) outs"

lemma settle_Eff [simp]: "settle_sends rt sends n (map Eff es @ outs) = map Eff es @ settle_sends rt sends n outs"
  by (induction es) simp_all

lemma settle_plans:
  "settle_sends rt sends n (run_plans rt (\<lambda>_. SendOk) fail_plan mk_job k ps) = run_plans rt sends fail_plan mk_job n ps"
proof (induction ps arbitrary: n k)
  case (Cons p ps)
  then show ?case by (cases p) (simp_all add: offer_job_def [of rt SendOk])
qed simp

lemma flush_settled:
  "flush_batch ext key rt sends ts w rps is_probe batch =
   settle_sends rt sends 0 (flush_batch ext key rt (\<lambda>_. SendOk) ts w rps is_probe batch)"
  by (simp add: flush_batch_def flush_buffered_def flush_stream_def Let_def settle_plans split: prod.split)

subsection \<open>Where the callers are\<close>

definition task_callers :: "batcher_task \<Rightarrow> caller multiset" where
  "task_callers t = request_callers (task_held (tk_state t)) + flush_callers (tk_outbox t)"

definition in_tasks :: "live \<Rightarrow> caller multiset" where
  "in_tasks g = sum_list (map task_callers (lv_tasks g))"

definition received :: "manager \<Rightarrow> caller multiset" where
  "received m = sum_list (map (\<lambda>ch. request_callers (ch_received ch)) (mg_channels m))"

definition queued :: "manager \<Rightarrow> caller multiset" where
  "queued m = sum_list (map (\<lambda>ch. request_callers (ch_queue ch)) (mg_channels m))"

definition in_flight :: "live \<Rightarrow> caller multiset" where
  "in_flight g = queued (lv_manager g) + in_tasks g + queue_callers (lv_queue g)"

definition lost_callers :: "live \<Rightarrow> caller multiset" where
  "lost_callers g = request_callers (lost_requests g)"

definition live_inv :: "nat \<Rightarrow> nat \<Rightarrow> live \<Rightarrow> bool" where
  "live_inv inflight cap g \<longleftrightarrow> mgr_inv (lv_manager g) \<and> accounted (lv_manager g) \<and>
     length (lv_tasks g) = length (mg_channels (lv_manager g)) \<and> queue_inv inflight cap (lv_queue g) \<and>
     (\<forall>t \<in> set (lv_tasks g). list_all job_ok (jobs_of (tk_outbox t))) \<and>
     received (lv_manager g) = in_tasks g + queue_callers (lv_queue g) + resolved (lv_log g)"

lemma request_callers_simps [simp]:
  "request_callers [] = {#}" "request_callers (r # rs) = {#sink_caller (pr_respond_to r)#} + request_callers rs"
  "request_callers (xs @ ys) = request_callers xs + request_callers ys"
  by (simp_all add: request_callers_def)

lemma same_sum_update:
  "c < length xs \<Longrightarrow> f y = f (xs ! c) \<Longrightarrow> sum_list (map f (xs[c := y])) = (sum_list (map f xs) :: 'a multiset)"
  using sum_list_update_mset [of c xs f y] by simp

lemma received_update [simp]:
  "ch_received ch = ch_received (chs ! c) \<Longrightarrow>
     sum_list (map (\<lambda>ch. request_callers (ch_received ch)) (chs[c := ch])) = sum_list (map (\<lambda>ch. request_callers (ch_received ch)) chs)"
  by (cases "c < length chs") (simp_all add: same_sum_update list_update_beyond)

lemma enq_step_received:
  "enq_step m op req pc = (m', pc') \<Longrightarrow> received m' = received m \<and> length (mg_channels m) \<le> length (mg_channels m')"
  by (cases pc) (auto simp: received_def Let_def split: option.splits if_splits)

definition taken :: "manager \<Rightarrow> mgr_event \<Rightarrow> pending_request list" where
  "taken m e = (case e of TaskRecv c \<Rightarrow> [hd (ch_queue (mg_channels m ! c))] | _ \<Rightarrow> [])"

lemma mgr_step_received:
  assumes "mgr_step m e = Some (m', us)"
  shows "received m' = received m + request_callers (taken m e) \<and> length (mg_channels m) \<le> length (mg_channels m')"
proof (cases e)
  case (Go i)
  obtain m1 pc where "enq_step m (th_op (mg_threads m ! i)) (th_req (mg_threads m ! i)) (th_pc (mg_threads m ! i)) = (m1, pc)"
    by (metis surj_pair)
  then show ?thesis using Go assms enq_step_received by (auto simp: Let_def received_def taken_def split: if_splits)
next
  case (TaskRecv c)
  then obtain req queue where c: "c < length (mg_channels m)" "ch_queue (mg_channels m ! c) = req # queue"
    "m' = m\<lparr>mg_channels := (mg_channels m)[c := (mg_channels m ! c)\<lparr>ch_queue := queue,
       ch_received := ch_received (mg_channels m ! c) @ [req]\<rparr>]\<rparr>"
    using assms by (auto simp: Let_def split: if_splits list.splits)
  show ?thesis
    using sum_list_update_mset [OF c(1), of "\<lambda>ch. request_callers (ch_received ch)"
        "(mg_channels m ! c)\<lparr>ch_queue := queue, ch_received := ch_received (mg_channels m ! c) @ [req]\<rparr>"] TaskRecv c(2)
    by (simp add: c(3) received_def taken_def)
qed (use assms in \<open>auto simp: received_def taken_def Let_def split: if_splits\<close>)

lemma mgr_step_length:
  "mgr_step m e = Some (m', us) \<Longrightarrow> (\<And>t. e \<noteq> Go t) \<Longrightarrow> length (mg_channels m') = length (mg_channels m)"
  by (cases e) (auto simp: Let_def split: if_splits list.splits)

lemma spawn_tasks_facts:
  assumes "length tasks \<le> length (mg_channels m)"
  shows "length (spawn_tasks le now m tasks) = length (mg_channels m)"
    "sum_list (map task_callers (spawn_tasks le now m tasks)) = sum_list (map task_callers tasks)"
    "t \<in> set (spawn_tasks le now m tasks) \<Longrightarrow> t \<in> set tasks \<or> tk_outbox t = []"
proof -
  have "sum_list (map task_callers (map (\<lambda>ch. \<lparr>tk_state = batcher_init h (ch_key ch) (ch_config ch) now, tk_outbox = []\<rparr>) chs)) = {#}"
    for h chs by (induction chs) (simp_all add: task_callers_def)
  then show "sum_list (map task_callers (spawn_tasks le now m tasks)) = sum_list (map task_callers tasks)"
    by (simp add: spawn_tasks_def)
qed (use assms in \<open>auto simp: spawn_tasks_def\<close>)

lemma task_runtime_parts [simp]:
  "rt_response_dispatcher (task_runtime le c cfg) = rt_response_dispatcher (le_runtime le)"
  "rt_probe_feedback_reporter (task_runtime le c cfg) = rt_probe_feedback_reporter (le_runtime le)"
  by (simp_all add: task_runtime_def)

definition default_services :: "ext_lib \<Rightarrow> stream_env \<Rightarrow> live_env \<Rightarrow> bool" where
  "default_services ext env le \<longleftrightarrow> rt_response_dispatcher (le_runtime le) = default_dispatcher ext env \<and>
     rt_probe_feedback_reporter (le_runtime le) = default_reporter"

lemma flush_work_callers:
  "default_services ext env le \<Longrightarrow> flush_callers (concat (map (flush_work le c ch now) fs)) = request_callers (flushed fs)"
  by (induction fs) (simp_all add: flush_work_def default_services_def default_invocation.flush_batch_callers)

lemma flush_work_jobs: "list_all job_ok (jobs_of (concat (map (flush_work le c ch now) fs)))"
  by (induction fs) (auto simp: flush_work_def list_all_iff dest: flush_jobs_ok)

text \<open>A task that consumed what arrived: its callers are those it had and those that came.\<close>

lemma batcher_step_callers:
  assumes "default_services ext env le" "batcher_step rt cfg s e = Some (s', fs)"
  shows "task_callers \<lparr>tk_state = s', tk_outbox = concat (map (flush_work le c ch now) fs)\<rparr> =
    request_callers (task_held s) + request_callers (arrived e)"
proof -
  have "request_callers (flushed fs @ task_held s') = request_callers (task_held s @ arrived e)"
    by (simp only: task.step_order [OF assms(2)])
  then show ?thesis by (simp add: task_callers_def flush_work_callers [OF assms(1)] add.commute)
qed

lemma in_tasks_update:
  "c < length (lv_tasks g) \<Longrightarrow> in_tasks (set_task c t g) + task_callers (lv_tasks g ! c) = in_tasks g + task_callers t"
  using sum_list_update_mset [of c "lv_tasks g" task_callers t] by (simp add: in_tasks_def set_task_def)

lemma set_task_simps [simp]:
  "lv_manager (set_task c t g) = lv_manager g" "lv_queue (set_task c t g) = lv_queue g" "lv_log (set_task c t g) = lv_log g"
  "lv_server (set_task c t g) = lv_server g" "lv_calls (set_task c t g) = lv_calls g"
  "lv_tasks (set_task c t g) = (lv_tasks g)[c := t]"
  by (simp_all add: set_task_def)

text \<open>One invariant step for a task: its new outbox is well formed and the books stay balanced.\<close>

lemma live_inv_task:
  assumes "live_inv inflight cap g" "c < length (lv_tasks g)" "list_all job_ok (jobs_of (tk_outbox t))"
    and "mgr_inv m" "accounted m" "length (mg_channels m) = length (mg_channels (lv_manager g))" "queue_inv inflight cap q"
    and "received m + task_callers (lv_tasks g ! c) + queue_callers (lv_queue g) + resolved (lv_log g) =
      received (lv_manager g) + task_callers t + queue_callers q + resolved es"
  shows "live_inv inflight cap (set_task c t (g\<lparr>lv_manager := m, lv_queue := q, lv_log := es\<rparr>))"
proof -
  let ?g = "set_task c t (g\<lparr>lv_manager := m, lv_queue := q, lv_log := es\<rparr>)"
  have "in_tasks (g\<lparr>lv_manager := m, lv_queue := q, lv_log := es\<rparr>) = in_tasks g" by (simp add: in_tasks_def)
  then have t: "in_tasks ?g + task_callers (lv_tasks g ! c) = in_tasks g + task_callers t"
    using in_tasks_update [of c "g\<lparr>lv_manager := m, lv_queue := q, lv_log := es\<rparr>" t] assms(2) by simp
  have r: "received (lv_manager g) = in_tasks g + queue_callers (lv_queue g) + resolved (lv_log g)"
    using assms(1) by (simp add: live_inv_def)
  have "received m + (task_callers (lv_tasks g ! c) + queue_callers (lv_queue g) + resolved (lv_log g)) =
      (in_tasks g + task_callers t) + queue_callers (lv_queue g) + resolved (lv_log g) + queue_callers q + resolved es"
    using assms(8) r by (simp add: add_ac)
  also have "\<dots> = (in_tasks ?g + queue_callers q + resolved es) +
      (task_callers (lv_tasks g ! c) + queue_callers (lv_queue g) + resolved (lv_log g))"
    unfolding t [symmetric] by (simp add: add_ac)
  finally have "received m = in_tasks ?g + queue_callers q + resolved es" by simp
  moreover have "\<forall>t' \<in> set ((lv_tasks g)[c := t]). list_all job_ok (jobs_of (tk_outbox t'))"
    using assms(1,3) set_update_subset_insert [of "lv_tasks g" c t] by (auto simp: live_inv_def)
  ultimately show ?thesis using assms by (simp add: live_inv_def)
qed

lemma live_inv_manager:
  assumes "live_inv inflight cap g" "mgr_inv m" "accounted m" "length (mg_channels m) = length (mg_channels (lv_manager g))"
    and "received m = received (lv_manager g)"
  shows "live_inv inflight cap (g\<lparr>lv_manager := m\<rparr>)"
  using assms by (simp add: live_inv_def in_tasks_def)

lemma live_inv_step:
  assumes ds: "default_services ext env le" and inv: "live_inv inflight cap g" and step: "live_step le g e g' outs"
  shows "live_inv inflight cap g'"
proof -
  let ?d = "rt_response_dispatcher (le_runtime le)" and ?rep = "rt_probe_feedback_reporter (le_runtime le)"
  have qi: "queue_inv inflight cap (lv_queue g)" and mi: "mgr_inv (lv_manager g)" and ac: "accounted (lv_manager g)"
    and len: "length (lv_tasks g) = length (mg_channels (lv_manager g))"
    using inv by (simp_all add: live_inv_def)
  have q: "queue_inv inflight cap q \<and> resolved effs + queue_callers q = queue_callers (lv_queue g) + offered qe"
    if "queue_step ?d ?rep (lv_queue g) qe = Some (q, effs)" "event_ok qe" for qe q effs
    using default_invocation.queue_step_resolves [of ext env _ qe] queue_step_inv [OF that(1) qi that(2)] that qi ds
    by (auto simp: default_services_def)
  have jobs: "list_all job_ok (jobs_of (tk_outbox (lv_tasks g ! c)))" if "c < length (lv_tasks g)" for c
    using inv nth_mem [OF that] by (auto simp: live_inv_def)
  from step show ?thesis
  proof cases
    case (http he s)
    then show ?thesis using inv by (simp add: live_inv_def in_tasks_def)
  next
    case (calls i uuid body s op p m us)
    then show ?thesis
      using mgr_step_inv [OF mi ac calls(5)] mgr_step_received [OF calls(5)] mgr_step_length [OF calls(5)] inv
      by (simp add: live_inv_def in_tasks_def taken_def)
  next
    case (call_goes t m us now)
    note r = mgr_step_received [OF call_goes(4)]
    have sp: "length (lv_tasks g) \<le> length (mg_channels m)" using r len by simp
    show ?thesis
      using mgr_step_inv [OF mi ac call_goes(4)] r spawn_tasks_facts(1,2) [OF sp] inv
      by (auto simp: call_goes(2) live_inv_def in_tasks_def taken_def dest!: spawn_tasks_facts(3) [OF sp])
  next
    case (call_returns t r s)
    then show ?thesis using inv by (simp add: live_inv_def in_tasks_def)
  next
    case (task_takes c s ch req queue m us t1 t2 s' fs now)
    have t: "task_callers (lv_tasks g ! c) = request_callers (task_held s)"
      using task_takes(5,6) by (simp add: task_callers_def)
    have "live_inv inflight cap (set_task c \<lparr>tk_state = s', tk_outbox = concat (map (flush_work le c ch now) fs)\<rparr>
        (g\<lparr>lv_manager := m, lv_queue := lv_queue g, lv_log := lv_log g\<rparr>))"
      using mgr_step_inv [OF mi ac task_takes(9)] mgr_step_received [OF task_takes(9)] mgr_step_length [OF task_takes(9)]
        task_takes(7,8) qi
      by (intro live_inv_task [OF inv task_takes(4)])
        (simp_all add: flush_work_jobs batcher_step_callers [OF ds task_takes(10)] t taken_def add_ac)
    then show ?thesis by (simp add: task_takes(2))
  next
    case (task_hears c s be ch s' fs now)
    have t: "task_callers (lv_tasks g ! c) = request_callers (task_held s)"
      using task_hears(5,6) by (simp add: task_callers_def)
    have a: "arrived be = []" using task_hears(7) by (cases be) auto
    have "live_inv inflight cap (set_task c \<lparr>tk_state = s', tk_outbox = concat (map (flush_work le c ch now) fs)\<rparr>
        (g\<lparr>lv_manager := lv_manager g, lv_queue := lv_queue g, lv_log := lv_log g\<rparr>))"
      using mi ac qi
      by (intro live_inv_task [OF inv task_hears(4)])
        (simp_all add: flush_work_jobs batcher_step_callers [OF ds task_hears(9)] t a)
    then show ?thesis by (simp add: task_hears(2))
  next
    case (task_answers c s x rest)
    have o: "tk_outbox (lv_tasks g ! c) = map Eff [x] @ rest" using task_answers(6) by simp
    have t: "task_callers (lv_tasks g ! c) = task_callers \<lparr>tk_state = s, tk_outbox = rest\<rparr> + mset (resolves x)"
      unfolding task_callers_def o task_answers(5) by (simp only: flush_callers_append flush_callers_Eff) (simp add: add_ac)
    have "live_inv inflight cap (set_task c \<lparr>tk_state = s, tk_outbox = rest\<rparr>
        (g\<lparr>lv_manager := lv_manager g, lv_queue := lv_queue g, lv_log := lv_log g @ [x]\<rparr>))"
      using mi ac qi jobs [OF task_answers(4)]
      by (intro live_inv_task [OF inv task_answers(4)]) (simp_all only: o out_simps out_map_Eff t, simp_all add: add_ac)
    then show ?thesis by (simp add: task_answers(2))
  next
    case (task_offers c s job rest q' effs)
    have o: "tk_outbox (lv_tasks g ! c) = [Enqueued job] @ rest" using task_offers(6) by simp
    have t: "task_callers (lv_tasks g ! c) = task_callers \<lparr>tk_state = s, tk_outbox = rest\<rparr> + job_callers job"
      unfolding task_callers_def o task_offers(5) by (simp only: flush_callers_append jobs_callers_Enqueued) (simp add: add_ac)
    have j: "job_ok job" "list_all job_ok (jobs_of rest)" using jobs [OF task_offers(4), unfolded o out_simps] by simp_all
    have "live_inv inflight cap (set_task c \<lparr>tk_state = s, tk_outbox = rest\<rparr>
        (g\<lparr>lv_manager := lv_manager g, lv_queue := q', lv_log := lv_log g @ effs\<rparr>))"
      using mi ac j q [OF task_offers(7)]
      by (intro live_inv_task [OF inv task_offers(4)]) (simp_all add: t add_ac)
    then show ?thesis by (simp add: task_offers(2))
  next
    case (task_ends c s m us)
    then show ?thesis
      using mgr_step_inv [OF mi ac task_ends(8)] mgr_step_received [OF task_ends(8)] mgr_step_length [OF task_ends(8)]
      by (simp add: task_ends(2) live_inv_manager [OF inv] taken_def)
  next
    case (task_unregisters m us c)
    then show ?thesis
      using mgr_step_inv [OF mi ac task_unregisters(4)] mgr_step_received [OF task_unregisters(4)] mgr_step_length [OF task_unregisters(4)]
      by (simp add: task_unregisters(2) live_inv_manager [OF inv] taken_def)
  next
    case (queue_moves qe q' effs)
    have "event_ok qe" "offered qe = {#}" using queue_moves(4) by (cases qe; simp)+
    then show ?thesis using q [OF queue_moves(5)] inv by (simp add: queue_moves(2) live_inv_def in_tasks_def add_ac)
  next
    case (answer_arrives i rq op p r s)
    then show ?thesis using inv by (simp add: live_inv_def in_tasks_def)
  qed
qed

subsection \<open>One place for every accepted request\<close>

definition thread_caller :: "enq_thread \<Rightarrow> caller" where
  "thread_caller t = sink_caller (pr_respond_to (th_req t))"

definition calls_made :: "manager \<Rightarrow> http_out list" where
  "calls_made m = map (\<lambda>t. Enqueue (th_op t) (th_req t)) (mg_threads m)"

definition calls_inv :: "live \<Rightarrow> bool" where
  "calls_inv g \<longleftrightarrow> distinct (chans_of (calls_made (lv_manager g))) \<and>
     set (chans_of (calls_made (lv_manager g))) \<subseteq> {..<sv_chans (lv_server g)}"

lemma enq_step_threads: "enq_step m op req pc = (m', pc') \<Longrightarrow> mg_threads m' = mg_threads m"
  by (cases pc) (auto simp: Let_def split: option.splits if_splits)

lemma calls_made_step:
  assumes "mgr_step m e = Some (m', us)"
  shows "calls_made m' = calls_made m @ (case e of Call op p \<Rightarrow> [Enqueue op p] | _ \<Rightarrow> [])"
proof (cases e)
  case (Go i)
  obtain m1 pc where e: "enq_step m (th_op (mg_threads m ! i)) (th_req (mg_threads m ! i)) (th_pc (mg_threads m ! i)) = (m1, pc)"
    by (metis surj_pair)
  have "(map f xs)[i := f (xs ! i)] = map f xs" for f :: "enq_thread \<Rightarrow> http_out" and xs
    by (metis list_update_id map_update)
  then show ?thesis using Go e assms by (auto simp: Let_def calls_made_def map_update split: if_splits)
qed (use assms in \<open>auto simp: calls_made_def Let_def split: if_splits list.splits\<close>)

lemma calls_inv_step:
  assumes "calls_inv g" "live_step le g e g' outs"
  shows "calls_inv g'"
  using assms(2)
proof cases
  case (calls i uuid body s op p m us)
  have "distinct (chans_of [Enqueue op p])" "set (chans_of [Enqueue op p]) \<subseteq> {sv_chans (lv_server g)..<sv_chans s}"
    "sv_chans (lv_server g) \<le> sv_chans s"
    using server_step_chans [OF calls(4)] by blast+
  then show ?thesis using assms(1) calls_made_step [OF calls(5)] unfolding calls_inv_def calls(2) by fastforce
next
  case (http he s)
  then show ?thesis using assms(1) server_step_chans [OF http(4)] by (auto simp: calls_inv_def)
next
  case (call_returns t r s)
  then show ?thesis using assms(1) server_step_chans [OF call_returns(5)] by (auto simp: calls_inv_def)
next
  case (answer_arrives i rq op p r s)
  then show ?thesis using assms(1) server_step_chans [OF answer_arrives(6)] by (auto simp: calls_inv_def)
next
  case (call_goes t m us now)
  then show ?thesis using assms(1) calls_made_step [OF call_goes(4)] by (simp add: calls_inv_def)
next
  case (task_takes c s ch req queue m us t1 t2 s' fs now)
  then show ?thesis using assms(1) calls_made_step [OF task_takes(9)] by (simp add: calls_inv_def)
next
  case (task_ends c s m us)
  then show ?thesis using assms(1) calls_made_step [OF task_ends(8)] by (simp add: calls_inv_def)
next
  case (task_unregisters m us c)
  then show ?thesis using assms(1) calls_made_step [OF task_unregisters(4)] by (simp add: calls_inv_def)
qed (use assms(1) in \<open>auto simp: calls_inv_def\<close>)

lemma caller_chans: "thread_caller t = BufCaller c \<or> thread_caller t = StrCaller c \<Longrightarrow> c \<in> set (chans_of [Enqueue (th_op t) (th_req t)])"
  by (cases "pr_respond_to (th_req t)") (auto simp: thread_caller_def)

lemma callers_distinct:
  "distinct (chans_of (map (\<lambda>t. Enqueue (th_op t) (th_req t)) ts)) \<Longrightarrow> distinct (map thread_caller ts)"
proof (induction ts)
  case (Cons t ts)
  have split: "chans_of (map (\<lambda>t. Enqueue (th_op t) (th_req t)) (t # ts)) =
      chans_of [Enqueue (th_op t) (th_req t)] @ chans_of (map (\<lambda>t. Enqueue (th_op t) (th_req t)) ts)"
    by (simp add: chans_of_def)
  have sub: "set (chans_of [Enqueue (th_op u) (th_req u)]) \<subseteq> set (chans_of (map (\<lambda>t. Enqueue (th_op t) (th_req t)) ts))"
    if "u \<in> set ts" for u using that by (auto simp: chans_of_def)
  have "thread_caller u \<noteq> thread_caller t" if u: "u \<in> set ts" for u
  proof
    assume same: "thread_caller u = thread_caller t"
    obtain c where "thread_caller t = BufCaller c \<or> thread_caller t = StrCaller c" by (cases "thread_caller t") auto
    then have "c \<in> set (chans_of [Enqueue (th_op t) (th_req t)])" "c \<in> set (chans_of [Enqueue (th_op u) (th_req u)])"
      using caller_chans same by metis+
    then show False using Cons.prems sub [OF u] unfolding split by auto
  qed
  then have "thread_caller t \<notin> set (map thread_caller ts)" by force
  moreover have "distinct (map thread_caller ts)" using Cons unfolding split by simp
  ultimately show ?case by simp
qed simp

lemma count_chosen:
  "distinct (map f ts) \<Longrightarrow> t \<in> set ts \<Longrightarrow> count (mset (map f (filter P ts))) (f t) = of_bool (P t)"
proof (induction ts)
  case (Cons u ts)
  have none: "count (mset (map f (filter P ts))) (f u) = 0" using Cons.prems(1) by (auto simp: count_eq_zero_iff)
  show ?case
  proof (cases "t = u")
    case True
    then show ?thesis using none by simp
  next
    case False
    then have "t \<in> set ts" "f u \<noteq> f t" using Cons.prems by auto
    then show ?thesis using Cons by auto
  qed
qed simp

lemma request_callers_image: "request_callers xs = image_mset (\<lambda>r. sink_caller (pr_respond_to r)) (mset xs)"
  by (simp add: request_callers_def)

definition accepted_callers :: "manager \<Rightarrow> caller multiset" where
  "accepted_callers m = mset (map thread_caller (filter accepted (mg_threads m)))"

lemma accepted_callers_split:
  assumes "accounted m"
  shows "accepted_callers m = queued m + received m + request_callers (concat (map ch_lost (mg_channels m)))"
proof -
  have "accepted_callers m = image_mset (\<lambda>r. sink_caller (pr_respond_to r)) (in_channels m)"
    unfolding assms [unfolded accounted_def, symmetric]
    by (simp add: accepted_callers_def thread_caller_def [abs_def] multiset.map_comp comp_def)
  moreover have "image_mset (\<lambda>r. sink_caller (pr_respond_to r)) (sum_list (map (\<lambda>ch. mset (ch_all ch)) chs)) =
      sum_list (map (\<lambda>ch. request_callers (ch_queue ch)) chs) + sum_list (map (\<lambda>ch. request_callers (ch_received ch)) chs) +
      request_callers (concat (map ch_lost chs))" for chs
    by (induction chs) (simp_all add: ch_all_def request_callers_image add_ac)
  ultimately show ?thesis by (simp add: in_channels_def queued_def received_def)
qed

lemma live_books:
  assumes "live_inv inflight cap g"
  shows "accepted_callers (lv_manager g) = in_flight g + lost_callers g + resolved (lv_log g)"
  using assms accepted_callers_split [of "lv_manager g"]
  by (simp add: live_inv_def in_flight_def lost_callers_def lost_requests_def add_ac)

lemma live_places:
  assumes "live_inv inflight cap g" "calls_inv g" "t \<in> set (mg_threads (lv_manager g))"
  shows "count (resolved (lv_log g)) (thread_caller t) + count (in_flight g) (thread_caller t) +
    count (lost_callers g) (thread_caller t) = of_bool (accepted t)"
proof -
  have "distinct (map thread_caller (mg_threads (lv_manager g)))"
    using assms(2) callers_distinct by (simp add: calls_inv_def calls_made_def)
  then have "count (accepted_callers (lv_manager g)) (thread_caller t) = of_bool (accepted t)"
    unfolding accepted_callers_def by (rule count_chosen [OF _ assms(3)])
  then show ?thesis using live_books [OF assms(1)] by simp
qed

subsection \<open>Whose requests a job carries\<close>

definition from_thread :: "manager \<Rightarrow> batch_key \<Rightarrow> pending_request \<Rightarrow> bool" where
  "from_thread m k req \<longleftrightarrow>
     (\<exists>t \<in> set (mg_threads m). accepted t \<and> th_req t = req \<and> batch_key_of (th_op t) req = k)"

definition keyed_chans :: "manager \<Rightarrow> bool" where
  "keyed_chans m \<longleftrightarrow> (\<forall>ch \<in> set (mg_channels m). \<forall>req \<in> set (ch_all ch). from_thread m (ch_key ch) req)"

lemma set_update_cases: "y \<in> set (xs[i := x]) \<Longrightarrow> (i < length xs \<and> y = x) \<or> y \<in> set xs"
  by (cases "i < length xs") (auto dest: set_update_subset_insert [THEN subsetD] simp: list_update_beyond)

lemma enq_step_chans:
  assumes "enq_step m op req pc = (m', pc')" "pc_ok m \<lparr>th_op = op, th_req = req, th_pc = pc\<rparr>"
    and "ch \<in> set (mg_channels m')" "r \<in> set (ch_all ch)"
  shows "(\<exists>ch0 \<in> set (mg_channels m). ch_key ch0 = ch_key ch \<and> r \<in> set (ch_all ch0)) \<or>
    (r = req \<and> ch_key ch = batch_key_of op req \<and> pc' = EnqDone (Inr ()))"
proof (cases pc)
  case (EnqSend n c)
  have c: "c < length (mg_channels m)" "ch_key (mg_channels m ! c) = batch_key_of op req"
    using assms(2) EnqSend by (auto simp: pc_ok_def)
  show ?thesis using assms(1,3,4) EnqSend c nth_mem [OF c(1)]
    by (fastforce simp: Let_def ch_all_def split: if_splits dest!: set_update_cases)
qed (use assms in \<open>auto simp: Let_def ch_all_def split: if_splits option.splits\<close>)

lemma from_thread_step:
  assumes "mgr_step m e = Some (m', us)" "from_thread m k req"
  shows "from_thread m' k req"
proof (cases e)
  case (Go i)
  let ?t = "mg_threads m ! i"
  obtain m1 pc where s: "enq_step m (th_op ?t) (th_req ?t) (th_pc ?t) = (m1, pc)" by (metis surj_pair)
  have m': "i < length (mg_threads m)" "mg_threads m' = (mg_threads m)[i := ?t\<lparr>th_pc := pc\<rparr>]"
    using Go assms(1) s by (auto simp: Let_def split: if_splits)
  obtain t where t: "t \<in> set (mg_threads m)" "accepted t" "th_req t = req" "batch_key_of (th_op t) req = k"
    using assms(2) by (auto simp: from_thread_def)
  show ?thesis
  proof (cases "t = ?t")
    case True
    then have "pc = EnqDone (Inr ())" using s t(2) by (auto simp: accepted_def)
    then show ?thesis using m' t True
      by (auto simp: from_thread_def accepted_def intro!: bexI [of _ "?t\<lparr>th_pc := pc\<rparr>"] set_update_memI)
  next
    case False
    then have "t \<in> set (mg_threads m')" using t(1) m' by (metis in_set_conv_nth length_list_update nth_list_update_neq)
    then show ?thesis using t by (auto simp: from_thread_def)
  qed
qed (use assms in \<open>auto simp: from_thread_def Let_def split: if_splits list.splits\<close>)

lemma keyed_chans_step:
  assumes "mgr_step m e = Some (m', us)" "mgr_inv m" "keyed_chans m"
  shows "keyed_chans m'"
proof -
  have old: "from_thread m' (ch_key ch) r"
    if "ch0 \<in> set (mg_channels m)" "ch_key ch0 = ch_key ch" "r \<in> set (ch_all ch0)" for ch ch0 r
    using from_thread_step [OF assms(1)] assms(3) that by (metis keyed_chans_def)
  have upd: "keyed_chans m'" if "c < length (mg_channels m)" "mg_channels m' = (mg_channels m)[c := ch']"
    "ch_key ch' = ch_key (mg_channels m ! c)" "set (ch_all ch') \<subseteq> set (ch_all (mg_channels m ! c))" for c ch'
    unfolding keyed_chans_def that(2) using old [OF nth_mem [OF that(1)]] that(3,4) old
    by (metis set_update_cases subsetD)
  show ?thesis
  proof (cases e)
    case (Call op p)
    then have "mg_channels m' = mg_channels m" using assms(1) by auto
    then show ?thesis unfolding keyed_chans_def using old by metis
  next
    case (Go i)
    let ?t = "mg_threads m ! i"
    obtain m1 pc where s: "enq_step m (th_op ?t) (th_req ?t) (th_pc ?t) = (m1, pc)" by (metis surj_pair)
    have i: "i < length (mg_threads m)" and m': "m' = m1\<lparr>mg_threads := (mg_threads m)[i := ?t\<lparr>th_pc := pc\<rparr>]\<rparr>"
      using Go assms(1) s by (auto simp: Let_def split: if_splits)
    have p: "pc_ok m \<lparr>th_op = th_op ?t, th_req = th_req ?t, th_pc = th_pc ?t\<rparr>"
    proof -
      have "\<lparr>th_op = th_op ?t, th_req = th_req ?t, th_pc = th_pc ?t\<rparr> = ?t" by simp
      then show ?thesis using assms(2) i by (simp only: mgr_inv_def) simp
    qed
    have new: "pc = EnqDone (Inr ()) \<Longrightarrow> from_thread m' (batch_key_of (th_op ?t) (th_req ?t)) (th_req ?t)"
      using i by (auto simp: m' from_thread_def accepted_def intro!: bexI [of _ "?t\<lparr>th_pc := pc\<rparr>"] set_update_memI)
    have "mg_channels m' = mg_channels m1" by (simp add: m')
    then show ?thesis unfolding keyed_chans_def using enq_step_chans [OF s p] old new by metis
  next
    case (TaskRecv c)
    then obtain r queue where "c < length (mg_channels m)" "ch_queue (mg_channels m ! c) = r # queue"
      "m' = m\<lparr>mg_channels := (mg_channels m)[c := (mg_channels m ! c)\<lparr>ch_queue := queue,
         ch_received := ch_received (mg_channels m ! c) @ [r]\<rparr>]\<rparr>"
      using assms(1) by (auto simp: Let_def split: if_splits list.splits)
    then show ?thesis
      by (intro upd [of c "(mg_channels m ! c)\<lparr>ch_queue := queue, ch_received := ch_received (mg_channels m ! c) @ [r]\<rparr>"])
        (auto simp: ch_all_def)
  next
    case (TaskExit c)
    then have "c < length (mg_channels m)"
      "m' = m\<lparr>mg_channels := (mg_channels m)[c := (mg_channels m ! c)\<lparr>ch_open := False, ch_queue := [],
         ch_lost := ch_lost (mg_channels m ! c) @ ch_queue (mg_channels m ! c)\<rparr>]\<rparr>"
      using assms(1) by (auto simp: Let_def split: if_splits)
    then show ?thesis
      by (intro upd [of c "(mg_channels m ! c)\<lparr>ch_open := False, ch_queue := [],
         ch_lost := ch_lost (mg_channels m ! c) @ ch_queue (mg_channels m ! c)\<rparr>"]) (auto simp: ch_all_def)
  next
    case (TaskUnregister c)
    then have "c < length (mg_channels m)"
      "mg_channels m' = (mg_channels m)[c := (mg_channels m ! c)\<lparr>ch_unregistered := True\<rparr>]"
      using assms(1) by (auto simp: Let_def split: if_splits)
    then show ?thesis by (rule upd) (auto simp: ch_all_def)
  qed
qed

lemma nth_update: "c < length xs \<Longrightarrow> xs[i := y] ! c = (if i = c then y else xs ! c)"
  by (simp add: nth_list_update)

text \<open>Channels keep their key and what they recorded as taken.\<close>

lemma mgr_step_keeps:
  assumes "mgr_step m e = Some (m', us)" "c < length (mg_channels m)"
  shows "ch_key (mg_channels m' ! c) = ch_key (mg_channels m ! c) \<and>
    ch_received (mg_channels m' ! c) = ch_received (mg_channels m ! c) @ (if e = TaskRecv c then taken m e else [])"
proof (cases e)
  case (Go i)
  let ?t = "mg_threads m ! i"
  obtain m1 pc where s: "enq_step m (th_op ?t) (th_req ?t) (th_pc ?t) = (m1, pc)" by (metis surj_pair)
  have "ch_key (mg_channels m1 ! c) = ch_key (mg_channels m ! c) \<and> ch_received (mg_channels m1 ! c) = ch_received (mg_channels m ! c)"
    using s assms(2) by (cases "th_pc ?t") (auto simp: Let_def nth_append nth_update split: if_splits option.splits)
  then show ?thesis using Go assms(1) s by (auto simp: Let_def split: if_splits)
qed (use assms in \<open>auto simp: Let_def taken_def nth_list_update split: if_splits list.splits\<close>)

definition live_jobs :: "live \<Rightarrow> invocation_job list" where
  "live_jobs g = held_jobs (lv_queue g) @ concat (map (\<lambda>t. jobs_of (tk_outbox t)) (lv_tasks g))"

definition job_keyed :: "manager \<Rightarrow> invocation_job \<Rightarrow> bool" where
  "job_keyed m job \<longleftrightarrow> (\<forall>x \<in># job_callers job. \<exists>req. sink_caller (pr_respond_to req) = x \<and> from_thread m (ji_key (job_info_of job)) req)"

definition held_received :: "live \<Rightarrow> bool" where
  "held_received g \<longleftrightarrow> (\<forall>c < length (lv_tasks g).
     set (task_held (tk_state (lv_tasks g ! c))) \<subseteq> set (ch_received (mg_channels (lv_manager g) ! c)))"

definition key_inv :: "live \<Rightarrow> bool" where
  "key_inv g \<longleftrightarrow> keyed_chans (lv_manager g) \<and> held_received g \<and> (\<forall>job \<in> set (live_jobs g). job_keyed (lv_manager g) job)"

lemma queue_step_jobs:
  "queue_step d rep q e = Some (q', effs) \<Longrightarrow>
     set (held_jobs q') \<subseteq> set (held_jobs q) \<union> (case e of TryEnqueue job \<Rightarrow> {job} | _ \<Rightarrow> {})"
  by (cases e) (auto simp: held_jobs_def enqueue_invocation_job_def split: option.splits list.splits if_splits
      dest: in_set_takeD in_set_dropD)

lemma job_keyed_step: "mgr_step m e = Some (m', us) \<Longrightarrow> job_keyed m job \<Longrightarrow> job_keyed m' job"
  unfolding job_keyed_def using from_thread_step by blast

lemma flush_job_callers:
  assumes "default_services ext env le" "job \<in> set (jobs_of (flush_work le c ch now f))" "x \<in># job_callers job"
  shows "ji_key (job_info_of job) = ch_key ch \<and> (\<exists>req \<in> set (fc_batch f). sink_caller (pr_respond_to req) = x)"
proof -
  have "flush_callers (flush_work le c ch now f) = request_callers (fc_batch f)"
    using flush_work_callers [OF assms(1), of c ch now "[f]"] by simp
  moreover have "x \<in># sum_list (map job_callers jobs)" if "job \<in> set jobs" for jobs
    using that assms(3) by (induction jobs) auto
  ultimately have "x \<in># request_callers (fc_batch f)" using assms(2) by (metis flush_callers_def union_iff)
  then show ?thesis using assms(2) flush_job_facts unfolding flush_work_def by (fastforce simp: request_callers_image)
qed

lemma work_job_keyed:
  assumes ds: "default_services ext env le" and keyed: "keyed_chans m" and ch: "ch' \<in> set (mg_channels m)" "ch_key ch' = ch_key ch"
    and taken: "set (flushed fs) \<subseteq> set (ch_received ch')"
    and job: "job \<in> set (jobs_of (concat (map (flush_work le c ch now) fs)))"
  shows "job_keyed m job"
proof -
  have "\<exists>f \<in> set fs. job \<in> set (jobs_of (flush_work le c ch now f))" using job by (induction fs) auto
  then obtain f where f: "f \<in> set fs" "job \<in> set (jobs_of (flush_work le c ch now f))" by blast
  have "\<exists>req. sink_caller (pr_respond_to req) = x \<and> from_thread m (ji_key (job_info_of job)) req" if x: "x \<in># job_callers job" for x
  proof -
    obtain req where r: "req \<in> set (fc_batch f)" "sink_caller (pr_respond_to req) = x" "ji_key (job_info_of job) = ch_key ch"
      using flush_job_callers [OF ds f(2) x] by blast
    then have "req \<in> set (ch_all ch')" using f(1) taken by (auto simp: flushed_def ch_all_def)
    then show ?thesis using keyed ch r by (metis keyed_chans_def)
  qed
  then show ?thesis by (simp add: job_keyed_def)
qed

lemma live_jobs_task:
  "job \<in> set (live_jobs (set_task c t g)) \<Longrightarrow> job \<in> set (held_jobs (lv_queue g)) \<or> job \<in> set (jobs_of (tk_outbox t)) \<or> job \<in> set (live_jobs g)"
  by (auto simp: live_jobs_def dest!: set_update_cases)

lemma held_received_manager:
  assumes "held_received g" "mgr_step (lv_manager g) e = Some (m, us)" "length (lv_tasks g) \<le> length (mg_channels (lv_manager g))"
  shows "held_received (g\<lparr>lv_manager := m\<rparr>)"
  unfolding held_received_def
proof (intro allI impI)
  fix c assume c: "c < length (lv_tasks (g\<lparr>lv_manager := m\<rparr>))"
  then have "c < length (mg_channels (lv_manager g))" using assms(3) by simp
  with mgr_step_keeps [OF assms(2)] have "set (ch_received (mg_channels (lv_manager g) ! c)) \<subseteq> set (ch_received (mg_channels m ! c))"
    by simp
  then show "set (task_held (tk_state (lv_tasks (g\<lparr>lv_manager := m\<rparr>) ! c))) \<subseteq>
      set (ch_received (mg_channels (lv_manager (g\<lparr>lv_manager := m\<rparr>)) ! c))"
    using assms(1) c by (auto simp: held_received_def)
qed

lemma held_received_task:
  "held_received g \<Longrightarrow> set (task_held (tk_state t)) \<subseteq> set (ch_received (mg_channels (lv_manager g) ! c)) \<Longrightarrow> held_received (set_task c t g)"
  by (auto simp: held_received_def nth_update)

lemma key_inv_manager:
  assumes "key_inv g" "mgr_inv (lv_manager g)" "mgr_step (lv_manager g) e = Some (m, us)"
    "length (lv_tasks g) \<le> length (mg_channels (lv_manager g))"
  shows "key_inv (g\<lparr>lv_manager := m\<rparr>)"
  using assms held_received_manager [of g] keyed_chans_step [OF assms(3)] job_keyed_step [OF assms(3)]
  by (auto simp: key_inv_def live_jobs_def)

text \<open>A task that handled an event: what it flushes and what it keeps was received from its channel.\<close>

lemma key_inv_task:
  assumes ds: "default_services ext env le" and inv: "key_inv g" "c < length (mg_channels (lv_manager g))"
    and key: "ch_key (mg_channels (lv_manager g) ! c) = ch_key ch"
    and step: "batcher_step rt cfg s e = Some (s', fs)"
    and recv: "set (task_held s @ arrived e) \<subseteq> set (ch_received (mg_channels (lv_manager g) ! c))"
  shows "key_inv (set_task c \<lparr>tk_state = s', tk_outbox = concat (map (flush_work le c ch now) fs)\<rparr> g)"
proof -
  let ?ch = "mg_channels (lv_manager g) ! c"
  have all: "set (flushed fs) \<subseteq> set (ch_received ?ch)" "set (task_held s') \<subseteq> set (ch_received ?ch)"
    using recv unfolding task.step_order [OF step, symmetric] by auto
  have k: "keyed_chans (lv_manager g)" "held_received g" using inv(1) by (simp_all add: key_inv_def)
  have "job_keyed (lv_manager g) job" if "job \<in> set (jobs_of (concat (map (flush_work le c ch now) fs)))" for job
    by (rule work_job_keyed [OF ds k(1) nth_mem [OF inv(2)] key all(1) that])
  then show ?thesis using inv(1) k held_received_task [OF k(2), of _ c] all(2)
    by (auto simp: key_inv_def dest!: live_jobs_task) (auto simp: live_jobs_def)
qed

lemma key_inv_jobs:
  assumes "key_inv g" "lv_manager g' = lv_manager g" "set (live_jobs g') \<subseteq> set (live_jobs g)" "held_received g'"
  shows "key_inv g'"
  using assms by (auto simp: key_inv_def)

lemma key_inv_step:
  assumes ds: "default_services ext env le" and live: "live_inv inflight cap g" and inv: "key_inv g"
    and step: "live_step le g e g' outs"
  shows "key_inv g'"
proof -
  have mi: "mgr_inv (lv_manager g)" and len: "length (lv_tasks g) = length (mg_channels (lv_manager g))"
    using live by (simp_all add: live_inv_def)
  have held: "set (task_held (tk_state (lv_tasks g ! c))) \<subseteq> set (ch_received (mg_channels (lv_manager g) ! c))"
    if "c < length (lv_tasks g)" for c using inv that by (simp add: key_inv_def held_received_def)
  have sent: "set (live_jobs (set_task c t (g\<lparr>lv_queue := q, lv_log := es\<rparr>))) \<subseteq> set (live_jobs g)"
    if "c < length (lv_tasks g)" "set (jobs_of (tk_outbox t)) \<subseteq> set (jobs_of (tk_outbox (lv_tasks g ! c)))"
      "set (held_jobs q) \<subseteq> set (live_jobs g)" for c t q es
    using that nth_mem [OF that(1)] by (auto simp: live_jobs_def dest!: set_update_cases)
  have keep: "held_received (set_task c t (g\<lparr>lv_queue := q, lv_log := es\<rparr>))" if "tk_state t = tk_state (lv_tasks g ! c)" for c t q es
    using inv that by (auto simp: key_inv_def held_received_def nth_update)
  have same: "key_inv (g\<lparr>lv_server := s\<rparr>)" for s
    using inv by (simp add: key_inv_def held_received_def live_jobs_def)
  from step show ?thesis
  proof cases
    case (calls i uuid body s op p m us)
    have "key_inv (g\<lparr>lv_manager := m\<rparr>)" by (rule key_inv_manager [OF inv mi calls(5)]) (simp add: len)
    then show ?thesis by (simp add: calls(2) key_inv_def held_received_def live_jobs_def)
  next
    case (call_goes t m us now)
    note k = key_inv_manager [OF inv mi call_goes(4) eq_imp_le [OF len]]
    have sp: "length (lv_tasks g) \<le> length (mg_channels m)" using mgr_step_received [OF call_goes(4)] len by simp
    have new: "spawn_tasks le now m (lv_tasks g) ! c = lv_tasks g ! c" if "c < length (lv_tasks g)" for c
      using that by (simp add: spawn_tasks_def nth_append)
    have none: "task_held (tk_state (spawn_tasks le now m (lv_tasks g) ! c)) = []"
      if "length (lv_tasks g) \<le> c" "c < length (spawn_tasks le now m (lv_tasks g))" for c
      using that by (simp add: spawn_tasks_def nth_append)
    have "held_received g'" unfolding held_received_def
    proof (intro allI impI)
      fix c assume c: "c < length (lv_tasks g')"
      show "set (task_held (tk_state (lv_tasks g' ! c))) \<subseteq> set (ch_received (mg_channels (lv_manager g') ! c))"
        using k c new [of c] none [of c] by (cases "c < length (lv_tasks g)") (auto simp: key_inv_def held_received_def call_goes(2))
    qed
    moreover have "set (live_jobs g') \<subseteq> set (live_jobs (g\<lparr>lv_manager := m\<rparr>))"
      by (auto simp: live_jobs_def call_goes(2) dest!: spawn_tasks_facts(3) [OF sp])
    ultimately show ?thesis by (intro key_inv_jobs [OF k]) (simp_all add: call_goes(2))
  next
    case (task_takes c s ch req queue m us t1 t2 s' fs now)
    have c: "c < length (mg_channels (lv_manager g))" using task_takes(4) len by simp
    note keeps = mgr_step_keeps [OF task_takes(9) c]
    have "length (mg_channels m) = length (mg_channels (lv_manager g))" using mgr_step_length [OF task_takes(9)] by simp
    moreover have "set (task_held s @ arrived (Recv req t1 t2)) \<subseteq> set (ch_received (mg_channels m ! c))"
      using keeps held [OF task_takes(4)] task_takes(5,7,8) by (auto simp: taken_def)
    ultimately show ?thesis unfolding task_takes(2)
      using key_inv_manager [OF inv mi task_takes(9) eq_imp_le [OF len]] keeps task_takes(7) c
      by (intro key_inv_task [OF ds _ _ _ task_takes(10)]) simp_all
  next
    case (task_hears c s be ch s' fs now)
    have c: "c < length (mg_channels (lv_manager g))" using task_hears(4) len by simp
    have "arrived be = []" using task_hears(7) by (cases be) auto
    then have "set (task_held s @ arrived be) \<subseteq> set (ch_received (mg_channels (lv_manager g) ! c))"
      using held [OF task_hears(4)] task_hears(5) by simp
    then show ?thesis unfolding task_hears(2)
      using task_hears(8) by (intro key_inv_task [OF ds inv c _ task_hears(9)]) simp_all
  next
    case (task_answers c s x rest)
    have o: "tk_outbox (lv_tasks g ! c) = map Eff [x] @ rest" using task_answers(6) by simp
    have "set (live_jobs (set_task c \<lparr>tk_state = s, tk_outbox = rest\<rparr> (g\<lparr>lv_queue := lv_queue g, lv_log := lv_log g @ [x]\<rparr>))) \<subseteq> set (live_jobs g)"
      by (rule sent [OF task_answers(4)]) (simp_all only: o out_simps out_map_Eff, simp_all add: live_jobs_def)
    then show ?thesis using keep [where t = "\<lparr>tk_state = s, tk_outbox = rest\<rparr>" and c = c and q = "lv_queue g" and es = "lv_log g @ [x]"] task_answers(5)
      by (intro key_inv_jobs [OF inv]) (simp_all add: task_answers(2))
  next
    case (task_offers c s job rest q' effs)
    have o: "tk_outbox (lv_tasks g ! c) = [Enqueued job] @ rest" using task_offers(6) by simp
    have j: "jobs_of (tk_outbox (lv_tasks g ! c)) = job # jobs_of rest" by (simp only: o out_simps) simp
    then have "job \<in> set (live_jobs g)" using nth_mem [OF task_offers(4)] by (force simp: live_jobs_def)
    then have "set (held_jobs q') \<subseteq> set (live_jobs g)" using queue_step_jobs [OF task_offers(7)] by (auto simp: live_jobs_def)
    then have "set (live_jobs (set_task c \<lparr>tk_state = s, tk_outbox = rest\<rparr> (g\<lparr>lv_queue := q', lv_log := lv_log g @ effs\<rparr>))) \<subseteq> set (live_jobs g)"
      by (intro sent [OF task_offers(4)]) (auto simp: j)
    then show ?thesis using keep [where t = "\<lparr>tk_state = s, tk_outbox = rest\<rparr>" and c = c and q = q' and es = "lv_log g @ effs"] task_offers(5)
      by (intro key_inv_jobs [OF inv]) (simp_all add: task_offers(2))
  next
    case (task_ends c s m us)
    then show ?thesis using key_inv_manager [OF inv mi task_ends(8)] len by simp
  next
    case (task_unregisters m us c)
    then show ?thesis using key_inv_manager [OF inv mi task_unregisters(4)] len by simp
  next
    case (queue_moves qe q' effs)
    have "set (held_jobs q') \<subseteq> set (held_jobs (lv_queue g))" using queue_step_jobs [OF queue_moves(5)] queue_moves(4) by (cases qe) auto
    then show ?thesis using inv
      by (intro key_inv_jobs [OF inv]) (auto simp: queue_moves(2) live_jobs_def key_inv_def held_received_def)
  qed (simp_all add: same)
qed

subsection \<open>Handlers and their calls\<close>

text \<open>How the phase of handler \<open>j\<close> can change.\<close>

fun phase_moves :: "http_event \<Rightarrow> http_out list \<Rightarrow> nat \<Rightarrow> http_phase \<Rightarrow> http_phase \<Rightarrow> bool" where
  "phase_moves e outs j p (Admitted op ps) \<longleftrightarrow> False"
| "phase_moves e outs j p (Calling op q) \<longleftrightarrow>
     (\<exists>op' ps. p = Admitted op' ps) \<and> outs = [Enqueue op q] \<and> (\<exists>u b. e = BodyRead j u b)"
| "phase_moves e outs j p (Waiting op q) \<longleftrightarrow> p = Calling op q \<and> e = EnqueueReturned j None"
| "phase_moves e outs j p (Streaming op status) \<longleftrightarrow> True"
| "phase_moves e outs j p Answered \<longleftrightarrow> True"
| "phase_moves e outs j p Cancelled \<longleftrightarrow> True"

fun with_request :: "http_phase \<Rightarrow> bool" where
  "with_request (Calling op q) = True"
| "with_request (Waiting op q) = True"
| "with_request p = False"

definition moved :: "http_event \<Rightarrow> http_out list \<Rightarrow> server \<Rightarrow> server \<Rightarrow> bool" where
  "moved e outs s s' \<longleftrightarrow> length (sv_handlers s) \<le> length (sv_handlers s') \<and>
     (\<forall>j < length (sv_handlers s). snd (sv_handlers s' ! j) = snd (sv_handlers s ! j) \<or>
        phase_moves e outs j (snd (sv_handlers s ! j)) (snd (sv_handlers s' ! j))) \<and>
     (\<forall>j < length (sv_handlers s'). length (sv_handlers s) \<le> j \<longrightarrow> \<not> with_request (snd (sv_handlers s' ! j)))"

lemma moved_one:
  assumes "sv_handlers s' = sv_handlers (phase i p s)" "i < length (sv_handlers s) \<Longrightarrow> phase_moves e outs i (snd (sv_handlers s ! i)) p"
  shows "moved e outs s s'"
proof -
  have "phase_moves e outs j (snd (sv_handlers s ! j)) (snd (sv_handlers s' ! j)) \<or> snd (sv_handlers s' ! j) = snd (sv_handlers s ! j)"
    if "j < length (sv_handlers s)" for j
    using assms that by (cases "i = j") (simp_all add: phase_def)
  then show ?thesis using assms(1) by (auto simp: moved_def phase_def)
qed

lemma moved_on:
  "sv_handlers s' = sv_handlers (phase i Answered s) \<Longrightarrow> moved e outs s s'"
  "sv_handlers s' = sv_handlers (phase i Cancelled s) \<Longrightarrow> moved e outs s s'"
  "sv_handlers s' = sv_handlers (phase i (Streaming op status) s) \<Longrightarrow> moved e outs s s'"
  by (erule moved_one, simp)+

lemma handlers_release [simp]: "sv_handlers (phase i p (release s)) = sv_handlers (phase i p s)"
  by (simp add: phase_def)

lemma handlers_drop [simp]: "sv_handlers (drop_guard_state ap s) = sv_handlers s"
  by (simp add: drop_guard_state_def)

lemma handlers_answer:
  "sv_handlers (fst (answer ap i m route res s)) = sv_handlers (phase i Answered s)"
  "sv_handlers (fst (answer_admitted ap i rq op res s)) = sv_handlers (phase i Answered s)"
  by (simp_all add: answer_admitted_def answer_def case_prod_beta phase_def)

lemma server_step_moved:
  assumes "server_step ap s e = Some (s', outs)"
  shows "moved e outs s s'"
proof (cases e)
  case (Arrive rq)
  let ?s = "(fst (start_http_server_request ap s))\<lparr>sv_handlers := sv_handlers s @ [(rq, Cancelled)]\<rparr>"
  have "\<exists>p. sv_handlers s' = sv_handlers s @ [(rq, p)] \<and> \<not> with_request p"
    using assms Arrive handlers_answer [of ap "length (sv_handlers s)"]
    by (auto simp: arrive_def Let_def case_prod_beta map_prod_def phase_def prod_eq_iff split: route_match.splits if_splits)
  then show ?thesis by (auto simp: moved_def nth_append)
next
  case (BodyRead i u b)
  then obtain rq op ps where i: "i < length (sv_handlers s)" "sv_handlers s ! i = (rq, Admitted op ps)"
      "body_read ap i rq op ps u b s = (s', outs)"
    using assms by (auto split: if_splits prod.splits http_phase.splits)
  consider p where "s' = phase i (Calling op p) (s\<lparr>sv_chans := sv_chans s + 2\<rparr>)" "outs = [Enqueue op p]"
    | res where "answer_admitted ap i rq op res s = (s', outs)"
    using i(3) by (auto simp: body_read_def Let_def split: sum.splits if_splits)
  then show ?thesis
  proof cases
    case 1
    have "sv_handlers s' = sv_handlers (phase i (Calling op p) s)" by (simp add: 1 phase_def)
    then show ?thesis using i(2) 1 BodyRead by (intro moved_one) auto
  next
    case 2
    then show ?thesis using handlers_answer(2) [of ap i rq op res s] moved_on(1) by simp
  qed
next
  case (EnqueueReturned i r)
  then obtain rq op q where i: "i < length (sv_handlers s)" "sv_handlers s ! i = (rq, Calling op q)"
      "enqueue_returned ap i rq op q r s = (s', outs)"
    using assms by (auto split: if_splits prod.splits http_phase.splits)
  consider "s' = phase i (Waiting op q) s" "r = None" | res where "answer_admitted ap i rq op res s = (s', outs)"
    using i(3) by (auto simp: enqueue_returned_def split: option.splits enqueue_error.splits)
  then show ?thesis
  proof cases
    case 1
    then show ?thesis using i(2) EnqueueReturned by (intro moved_one) auto
  next
    case 2
    then show ?thesis using handlers_answer(2) [of ap i rq op res s] moved_on(1) by simp
  qed
next
  case (Answer i r)
  then obtain rq op q where r: "answered ap i rq op q r s = Some (s', outs)"
    using assms by (auto split: if_splits prod.splits http_phase.splits)
  from answered_cases [OF r] show ?thesis
    using handlers_answer(2) [of ap i rq op _ s] moved_on(1,3) by (metis fst_conv)
next
  case (BodyDropped i)
  then show ?thesis using assms
    by (auto simp: body_dropped_def prod_eq_iff intro: moved_on(1) split: if_splits prod.splits http_phase.splits)
next
  case (Cancel i)
  then show ?thesis using assms
    by (auto simp: prod_eq_iff intro: moved_on(2) split: if_splits http_phase.splits)
qed

text \<open>A call belongs to a handler that is past its body and, while it waits for the call, waits with this request.\<close>

definition call_linked :: "server \<Rightarrow> nat \<Rightarrow> pending_request \<Rightarrow> bool" where
  "call_linked s i req \<longleftrightarrow> i < length (sv_handlers s) \<and> (\<forall>op ps. snd (sv_handlers s ! i) \<noteq> Admitted op ps) \<and>
     (\<forall>op p. snd (sv_handlers s ! i) = Calling op p \<longrightarrow> req = p)"

definition was_accepted :: "manager \<Rightarrow> pending_request \<Rightarrow> bool" where
  "was_accepted m p \<longleftrightarrow> (\<exists>t \<in> set (mg_threads m). th_req t = p \<and> accepted t)"

definition link_inv :: "live \<Rightarrow> bool" where
  "link_inv g \<longleftrightarrow> length (lv_calls g) = length (mg_threads (lv_manager g)) \<and>
     (\<forall>t < length (lv_calls g). call_linked (lv_server g) (lv_calls g ! t) (th_req (mg_threads (lv_manager g) ! t))) \<and>
     (\<forall>i < length (sv_handlers (lv_server g)). \<forall>op p. snd (sv_handlers (lv_server g) ! i) = Waiting op p \<longrightarrow>
        was_accepted (lv_manager g) p)"

lemma moved_linked:
  assumes "moved e outs s s'" "call_linked s i req"
  shows "call_linked s' i req"
proof -
  have i: "i < length (sv_handlers s)" and c: "\<forall>op ps. snd (sv_handlers s ! i) \<noteq> Admitted op ps"
    "\<forall>op p. snd (sv_handlers s ! i) = Calling op p \<longrightarrow> req = p"
    using assms(2) by (simp_all add: call_linked_def)
  have "snd (sv_handlers s' ! i) = snd (sv_handlers s ! i) \<or> phase_moves e outs i (snd (sv_handlers s ! i)) (snd (sv_handlers s' ! i))"
    using assms(1) i by (simp add: moved_def)
  then have "snd (sv_handlers s' ! i) = snd (sv_handlers s ! i) \<or> (\<forall>op ps. snd (sv_handlers s' ! i) \<noteq> Admitted op ps) \<and>
      (\<forall>op p. snd (sv_handlers s' ! i) \<noteq> Calling op p)"
    using c(1) by (cases "snd (sv_handlers s' ! i)") auto
  moreover have "i < length (sv_handlers s')" using assms(1) i by (simp add: moved_def)
  ultimately show ?thesis using c unfolding call_linked_def by metis
qed

lemma moved_waiting:
  assumes "moved e outs s s'" "i < length (sv_handlers s')" "snd (sv_handlers s' ! i) = Waiting op p"
  shows "i < length (sv_handlers s) \<and> (snd (sv_handlers s ! i) = Waiting op p \<or>
    (snd (sv_handlers s ! i) = Calling op p \<and> e = EnqueueReturned i None))"
proof -
  have "i < length (sv_handlers s)" using assms by (auto simp: moved_def)
  moreover from this have "snd (sv_handlers s' ! i) = snd (sv_handlers s ! i) \<or>
      phase_moves e outs i (snd (sv_handlers s ! i)) (snd (sv_handlers s' ! i))"
    using assms(1) by (simp add: moved_def)
  ultimately show ?thesis using assms(3) by auto
qed

definition same_threads :: "manager \<Rightarrow> manager \<Rightarrow> bool" where
  "same_threads m m' \<longleftrightarrow> length (mg_threads m') = length (mg_threads m) \<and>
     (\<forall>i < length (mg_threads m). th_req (mg_threads m' ! i) = th_req (mg_threads m ! i) \<and>
        (accepted (mg_threads m ! i) \<longrightarrow> accepted (mg_threads m' ! i)))"

lemma mgr_step_threads:
  assumes "mgr_step m e = Some (m', us)" "\<And>op p. e \<noteq> Call op p"
  shows "same_threads m m'"
proof (cases e)
  case (Go i)
  let ?t = "mg_threads m ! i"
  obtain m1 pc where s: "enq_step m (th_op ?t) (th_req ?t) (th_pc ?t) = (m1, pc)" by (metis surj_pair)
  have "mg_threads m' = (mg_threads m)[i := ?t\<lparr>th_pc := pc\<rparr>]" using Go assms(1) s by (auto simp: Let_def split: if_splits)
  moreover have "accepted ?t \<Longrightarrow> pc = EnqDone (Inr ())" using s by (auto simp: accepted_def)
  ultimately show ?thesis by (auto simp: same_threads_def nth_update accepted_def)
qed (use assms in \<open>auto simp: same_threads_def Let_def split: if_splits list.splits\<close>)

lemma link_inv_threads:
  assumes "link_inv g" "same_threads (lv_manager g) m"
    and "lv_manager g' = m" "lv_server g' = lv_server g" "lv_calls g' = lv_calls g"
  shows "link_inv g'"
proof -
  have "was_accepted (lv_manager g) p \<Longrightarrow> was_accepted m p" for p
    using assms(2) unfolding same_threads_def was_accepted_def by (metis in_set_conv_nth)
  then show ?thesis using assms by (auto simp: link_inv_def same_threads_def)
qed

lemma link_inv_server:
  assumes "link_inv g" "moved e outs (lv_server g) s"
    and "\<And>i op p. e = EnqueueReturned i None \<Longrightarrow> snd (sv_handlers (lv_server g) ! i) = Calling op p \<Longrightarrow> was_accepted (lv_manager g) p"
  shows "link_inv (g\<lparr>lv_server := s\<rparr>)"
  unfolding link_inv_def
proof (intro conjI allI impI)
  fix i op p assume i: "i < length (sv_handlers (lv_server (g\<lparr>lv_server := s\<rparr>)))"
    "snd (sv_handlers (lv_server (g\<lparr>lv_server := s\<rparr>)) ! i) = Waiting op p"
  from moved_waiting [OF assms(2)] i show "was_accepted (lv_manager (g\<lparr>lv_server := s\<rparr>)) p"
    using assms(1,3) by (fastforce simp: link_inv_def)
qed (use assms(1) moved_linked [OF assms(2)] in \<open>simp_all add: link_inv_def\<close>)

lemma enqueue_result_None: "enqueue_result r = None \<longleftrightarrow> r = Inr ()"
  by (cases r) auto

lemma link_inv_call:
  assumes inv: "link_inv g" and body: "server_step ap (lv_server g) (BodyRead i uuid body) = Some (s, [Enqueue op p])"
    and call: "mgr_step (lv_manager g) (Call op p) = Some (m, us)"
  shows "link_inv (g\<lparr>lv_server := s, lv_manager := m, lv_calls := lv_calls g @ [i]\<rparr>)" (is "link_inv ?g")
  unfolding link_inv_def
proof (intro conjI allI impI)
  have mv: "moved (BodyRead i uuid body) [Enqueue op p] (lv_server g) s" by (rule server_step_moved [OF body])
  have th: "mg_threads m = mg_threads (lv_manager g) @ [\<lparr>th_op = op, th_req = p, th_pc = EnqEntry 0\<rparr>]"
    using call by auto
  obtain rq op' ps where i: "i < length (sv_handlers (lv_server g))" "sv_handlers (lv_server g) ! i = (rq, Admitted op' ps)"
    using body by (auto split: if_splits prod.splits http_phase.splits)
  have new: "snd (sv_handlers s ! i) = Calling op p"
    using body i by (auto simp: body_read_def answer_admitted_def answer_def case_prod_beta emit_request_def Let_def phase_def
        prod_eq_iff drop_active_guard_def split: sum.splits if_splits)
  have len: "length (lv_calls g) = length (mg_threads (lv_manager g))" using inv by (simp add: link_inv_def)
  then show "length (lv_calls ?g) = length (mg_threads (lv_manager ?g))" by (simp add: th)
  fix t assume t: "t < length (lv_calls ?g)"
  show "call_linked (lv_server ?g) (lv_calls ?g ! t) (th_req (mg_threads (lv_manager ?g) ! t))"
  proof (cases "t < length (lv_calls g)")
    case True
    then have "call_linked s (lv_calls g ! t) (th_req (mg_threads (lv_manager g) ! t))"
      using inv moved_linked [OF mv] by (simp add: link_inv_def)
    then show ?thesis using True len by (simp add: th nth_append)
  next
    case False
    then have "lv_calls ?g ! t = i" "th_req (mg_threads (lv_manager ?g) ! t) = p" using t len by (simp_all add: th nth_append)
    moreover have "i < length (sv_handlers s)" using mv i(1) by (simp add: moved_def)
    ultimately show ?thesis using new by (simp add: call_linked_def)
  qed
next
  fix j op1 q assume "j < length (sv_handlers (lv_server ?g))" "snd (sv_handlers (lv_server ?g) ! j) = Waiting op1 q"
  then have "was_accepted (lv_manager g) q"
    using moved_waiting [OF server_step_moved [OF body]] inv by (fastforce simp: link_inv_def)
  then show "was_accepted (lv_manager ?g) q" using call by (auto simp: was_accepted_def)
qed

lemma link_inv_step:
  assumes inv: "link_inv g" and step: "live_step le g e g' outs"
  shows "link_inv g'"
  using step
proof cases
  case (http he s)
  have "he \<noteq> EnqueueReturned i r" for i r using http(3) by auto
  then show ?thesis unfolding http(2) by (intro link_inv_server [OF inv server_step_moved [OF http(4)]]) auto
next
  case (calls i uuid body s op p m us)
  show ?thesis unfolding calls(2) by (rule link_inv_call [OF inv calls(4,5)])
next
  case (call_returns t r s)
  have acc: "was_accepted (lv_manager g) p"
    if "enqueue_result r = None" "snd (sv_handlers (lv_server g) ! (lv_calls g ! t)) = Calling op p" for op p
  proof -
    have "th_req (mg_threads (lv_manager g) ! t) = p" "t < length (mg_threads (lv_manager g))"
      using inv call_returns(3) that(2) by (auto simp: link_inv_def call_linked_def)
    moreover have "accepted (mg_threads (lv_manager g) ! t)"
      using that(1) call_returns(4) by (simp add: enqueue_result_None accepted_def)
    ultimately show ?thesis using nth_mem unfolding was_accepted_def by blast
  qed
  show ?thesis unfolding call_returns(2)
    using acc by (intro link_inv_server [OF inv server_step_moved [OF call_returns(5)]]) auto
next
  case (answer_arrives i rq op p r s)
  show ?thesis unfolding answer_arrives(2) by (intro link_inv_server [OF inv server_step_moved [OF answer_arrives(6)]]) auto
next
  case (call_goes t m us now)
  then show ?thesis using mgr_step_threads [OF call_goes(4)] by (intro link_inv_threads [OF inv]) auto
next
  case (task_takes c s ch req queue m us t1 t2 s' fs now)
  then show ?thesis using mgr_step_threads [OF task_takes(9)] by (intro link_inv_threads [OF inv]) auto
next
  case (task_ends c s m us)
  then show ?thesis using mgr_step_threads [OF task_ends(8)] by (intro link_inv_threads [OF inv]) auto
next
  case (task_unregisters m us c)
  then show ?thesis using mgr_step_threads [OF task_unregisters(4)] by (intro link_inv_threads [OF inv]) auto
qed (use inv in \<open>simp_all add: link_inv_def\<close>)

subsection \<open>The gateway that \<open>build_router\<close> starts\<close>

text \<open>The runtime \<open>BatcherManager::new\<close> gives its tasks: the v1 event, the default dispatcher, reporter and policies.\<close>

definition new_runtime :: "ext_lib \<Rightarrow> stream_env \<Rightarrow> (f64 \<Rightarrow> f64) \<Rightarrow> gateway_config \<Rightarrow> batcher_runtime" where
  "new_runtime ext senv fexp cfg =
     \<lparr>rt_idle_ttl = from_millis (gc_idle_ttl_ms cfg), rt_max_invoke_payload_bytes = gc_max_invoke_payload_bytes cfg,
      rt_duration_feedback_tx = None, rt_batch_event_builder = v1_build_payload ext,
      rt_probe_feedback_reporter = default_reporter, rt_response_dispatcher = default_dispatcher ext senv,
      rt_dynamic_wait_policy = dynamic_wait_policy_default fexp,
      rt_duration_wait_policy = duration_wait_policy_default\<rparr>"

definition gateway_env :: "ext_lib \<Rightarrow> stream_env \<Rightarrow> (f64 \<Rightarrow> f64) \<Rightarrow> (batch_key \<Rightarrow> u64) \<Rightarrow> gateway_config \<Rightarrow> gateway \<Rightarrow> live_env" where
  "gateway_env ext senv fexp hasher cfg gw =
     \<lparr>le_app = gw_app gw, le_runtime = new_runtime ext senv fexp cfg, le_hasher = hasher\<rparr>"

lemma gateway_env_services: "default_services ext senv (gateway_env ext senv fexp hasher cfg gw)"
  by (simp add: default_services_def gateway_env_def new_runtime_def)

definition whole_inv :: "nat \<Rightarrow> nat \<Rightarrow> live \<Rightarrow> bool" where
  "whole_inv inflight cap g \<longleftrightarrow> live_inv inflight cap g \<and> calls_inv g \<and> key_inv g \<and> link_inv g"

lemma whole_inv_run:
  "live_run le g0 es g outs \<Longrightarrow> default_services ext env le \<Longrightarrow> whole_inv inflight cap g0 \<Longrightarrow> whole_inv inflight cap g"
proof (induction rule: live_run.induct)
  case (step g0 es g' outs e g'' outs')
  then show ?case
    unfolding whole_inv_def using live_inv_step calls_inv_step key_inv_step link_inv_step by metis
qed simp

lemma live_new_inv:
  assumes "build_router ext rl to_str form env cfg spec otel = Inr gw"
  shows "whole_inv (gc_max_inflight_invocations cfg) (max (gc_max_pending_invocations cfg) 1) (live_new gw)"
proof -
  have gw: "gw_server gw = server_new (gc_max_inflight_requests cfg)" "gw_manager gw = manager_new (gc_max_queue_depth_per_key cfg)"
    "gw_queue gw = queue_new (gc_max_inflight_invocations cfg) (gc_max_pending_invocations cfg)"
    using assms by (auto simp: build_router_def split: sum.splits)
  have "queue_callers (queue_new a b) = {#}" for a b by (simp add: queue_callers_def queue_new_def held_jobs_def)
  then show ?thesis using manager_new_inv queue_new_inv
    by (simp add: whole_inv_def live_inv_def calls_inv_def key_inv_def link_inv_def live_new_def gw in_tasks_def received_def
        manager_new_def calls_made_def keyed_chans_def held_received_def live_jobs_def held_jobs_def queue_new_def server_new_def)
qed

lemma gateway_run_inv:
  assumes "build_router ext rl to_str form env cfg spec otel = Inr gw"
    and "live_run (gateway_env ext senv fexp hasher cfg gw) (live_new gw) es g outs"
  shows "whole_inv (gc_max_inflight_invocations cfg) (max (gc_max_pending_invocations cfg) 1) g"
  by (rule whole_inv_run [OF assms(2) gateway_env_services live_new_inv [OF assms(1)]])

subsection \<open>What a waiting handler can receive\<close>

fun answer_of :: "effect \<Rightarrow> body_answer" where
  "answer_of (effect.Answer c resp) = BufferedAnswer resp"
| "answer_of (StreamEff (SendInit c init)) = StreamAnswer init"
| "answer_of e = SenderDropped"

definition answers_to :: "caller \<Rightarrow> effect list \<Rightarrow> effect list" where
  "answers_to x es = filter (\<lambda>e. x \<in> set (resolves e)) es"

lemma count_resolved: "count (resolved es) x = length (answers_to x es)"
proof (induction es)
  case (Cons e es)
  have "count (mset (resolves e)) x = of_bool (x \<in> set (resolves e))" by (cases e rule: resolves.cases) auto
  then show ?case using Cons by (simp add: answers_to_def)
qed (simp add: answers_to_def)

lemma receives_iff:
  "receives g p sink r \<and> r \<noteq> TimedOut \<longleftrightarrow>
     (\<exists>e \<in> set (answers_to (sink_caller sink) (lv_log g)). answer_of e = r) \<or> (r = SenderDropped \<and> p \<in> set (lost_requests g))"
proof -
  have res: "BufCaller c \<in> set (resolves e) \<longleftrightarrow> (\<exists>resp. e = effect.Answer c resp) \<or> e = DropAnswer c"
    "StrCaller c \<in> set (resolves e) \<longleftrightarrow> (\<exists>init. e = StreamEff (SendInit c init)) \<or> e = StreamEff (DropInit c)" for c e
    by (cases e rule: resolves.cases; auto)+
  show ?thesis by (cases sink; cases r) (auto simp: answers_to_def res sender_dropped_def)
qed

lemma one_answer:
  assumes "length (answers_to x (lv_log g)) + n = 1" "0 < n \<longleftrightarrow> p \<in> set (lost_requests g)" "sink_caller sink = x"
  shows "\<exists>!r. r \<noteq> TimedOut \<and> receives g p sink r"
proof -
  have iff: "r \<noteq> TimedOut \<and> receives g p sink r \<longleftrightarrow>
      (\<exists>e \<in> set (answers_to x (lv_log g)). answer_of e = r) \<or> (r = SenderDropped \<and> p \<in> set (lost_requests g))" for r
    using receives_iff [of g p sink r] assms(3) by blast
  show ?thesis
  proof (cases "n = 0")
    case True
    then obtain e where "answers_to x (lv_log g) = [e]" using assms(1) by (auto simp: length_Suc_conv)
    then show ?thesis unfolding iff using True assms(2) by auto
  next
    case False
    then have "answers_to x (lv_log g) = []" using assms(1) by (cases "answers_to x (lv_log g)") auto
    then show ?thesis unfolding iff using False assms(2) by auto
  qed
qed

lemma lost_request_thread:
  assumes "whole_inv inflight cap g" "t \<in> set (mg_threads (lv_manager g))" "thread_caller t \<in># lost_callers g"
  shows "th_req t \<in> set (lost_requests g)"
proof -
  obtain p where p: "p \<in> set (lost_requests g)" "sink_caller (pr_respond_to p) = thread_caller t"
    using assms(3) by (auto simp: lost_callers_def request_callers_image)
  then obtain ch where "ch \<in> set (mg_channels (lv_manager g))" "p \<in> set (ch_all ch)"
    by (auto simp: lost_requests_def ch_all_def)
  then obtain u where u: "u \<in> set (mg_threads (lv_manager g))" "th_req u = p"
    using assms(1) by (fastforce simp: whole_inv_def key_inv_def keyed_chans_def from_thread_def)
  have "distinct (map thread_caller (mg_threads (lv_manager g)))"
    using assms(1) callers_distinct by (simp add: whole_inv_def calls_inv_def calls_made_def)
  then have "u = t" using u p(2) assms(2) by (auto simp: distinct_map inj_on_def thread_caller_def)
  then show ?thesis using u p(1) by simp
qed

lemma waiting_answer:
  assumes inv: "whole_inv inflight cap g" and i: "i < length (sv_handlers (lv_server g))"
    and w: "sv_handlers (lv_server g) ! i = (rq, Waiting op p)"
  shows "if sink_caller (pr_respond_to p) \<in># in_flight g then \<forall>r. receives g p (pr_respond_to p) r \<longrightarrow> r = TimedOut
    else \<exists>!r. r \<noteq> TimedOut \<and> receives g p (pr_respond_to p) r"
proof -
  have "was_accepted (lv_manager g) p" using inv i w by (auto simp: whole_inv_def link_inv_def)
  then obtain t where t: "t \<in> set (mg_threads (lv_manager g))" "th_req t = p" "accepted t" by (auto simp: was_accepted_def)
  have x: "sink_caller (pr_respond_to p) = thread_caller t" by (simp add: thread_caller_def t(2))
  have one: "length (answers_to (thread_caller t) (lv_log g)) + count (in_flight g) (thread_caller t) +
      count (lost_callers g) (thread_caller t) = 1"
    using live_places [of inflight cap g t] inv t by (simp add: whole_inv_def count_resolved)
  have lost: "0 < count (lost_callers g) (thread_caller t) \<longleftrightarrow> p \<in> set (lost_requests g)"
    unfolding count_greater_zero_iff
  proof
    assume "thread_caller t \<in># lost_callers g"
    then show "p \<in> set (lost_requests g)" using lost_request_thread [OF inv t(1)] t(2) by simp
  next
    assume "p \<in> set (lost_requests g)"
    then show "thread_caller t \<in># lost_callers g" unfolding lost_callers_def request_callers_image x [symmetric] by simp
  qed
  show ?thesis
  proof (cases "thread_caller t \<in># in_flight g")
    case True
    then have "0 < count (in_flight g) (thread_caller t)" by (simp only: count_greater_zero_iff)
    then have "length (answers_to (thread_caller t) (lv_log g)) = 0" "\<not> 0 < count (lost_callers g) (thread_caller t)"
      using one by linarith+
    then have "answers_to (thread_caller t) (lv_log g) = []" "p \<notin> set (lost_requests g)" unfolding lost by simp_all
    then have "\<not> (receives g p (pr_respond_to p) r \<and> r \<noteq> TimedOut)" for r unfolding receives_iff x by simp
    then show ?thesis using True by (auto simp: x)
  next
    case False
    then have "count (in_flight g) (thread_caller t) = 0" by (simp add: not_in_iff)
    then show ?thesis using False one_answer [OF _ lost x] one by (simp add: x)
  qed
qed

subsection \<open>Executing a step\<close>

fun live_exec :: "live_env \<Rightarrow> live \<Rightarrow> live_event \<Rightarrow> (live \<times> http_out list) option" where
  "live_exec le g (Http e) =
     (if from_outside e then
        (case server_step (le_app le) (lv_server g) e of
           None \<Rightarrow> None
         | Some (s, outs) \<Rightarrow>
             (case (e, outs) of
                (BodyRead i uuid body, [Enqueue op p]) \<Rightarrow>
                  map_option (\<lambda>(m, us). (g\<lparr>lv_server := s, lv_manager := m, lv_calls := lv_calls g @ [i]\<rparr>, outs))
                    (mgr_step (lv_manager g) (Call op p))
              | _ \<Rightarrow> if list_ex is_enqueue outs then None else Some (g\<lparr>lv_server := s\<rparr>, outs)))
      else None)"
| "live_exec le g (CallGoes t now) =
     map_option (\<lambda>(m, us). (g\<lparr>lv_manager := m, lv_tasks := spawn_tasks le now m (lv_tasks g)\<rparr>, []))
       (mgr_step (lv_manager g) (Go t))"
| "live_exec le g (CallReturns t) =
     (if t < length (lv_calls g) then
        (case th_pc (mg_threads (lv_manager g) ! t) of
           EnqDone r \<Rightarrow> map_option (\<lambda>(s, outs). (g\<lparr>lv_server := s\<rparr>, outs))
             (server_step (le_app le) (lv_server g) (EnqueueReturned (lv_calls g ! t) (enqueue_result r)))
         | _ \<Rightarrow> None)
      else None)"
| "live_exec le g (TaskTakes c t1 t2 now) =
     (if c < length (lv_tasks g) \<and> tk_outbox (lv_tasks g ! c) = [] then
        (let ch = mg_channels (lv_manager g) ! c in
         case (ch_queue ch, mgr_step (lv_manager g) (TaskRecv c)) of
           (req # queue, Some (m, us)) \<Rightarrow>
             map_option (\<lambda>(s', fs). (set_task c \<lparr>tk_state = s', tk_outbox = concat (map (flush_work le c ch now) fs)\<rparr> (g\<lparr>lv_manager := m\<rparr>), []))
               (batcher_step (task_runtime le c (ch_config ch)) (ch_config ch) (tk_state (lv_tasks g ! c)) (Recv req t1 t2))
         | _ \<Rightarrow> None)
      else None)"
| "live_exec le g (TaskHears c e now) =
     (if c < length (lv_tasks g) \<and> tk_outbox (lv_tasks g ! c) = [] \<and> task_hears g c e then
        (let ch = mg_channels (lv_manager g) ! c in
         map_option (\<lambda>(s', fs). (set_task c \<lparr>tk_state = s', tk_outbox = concat (map (flush_work le c ch now) fs)\<rparr> g, []))
           (batcher_step (task_runtime le c (ch_config ch)) (ch_config ch) (tk_state (lv_tasks g ! c)) e))
      else None)"
| "live_exec le g (TaskSends c) =
     (if c < length (lv_tasks g) then
        (let s = tk_state (lv_tasks g ! c) in
         case tk_outbox (lv_tasks g ! c) of
           [] \<Rightarrow> None
         | Eff x # rest \<Rightarrow> Some (set_task c \<lparr>tk_state = s, tk_outbox = rest\<rparr> (g\<lparr>lv_log := lv_log g @ [x]\<rparr>), [])
         | Enqueued job # rest \<Rightarrow>
             map_option (\<lambda>(q, effs). (set_task c \<lparr>tk_state = s, tk_outbox = rest\<rparr> (g\<lparr>lv_queue := q, lv_log := lv_log g @ effs\<rparr>), []))
               (queue_step (rt_response_dispatcher (le_runtime le)) (rt_probe_feedback_reporter (le_runtime le)) (lv_queue g)
                 (TryEnqueue job)))
      else None)"
| "live_exec le g (TaskEnds c) =
     (if c < length (lv_tasks g) \<and> tk_outbox (lv_tasks g ! c) = [] \<and> task_stopped (tk_state (lv_tasks g ! c))
      then map_option (\<lambda>(m, us). (g\<lparr>lv_manager := m\<rparr>, [])) (mgr_step (lv_manager g) (TaskExit c)) else None)"
| "live_exec le g (TaskUnregisters c) =
     map_option (\<lambda>(m, us). (g\<lparr>lv_manager := m\<rparr>, [])) (mgr_step (lv_manager g) (TaskUnregister c))"
| "live_exec le g (QueueMoves e) =
     (if is_offer e then None
      else map_option (\<lambda>(q, effs). (g\<lparr>lv_queue := q, lv_log := lv_log g @ effs\<rparr>, []))
        (queue_step (rt_response_dispatcher (le_runtime le)) (rt_probe_feedback_reporter (le_runtime le)) (lv_queue g) e))"
| "live_exec le g (AnswerArrives i r) =
     (if i < length (sv_handlers (lv_server g)) then
        (case snd (sv_handlers (lv_server g) ! i) of
           Waiting op p \<Rightarrow>
             if receives g p (pr_respond_to p) r
             then map_option (\<lambda>(s, outs). (g\<lparr>lv_server := s\<rparr>, outs)) (server_step (le_app le) (lv_server g) (http_event.Answer i r))
             else None
         | _ \<Rightarrow> None)
      else None)"

lemma live_step_exec: "live_step le g e g' outs \<Longrightarrow> live_exec le g e = Some (g', outs)"
proof (induction rule: live_step.induct)
  case (http e g s outs)
  then show ?case
    by (cases e) (auto simp del: server_step.simps split: list.split http_out.split)
next
  case (answer_arrives i g rq op p r s outs)
  then show ?case by (simp del: server_step.simps)
next
  case (task_takes c g s ch req queue m us t1 t2 s' fs now)
  then show ?case by (simp del: mgr_step.simps add: Let_def)
qed (simp_all del: server_step.simps mgr_step.simps queue_step.simps add: Let_def)

lemma live_exec_step:
  assumes "live_exec le g e = Some (g', outs)"
  shows "live_step le g e g' outs"
proof (cases e)
  case (Http h)
  then have o: "from_outside h" using assms by (simp del: server_step.simps split: if_splits)
  then obtain s outs1 where s: "server_step (le_app le) (lv_server g) h = Some (s, outs1)"
    using assms Http by (auto simp del: server_step.simps split: option.splits)
  show ?thesis
  proof (cases "\<exists>i u b op p. h = BodyRead i u b \<and> outs1 = [Enqueue op p]")
    case True
    then obtain i u b op p where h: "h = BodyRead i u b" "outs1 = [Enqueue op p]" by blast
    obtain m us where m: "mgr_step (lv_manager g) (Call op p) = Some (m, us)" by simp
    have "g' = g\<lparr>lv_server := s, lv_manager := m, lv_calls := lv_calls g @ [i]\<rparr>" "outs = [Enqueue op p]"
      using assms Http h s m by (auto simp del: server_step.simps mgr_step.simps)
    then show ?thesis using live_step.calls [of le g i u b s op p m us] s m h Http by simp
  next
    case False
    then have "\<not> list_ex is_enqueue outs1" "g' = g\<lparr>lv_server := s\<rparr>" "outs = outs1"
      using assms Http s o by (auto simp del: server_step.simps split: http_event.splits list.splits http_out.splits if_splits)
    then show ?thesis using live_step.http [OF o s] Http by simp
  qed
next
  case (CallReturns t)
  then show ?thesis using assms
    by (auto simp del: server_step.simps split: if_splits enq_pc.splits intro: live_step.call_returns)
next
  case (TaskSends c)
  then show ?thesis using assms
    by (auto simp del: queue_step.simps simp: Let_def split: if_splits list.splits flush_out.splits
        intro: live_step.task_answers live_step.task_offers)
next
  case (AnswerArrives i r)
  then show ?thesis using assms
    by (cases "sv_handlers (lv_server g) ! i")
      (auto simp del: server_step.simps split: if_splits http_phase.splits intro: live_step.answer_arrives)
next
  case (TaskTakes c t1 t2 now)
  then show ?thesis using assms
    by (auto simp del: mgr_step.simps simp: Let_def split: if_splits list.splits option.splits intro!: live_step.task_takes)
next
  case (TaskHears c h now)
  then show ?thesis using assms by (auto simp: Let_def split: if_splits intro!: live_step.task_hears)
next
  case (TaskEnds c)
  then show ?thesis using assms
    by (auto simp del: mgr_step.simps split: if_splits intro: live_step.task_ends)
qed (use assms in \<open>auto simp del: mgr_step.simps queue_step.simps split: if_splits intro: live_step.intros\<close>)

lemma live_run_exec: "run (live_exec le) g es = Some (g', outs) \<longleftrightarrow> live_run le g es g' outs"
proof
  show "run (live_exec le) g es = Some (g', outs) \<Longrightarrow> live_run le g es g' outs"
  proof (induction es arbitrary: g' outs rule: rev_induct)
    case Nil
    then show ?case by (simp add: live_run.start)
  next
    case (snoc e es)
    then obtain g1 o1 o2 where "run (live_exec le) g es = Some (g1, o1)" "live_exec le g1 e = Some (g', o2)" "outs = o1 @ o2"
      by (auto simp: run_append simp del: live_exec.simps split: option.splits prod.splits)
    then show ?case using snoc.IH live_run.step live_exec_step by blast
  qed
  show "live_run le g es g' outs \<Longrightarrow> run (live_exec le) g es = Some (g', outs)"
    by (induction rule: live_run.induct) (simp_all add: run_append live_step_exec del: live_exec.simps)
qed

subsection \<open>An example gateway\<close>

definition example_gateway_config :: gateway_config where
  "example_gateway_config = \<lparr>gc_spec = None, gc_aws_region = None, gc_max_inflight_invocations = 1, gc_max_inflight_requests = 2,
     gc_max_pending_invocations = 1, gc_max_queue_depth_per_key = 2, gc_idle_ttl_ms = 5, gc_default_timeout_ms = 9,
     gc_max_body_bytes = 3, gc_max_invoke_payload_bytes = 100, gc_forward_headers = \<lparr>fh_allow = [], fh_deny = []\<rparr>\<rparr>"

definition example_gateway :: gateway where
  "example_gateway = (case build_router example_ext (ap_router example_app) Some (\<lambda>q. []) (\<lambda>_. None) example_gateway_config
     (ap_spec example_app) False of Inr gw \<Rightarrow> gw)"

definition example_env :: live_env where
  "example_env = gateway_env example_ext example_stream_env (\<lambda>x. x) (\<lambda>_. 0) example_gateway_config example_gateway"

lemma example_built:
  "build_router example_ext (ap_router example_app) Some (\<lambda>q. []) (\<lambda>_. None) example_gateway_config (ap_spec example_app) False =
     Inr example_gateway"
  by (simp add: example_gateway_def build_router_def policy_try_from_cfg_def example_gateway_config_def)

lemma example_gateway_parts:
  "gw_server example_gateway = server_new 2" "gw_manager example_gateway = manager_new 2" "gw_queue example_gateway = queue_new 1 1"
  "match_request (ap_router (gw_app example_gateway)) (ap_spec (gw_app example_gateway)) ''GET'' ''/a'' = Matched example_op []"
  "ap_emf_enabled (gw_app example_gateway) = False" "ap_max_body_bytes (gw_app example_gateway) = 3" "ap_ext (gw_app example_gateway) = example_ext"
  by (simp_all add: example_gateway_def build_router_def policy_try_from_cfg_def example_gateway_config_def example_app_def
      match_request_def env_truthy_def)

definition example_pending :: pending_request where
  "example_pending = make_pending (gw_app example_gateway) (example_http ''GET'' ''/a'') example_op [] ''u'' ''xy'' (SinkBuffered 0)"

lemma example_pending_sink [simp]: "pr_respond_to example_pending = SinkBuffered 0"
  by (simp add: example_pending_def make_pending_def)

definition example_server :: "nat \<Rightarrow> http_phase \<Rightarrow> server" where
  "example_server chans ph = \<lparr>sv_permits = 1, sv_active = 0, sv_chans = chans, sv_handlers = [(example_http ''GET'' ''/a'', ph)]\<rparr>"

definition example_chan :: "pending_request list \<Rightarrow> pending_request list \<Rightarrow> channel" where
  "example_chan queue got = \<lparr>ch_key = batch_key_of example_op example_pending, ch_config = batcher_config_of example_op,
     ch_queue = queue, ch_open = True, ch_received = got, ch_lost = [], ch_unregistered = False\<rparr>"

definition example_manager :: "channel list \<Rightarrow> enq_pc \<Rightarrow> manager" where
  "example_manager chs pc = \<lparr>mg_depth = 2, mg_batchers = (if chs = [] then [] else [(batch_key_of example_op example_pending, 0)]),
     mg_channels = chs, mg_threads = [\<lparr>th_op = example_op, th_req = example_pending, th_pc = pc\<rparr>]\<rparr>"

definition example_live :: "server \<Rightarrow> manager \<Rightarrow> batcher_task list \<Rightarrow> live" where
  "example_live s m tasks = \<lparr>lv_server = s, lv_manager = m, lv_queue = queue_new 1 1, lv_calls = [0], lv_tasks = tasks, lv_log = []\<rparr>"

definition example_arrived :: live where
  "example_arrived = \<lparr>lv_server = example_server 0 (Admitted example_op []), lv_manager = manager_new 2, lv_queue = queue_new 1 1,
     lv_calls = [], lv_tasks = [], lv_log = []\<rparr>"

lemma example_op_facts: "oc_invoke_mode example_op = Buffered" "bc_duration_wait (batcher_config_of example_op) = None"
  "bc_dynamic_wait (batcher_config_of example_op) = None" "bc_max_batch_size (batcher_config_of example_op) = 4"
  "bc_max_wait_ms (batcher_config_of example_op) = 10"
  by (simp_all add: example_op_def batcher_config_of_def)

lemma example_steps:
  "live_exec example_env (live_new example_gateway) (Http (Arrive (example_http ''GET'' ''/a''))) =
     Some (example_arrived, [])"
  "live_exec example_env example_arrived (Http (BodyRead 0 ''u'' (Inr ''xy''))) =
     Some (example_live (example_server 2 (Calling example_op example_pending)) (example_manager [] (EnqEntry 0)) [],
       [Enqueue example_op example_pending])"
  "live_exec example_env (example_live s (example_manager [] (EnqEntry 0)) []) (CallGoes 0 5) =
     Some (example_live s (example_manager [example_chan [] []] (EnqSend 0 0)) [\<lparr>tk_state = TaskFixed FixedIdle, tk_outbox = []\<rparr>], [])"
  "live_exec example_env (example_live s (example_manager [example_chan [] []] (EnqSend 0 0)) tasks) (CallGoes 0 6) =
     Some (example_live s (example_manager [example_chan [example_pending] []] (EnqDone (Inr ()))) (spawn_tasks example_env 6 (example_manager [example_chan [example_pending] []] (EnqDone (Inr ()))) tasks), [])"
  "live_exec example_env (example_live (example_server 2 (Calling example_op example_pending)) (example_manager chs (EnqDone (Inr ()))) tasks) (CallReturns 0) =
     Some (example_live (example_server 2 (Waiting example_op example_pending)) (example_manager chs (EnqDone (Inr ()))) tasks, [])"
  by (simp_all add: example_arrived_def example_env_def gateway_env_def live_new_def example_gateway_parts arrive_def example_server_def
     start_http_server_request_def server_new_def phase_def Let_def body_read_def example_op_facts example_live_def manager_new_def
     example_manager_def example_chan_def spawn_tasks_def batcher_init_def enqueue_returned_def example_pending_def hm_insert_def
     example_http_def [of "''GET''" "''/a''"])

definition example_out :: flush_out where
  "example_out = Enqueued (JobBuffered \<lparr>ji_key = batch_key_of example_op example_pending, ji_wait_ms = 10, ji_estimated_rps = None,
     ji_is_probe = False, ji_duration_feedback_tx = None, ji_payload = ''json''\<rparr> [(''r-u'', 0)])"

lemma example_flush:
  "flush_work example_env 0 (example_chan queue got) 9 (flush_out_of 10 None False [example_pending]) = [example_out]"
proof -
  have c: "collect_sinks [example_pending] ([], []) = (([(''r-u'', 0)], []), [])"
    by (simp add: example_pending_def make_pending_def hm_insert_def)
  have k: "bk_invoke_mode (batch_key_of example_op example_pending) = Buffered" by (simp add: batch_key_of_def example_op_facts)
  have j: "json_to_vec example_ext v = Inr ''json''" for v by (simp add: example_ext_def)
  show ?thesis
    by (simp add: j flush_work_def flush_batch_def Let_def c k flush_single_buffered example_env_def gateway_env_def new_runtime_def
        task_runtime_def v1_build_payload_def example_gateway_config_def offer_job_def example_out_def example_chan_def
        example_op_facts flush_out_of_def del: collect_sinks.simps)
qed

lemma example_tasks:
  "live_exec example_env (example_live s (example_manager [example_chan [example_pending] []] pc) [\<lparr>tk_state = TaskFixed FixedIdle, tk_outbox = []\<rparr>])
     (TaskTakes 0 7 8 9) =
     Some (example_live s (example_manager [example_chan [] [example_pending]] pc)
       [\<lparr>tk_state = TaskFixed (FixedFilling [example_pending] 10000007), tk_outbox = []\<rparr>], [])"
  "live_exec example_env (example_live s (example_manager [example_chan [] [example_pending]] pc)
       [\<lparr>tk_state = TaskFixed (FixedFilling [example_pending] 10000007), tk_outbox = []\<rparr>]) (TaskHears 0 TimerFired 9) =
     Some (example_live s (example_manager [example_chan [] [example_pending]] pc)
       [\<lparr>tk_state = TaskFixed FixedIdle, tk_outbox = [example_out]\<rparr>], [])"
  by (simp_all add: example_live_def example_manager_def Let_def set_task_def example_op_facts from_millis_def fixed_fill_def
      example_chan_def) (simp add: example_flush [unfolded example_chan_def])

definition example_day :: "live_event list" where
  "example_day = [Http (Arrive (example_http ''GET'' ''/a'')), Http (BodyRead 0 ''u'' (Inr ''xy'')), CallGoes 0 5, CallGoes 0 6, CallReturns 0]"

definition example_waiting :: live where
  "example_waiting = example_live (example_server 2 (Waiting example_op example_pending))
     (example_manager [example_chan [example_pending] []] (EnqDone (Inr ()))) [\<lparr>tk_state = TaskFixed FixedIdle, tk_outbox = []\<rparr>]"

lemma example_day_run:
  "live_run (gateway_env example_ext example_stream_env (\<lambda>x. x) (\<lambda>_. 0) example_gateway_config example_gateway)
     (live_new example_gateway) example_day example_waiting [Enqueue example_op example_pending]"
proof -
  have "spawn_tasks example_env 6 (example_manager [ch] pc) [t] = [t]" for ch pc t by (simp add: spawn_tasks_def example_manager_def)
  then show ?thesis
    by (simp only: live_run_exec [symmetric] example_env_def [symmetric])
      (simp add: example_day_def example_steps example_waiting_def del: live_exec.simps)
qed

definition example_flushing :: "live_event list" where
  "example_flushing = example_day @ [TaskTakes 0 7 8 9, TaskHears 0 TimerFired 9, TaskSends 0]"

lemma example_flushing_run:
  "\<exists>g. live_run (gateway_env example_ext example_stream_env (\<lambda>x. x) (\<lambda>_. 0) example_gateway_config example_gateway)
     (live_new example_gateway) example_flushing g [Enqueue example_op example_pending] \<and> jq_jobs (lv_queue g) \<noteq> []"
proof -
  have "live_exec example_env (example_live s m [\<lparr>tk_state = st, tk_outbox = [example_out]\<rparr>]) (TaskSends 0) =
      Some ((example_live s m [\<lparr>tk_state = st, tk_outbox = []\<rparr>])\<lparr>lv_queue := (queue_new 1 1)\<lparr>jq_jobs := (case example_out of Enqueued job \<Rightarrow> [job])\<rparr>\<rparr>, [])"
    for s m st
    by (simp add: example_live_def example_out_def set_task_def enqueue_invocation_job_def try_send_job_def queue_new_def)
  moreover have "run (live_exec example_env) (live_new example_gateway) example_day = Some (example_waiting, [Enqueue example_op example_pending])"
    using example_day_run by (simp only: live_run_exec [symmetric] example_env_def [symmetric])
  ultimately show ?thesis
    by (simp only: live_run_exec [symmetric] example_env_def [symmetric])
      (simp add: example_flushing_def run_append example_waiting_def example_tasks example_out_def del: live_exec.simps)
qed

subsection \<open>Properties\<close>

text \<open>C3: In every run of the whole gateway, each accepted request is in exactly one place: answered or dropped by a
  sender (once), still queued, held or travelling with a job, or lost with the queue of a task that ended.
  A request whose call of \<open>enqueue\<close> was refused or is still running is in none.\<close>

theorem gateway_request_in_one_place:
  assumes "build_router ext rl to_str form env cfg spec otel = Inr gw"
    and "live_run (gateway_env ext senv fexp hasher cfg gw) (live_new gw) es g outs"
  shows "list_all (\<lambda>t. count (resolved (lv_log g)) (thread_caller t) + count (in_flight g) (thread_caller t) +
    count (lost_callers g) (thread_caller t) = of_bool (accepted t)) (mg_threads (lv_manager g))"
  unfolding list_all_iff using live_places gateway_run_inv [OF assms] unfolding whole_inv_def by blast

theorem gateway_request_in_one_place_witness:
  "list_all (\<lambda>t. count (resolved (lv_log example_waiting)) (thread_caller t) + count (in_flight example_waiting) (thread_caller t) +
    count (lost_callers example_waiting) (thread_caller t) = of_bool (accepted t)) (mg_threads (lv_manager example_waiting))"
  by (rule gateway_request_in_one_place [OF example_built example_day_run])

text \<open>C4: A handler that waits for its answer: as long as its request is in flight it can only time out; afterwards there
  is exactly one thing for it to receive, the response sent to its own channel or the drop of its sender.
  So no answer is missed, none is ambiguous, and nobody waits for an answer that can no longer come.\<close>

theorem gateway_waiting_handler_answer:
  assumes "build_router ext rl to_str form env cfg spec otel = Inr gw"
    and "live_run (gateway_env ext senv fexp hasher cfg gw) (live_new gw) es g outs"
    and "i < length (sv_handlers (lv_server g))" "sv_handlers (lv_server g) ! i = (rq, Waiting op p)"
  shows "if sink_caller (pr_respond_to p) \<in># in_flight g then \<forall>r. receives g p (pr_respond_to p) r \<longrightarrow> r = TimedOut
    else \<exists>!r. r \<noteq> TimedOut \<and> receives g p (pr_respond_to p) r"
  by (rule waiting_answer [OF gateway_run_inv [OF assms(1,2)] assms(3,4)])

theorem gateway_waiting_handler_answer_witness:
  "if sink_caller (pr_respond_to example_pending) \<in># in_flight example_waiting
   then \<forall>r. receives example_waiting example_pending (pr_respond_to example_pending) r \<longrightarrow> r = TimedOut
   else \<exists>!r. r \<noteq> TimedOut \<and> receives example_waiting example_pending (pr_respond_to example_pending) r"
proof -
  have "0 < length (sv_handlers (lv_server example_waiting))"
    "sv_handlers (lv_server example_waiting) ! 0 = (example_http ''GET'' ''/a'', Waiting example_op example_pending)"
    by (simp_all add: example_waiting_def example_live_def example_server_def)
  then show ?thesis by (rule gateway_waiting_handler_answer [OF example_built example_day_run])
qed

text \<open>C6: No invocation mixes tenants, end to end: every job that waits, is held or runs carries only callers whose
  requests were accepted and have the batch key of the job, so its target, method, route, mode and every
  configured header and query dimension are those of each request in it.\<close>

theorem gateway_jobs_one_key:
  assumes "build_router ext rl to_str form env cfg spec otel = Inr gw"
    and "live_run (gateway_env ext senv fexp hasher cfg gw) (live_new gw) es g outs"
  shows "list_all (\<lambda>job. \<forall>x \<in># job_callers job. \<exists>t \<in> set (mg_threads (lv_manager g)).
      accepted t \<and> thread_caller t = x \<and> batch_key_of (th_op t) (th_req t) = ji_key (job_info_of job)) (held_jobs (lv_queue g))"
  using gateway_run_inv [OF assms]
  by (fastforce simp: whole_inv_def key_inv_def live_jobs_def list_all_iff job_keyed_def from_thread_def thread_caller_def)

theorem gateway_jobs_one_key_witness:
  "\<exists>g :: live. jq_jobs (lv_queue g) \<noteq> [] \<and>
    list_all (\<lambda>job. \<forall>x \<in># job_callers job. \<exists>t \<in> set (mg_threads (lv_manager g)).
      accepted t \<and> thread_caller t = x \<and> batch_key_of (th_op t) (th_req t) = ji_key (job_info_of job)) (held_jobs (lv_queue g))"
proof -
  obtain g where g: "jq_jobs (lv_queue g) \<noteq> []" and r: "live_run (gateway_env example_ext example_stream_env (\<lambda>x. x) (\<lambda>_. 0)
      example_gateway_config example_gateway) (live_new example_gateway) example_flushing g [Enqueue example_op example_pending]"
    using example_flushing_run by blast
  show ?thesis using g gateway_jobs_one_key [OF example_built r] by blast
qed

text \<open>The composition as a relation and as a program agree: the rules allow exactly the runs that executing
  the steps one by one gives, so the gateway is deterministic once its environment is fixed.\<close>

theorem gateway_relation_executes:
  "live_run le g es g' outs \<longleftrightarrow> run (live_exec le) g es = Some (g', outs)"
  by (rule live_run_exec [symmetric])

end
