(* ===== verification/Drain.thy ===== *)
theory Drain
  imports Gateway End_To_End
begin

text \<open>
  Progress of the whole gateway: the steps it can make by itself, with nothing arriving from outside and without
  a timeout. Such steps cannot go on forever. When none is left but to complete streamed responses, which takes clients
  that read or go away, every call of \<open>enqueue\<close> has returned and all that waits, waits for those; when none is left at
  all every handler has its answer.
\<close>

subsection \<open>Steps of its own\<close>






subsection \<open>What is left to do\<close>






















subsection \<open>What keeps the parts able to move\<close>











subsection \<open>These facts are invariants\<close>











subsection \<open>A gateway that cannot move has answered everyone\<close>

















subsection \<open>What the gateway's own steps do to its handlers\<close>








subsection \<open>From every reachable state\<close>






subsection \<open>Properties\<close>




end
