(* ===== verification/Stream_Own.thy ===== *)
theory Stream_Own
  imports Stream_Dispatch "HOL-Library.Sublist"
begin

text \<open>
  Where the data of a streamed response goes: everything a caller receives on its channels was said by a record of the
  stream that carries the id of this caller's request, or is the 502 the gateway makes itself. This holds for every
  stream, also one that is cut short, has foreign ids or mixes both record formats.
\<close>

subsection \<open>The lines a dispatcher looks at\<close>

text \<open>The text received before the stream ended or failed.\<close>

fun received_text :: "bytes res list \<Rightarrow> bytes" where
  "received_text (Inr chunk # stream) = chunk @ received_text stream"
| "received_text _ = []"

definition ends_cleanly :: "bytes res list \<Rightarrow> bool" where
  "ends_cleanly stream \<longleftrightarrow> list_all (\<lambda>x. case x of Inr _ \<Rightarrow> True | Inl _ \<Rightarrow> False) stream"

text \<open>Its complete lines, and the last piece when the stream has ended in order.\<close>

definition seen_lines :: "bytes \<Rightarrow> bytes res list \<Rightarrow> bytes list" where
  "seen_lines buf stream =
     (let pieces = split_on newline (buf @ received_text stream)
      in map strip_cr (butlast pieces) @ (if ends_cleanly stream then [strip_eol (last pieces)] else []))"

text \<open>The records on these lines up to the first that cannot be read; blank lines are skipped.\<close>

fun records_in :: "ext_lib \<Rightarrow> bytes list \<Rightarrow> stream_response_record list" where
  "records_in ext [] = []"
| "records_in ext (line # ls) = (if line = [] then records_in ext ls
     else (case parse_stream_record ext line of Inl _ \<Rightarrow> [] | Inr rec \<Rightarrow> rec # records_in ext ls))"

definition readable :: "ext_lib \<Rightarrow> bytes \<Rightarrow> bool" where
  "readable ext line \<longleftrightarrow> line = [] \<or> (\<exists>rec. parse_stream_record ext line = Inr rec)"

lemma records_in_append: "list_all (readable ext) xs \<Longrightarrow> records_in ext (xs @ ys) = records_in ext xs @ records_in ext ys"
  by (induction xs) (auto simp: readable_def)

lemma records_in_prefix: "prefix (records_in ext xs) (records_in ext (xs @ ys))"
  by (induction xs) (auto split: sum.split)

lemma records_inD: "rec \<in> set (records_in ext ls) \<Longrightarrow> \<exists>line \<in> set ls. line \<noteq> [] \<and> parse_stream_record ext line = Inr rec"
  by (induction ls) (auto split: if_splits sum.splits)

subsection \<open>What a record says\<close>

fun record_id_of :: "stream_response_record \<Rightarrow> string" where
  "record_id_of (Legacy r) = sl_id r"
| "record_id_of (Interleaved r) = si_id r"

definition head_for :: "ext_lib \<Rightarrow> u16 \<Rightarrow> (string, string) hashmap \<Rightarrow> string list \<Rightarrow> stream_head \<Rightarrow> bool" where
  "head_for ext status headers cookies h \<longleftrightarrow> status_from_u16 ext status = Inr (sh_status h) \<and>
     (\<exists>hs. headers_from_map ext headers = Inr hs \<and> append_cookies ext hs cookies = Inr (sh_headers h))"

definition error_message :: "stream_record_interleaved \<Rightarrow> string" where
  "error_message r = (case si_message r of Some m \<Rightarrow> m | None \<Rightarrow> ''error'')"

fun says :: "ext_lib \<Rightarrow> stream_response_record \<Rightarrow> stream_out \<Rightarrow> bool" where
  "says ext (Legacy r) (SendInit c (InitResponse resp)) \<longleftrightarrow>
     (\<exists>n w el resp0. resp = with_meta n w (Some el) resp0 \<and>
        build_gateway_response_parts ext (sl_status_code r) (sl_headers r) (sl_cookies r) (sl_body r)
          (sl_is_base64_encoded r) = Inr resp0)"
| "says ext (Interleaved r) (SendInit c (InitResponse resp)) \<longleftrightarrow>
     si_record_type r = Error \<and> (\<exists>n w el status. resp = with_meta n w (Some el) (response_text status (error_message r)))"
| "says ext (Interleaved r) (SendInit c (InitStream h)) \<longleftrightarrow>
     (case si_record_type r of
        Head \<Rightarrow> head_for ext (case si_status_code r of Some s \<Rightarrow> s | None \<Rightarrow> 200) (si_headers r) (si_cookies r) h
      | Error \<Rightarrow> False
      | _ \<Rightarrow> head_for ext 200 [] [] h)"
| "says ext (Interleaved r) (SendBody c bs) \<longleftrightarrow> si_record_type r = Chunk \<and>
     decode_body_bytes ext (case si_body r of Some b \<Rightarrow> b | None \<Rightarrow> []) (si_is_base64_encoded r) = Inr bs"
| "says ext rec x \<longleftrightarrow> False"

fun is_drop :: "stream_out \<Rightarrow> bool" where
  "is_drop (DropInit c) = True"
| "is_drop (DropBody c) = True"
| "is_drop x = False"

definition made_by_gateway :: "stream_out \<Rightarrow> bool" where
  "made_by_gateway x \<longleftrightarrow> (\<exists>c n w el msg. x = SendInit c (InitResponse (with_meta n w el (response_text BAD_GATEWAY msg))))"

definition carried :: "ext_lib \<Rightarrow> stream_response_record set \<Rightarrow> stream_map \<Rightarrow> stream_out \<Rightarrow> bool" where
  "carried ext recs p x \<longleftrightarrow> is_drop x \<or> made_by_gateway x \<or>
     (\<exists>i e. (i, e) \<in> set p \<and> concerns e x \<and> (\<exists>rec \<in> recs. record_id_of rec = i \<and> says ext rec x))"

text \<open>Entries keep their id and their channels; only the init sender may be gone.\<close>

definition kept :: "stream_map \<Rightarrow> stream_map \<Rightarrow> bool" where
  "kept q p \<longleftrightarrow> (\<forall>i e'. (i, e') \<in> set q \<longrightarrow> (\<exists>e. (i, e) \<in> set p \<and> (e' = e \<or> e' = e\<lparr>sp_init := None\<rparr>)))"

lemma kept_refl [simp]: "kept p p"
  by (auto simp: kept_def)

lemma kept_delete [simp]: "kept (hm_delete k p) p"
  by (auto simp: kept_def hm_set_delete)

lemma kept_reinsert: "(k, e) \<in> set p \<Longrightarrow> e' = e \<or> e' = e\<lparr>sp_init := None\<rparr> \<Longrightarrow> kept (hm_insert k e' (hm_delete k p)) p"
  by (auto simp: kept_def set_reinsert)

lemma kept_trans:
  assumes "kept r q" "kept q p"
  shows "kept r p"
  unfolding kept_def
proof (intro allI impI)
  fix i e2 assume "(i, e2) \<in> set r"
  then obtain e1 where "(i, e1) \<in> set q" "e2 = e1 \<or> e2 = e1\<lparr>sp_init := None\<rparr>" using assms(1) unfolding kept_def by blast
  moreover from this obtain e where "(i, e) \<in> set p" "e1 = e \<or> e1 = e\<lparr>sp_init := None\<rparr>" using assms(2) unfolding kept_def by blast
  ultimately show "\<exists>e. (i, e) \<in> set p \<and> (e2 = e \<or> e2 = e\<lparr>sp_init := None\<rparr>)" by auto
qed

lemma carried_kept:
  assumes "kept q p" "carried ext recs q x"
  shows "carried ext recs p x"
proof (cases "is_drop x \<or> made_by_gateway x")
  case False
  then obtain i e' rec where r: "(i, e') \<in> set q" "concerns e' x" "rec \<in> recs" "record_id_of rec = i" "says ext rec x"
    using assms(2) by (auto simp: carried_def)
  then obtain e where e: "(i, e) \<in> set p" "e' = e \<or> e' = e\<lparr>sp_init := None\<rparr>" using assms(1) by (metis kept_def)
  then have "concerns e x" using r(2) concerns_no_init by auto
  then show ?thesis using r e(1) unfolding carried_def by blast
qed (auto simp: carried_def)

lemma carried_mono: "carried ext recs p x \<Longrightarrow> recs \<subseteq> recs' \<Longrightarrow> carried ext recs' p x"
  unfolding carried_def by blast

subsection \<open>One record\<close>

definition writes :: "ext_lib \<Rightarrow> stream_response_record set \<Rightarrow> stream_map \<Rightarrow> stream_log \<Rightarrow> stream_map \<Rightarrow> stream_log \<Rightarrow> bool" where
  "writes ext recs p hist q hist' \<longleftrightarrow> kept q p \<and> (\<exists>outs. hist' = hist @ outs \<and> (\<forall>x \<in> set outs. carried ext recs p x))"

lemma writes_refl [simp]: "writes ext recs p hist p hist"
  by (simp add: writes_def)

lemma writes_mono: "writes ext recs p h q h' \<Longrightarrow> recs \<subseteq> recs' \<Longrightarrow> writes ext recs' p h q h'"
  unfolding writes_def using carried_mono by blast

lemma writes_trans:
  assumes "writes ext recs p h q h'" "writes ext recs q h' r h''"
  shows "writes ext recs p h r h''"
proof -
  obtain o1 o2 where "h' = h @ o1" "\<forall>x \<in> set o1. carried ext recs p x" "h'' = h' @ o2" "\<forall>x \<in> set o2. carried ext recs q x"
    using assms by (auto simp: writes_def)
  then show ?thesis using assms kept_trans carried_kept [of q p] unfolding writes_def by (intro conjI exI [of _ "o1 @ o2"]) auto
qed

lemma drop_carried: "x \<in> set (drop_pending e) \<Longrightarrow> carried ext recs p x"
  by (auto simp: drop_pending_def carried_def split: option.splits)

lemma said: "(i, e) \<in> set p \<Longrightarrow> concerns e x \<Longrightarrow> rec \<in> recs \<Longrightarrow> record_id_of rec = i \<Longrightarrow> says ext rec x \<Longrightarrow> carried ext recs p x"
  unfolding carried_def by blast

lemma writes_outs: "kept q p \<Longrightarrow> \<forall>x \<in> set outs. carried ext recs p x \<Longrightarrow> writes ext recs p hist q (hist @ outs)"
  by (auto simp: writes_def)

lemma legacy_writes:
  "legacy_record ext n w el r p hist = ((q, hist'), res) \<Longrightarrow> writes ext {Legacy r} p hist q hist'"
proof -
  assume a: "legacy_record ext n w el r p hist = ((q, hist'), res)"
  show ?thesis
  proof (cases "sl_v r \<noteq> 1 \<or> hm_get p (sl_id r) = None")
    case True
    then show ?thesis using a by (auto simp: legacy_record_def split: if_splits)
  next
    case False
    then obtain e where e: "hm_get p (sl_id r) = Some e" and v: "sl_v r = 1" by auto
    have m: "(sl_id r, e) \<in> set p" using e by (rule hm_get_SomeD)
    show ?thesis
    proof (cases "build_gateway_response_parts ext (sl_status_code r) (sl_headers r) (sl_cookies r) (sl_body r) (sl_is_base64_encoded r)")
      case (Inl err)
      then have "q = hm_delete (sl_id r) p" "hist' = hist @ drop_pending e"
        using a e v by (auto simp: legacy_record_def Let_def map_err_def)
      then show ?thesis using drop_carried by (auto intro: writes_outs)
    next
      case (Inr resp)
      let ?sent = "case sp_init e of Some init \<Rightarrow> [SendInit init (InitResponse (with_meta n w (Some el) resp))] | None \<Rightarrow> []"
      have q: "q = hm_delete (sl_id r) p" "hist' = hist @ ?sent @ [DropBody (sp_body e)]"
        using a e v Inr by (auto simp: legacy_record_def Let_def map_err_def)
      have "carried ext {Legacy r} p x" if sent: "x \<in> set (?sent @ [DropBody (sp_body e)])" for x
      proof (cases "x = DropBody (sp_body e)")
        case False
        then obtain init where x: "sp_init e = Some init" "x = SendInit init (InitResponse (with_meta n w (Some el) resp))"
          using sent False by (cases "sp_init e") auto
        show ?thesis unfolding x(2) using Inr by (intro said [OF m _ singletonI]) (simp_all add: x(1), blast)
      qed (simp add: carried_def)
      then show ?thesis unfolding q by (intro writes_outs) auto
    qed
  qed
qed

lemma send_head_says:
  assumes "send_stream_head ext env n w el st hs cs e hist = ((e', hist'), r)"
  shows "(e' = e \<or> e' = e\<lparr>sp_init := None\<rparr>) \<and> (\<exists>outs. hist' = hist @ outs \<and>
    (\<forall>x \<in> set outs. is_drop x \<or> (\<exists>i h. x = SendInit i (InitStream h) \<and> sp_init e = Some i \<and> head_for ext st hs cs h)))"
  using assms by (cases "sp_init e") (auto simp: send_stream_head_def Let_def map_err_def head_for_def split: sum.splits)

text \<open>A record that first makes sure of the head, then writes and keeps or drops its entry.\<close>

lemma head_writes:
  assumes m: "(i, e) \<in> set p" and s: "send_stream_head ext env n w el st hs cs e hist = ((e', hist'), r)"
    and head: "\<And>c h. head_for ext st hs cs h \<Longrightarrow> says ext rec (SendInit c (InitStream h))" and i: "record_id_of rec = i"
    and later: "\<And>x. x \<in> set later \<Longrightarrow> is_drop x \<or> (\<exists>bs. x = SendBody (sp_body e') bs \<and> says ext rec x)"
    and q: "q = hm_delete i p \<or> q = hm_insert i e' (hm_delete i p)"
  shows "writes ext {rec} p hist q (hist' @ later)"
proof -
  obtain outs where o: "e' = e \<or> e' = e\<lparr>sp_init := None\<rparr>" "hist' = hist @ outs"
    "\<forall>x \<in> set outs. is_drop x \<or> (\<exists>c h. x = SendInit c (InitStream h) \<and> sp_init e = Some c \<and> head_for ext st hs cs h)"
    using send_head_says [OF s] by auto
  have "kept q p" using q kept_reinsert [OF m o(1)] by auto
  moreover have "carried ext {rec} p x" if mem: "x \<in> set outs" for x
  proof (cases "is_drop x")
    case False
    then obtain c h where x: "x = SendInit c (InitStream h)" "sp_init e = Some c" "head_for ext st hs cs h" using o(3) mem by blast
    show ?thesis unfolding x(1) by (rule said [OF m _ singletonI i head [OF x(3)]]) (simp add: x(2))
  qed (simp add: carried_def)
  moreover have "carried ext {rec} p x" if mem: "x \<in> set later" for x
  proof (cases "is_drop x")
    case False
    then obtain bs where x: "x = SendBody (sp_body e') bs" "says ext rec x" using later [OF mem] by blast
    have "sp_body e' = sp_body e" using o(1) by auto
    then show ?thesis by (intro said [OF m _ singletonI i x(2)]) (simp add: x(1))
  qed (simp add: carried_def)
  ultimately show ?thesis unfolding o(2) append_assoc by (intro writes_outs) auto
qed

lemma drops_only: "x \<in> set (drop_pending e) \<Longrightarrow> is_drop x"
  by (auto simp: drop_pending_def split: option.splits)

lemma head_record_writes:
  assumes "head_record ext env n w el r p hist = ((q, hist'), res)" "si_record_type r = Head"
  shows "writes ext {Interleaved r} p hist q hist'"
proof (cases "hm_get p (si_id r)")
  case None
  then show ?thesis using assms(1) by (simp add: head_record_def)
next
  case (Some e)
  let ?st = "case si_status_code r of Some s \<Rightarrow> s | None \<Rightarrow> 200"
  obtain e' h b where s: "send_stream_head ext env n w el ?st (si_headers r) (si_cookies r) e hist = ((e', h), b)" by (metis prod.collapse)
  note hw = head_writes [OF hm_get_SomeD [OF Some] s, where rec = "Interleaved r"]
  have head: "head_for ext ?st (si_headers r) (si_cookies r) h1 \<Longrightarrow> says ext (Interleaved r) (SendInit c (InitStream h1))" for c h1
    by (simp add: assms(2))
  have "q = hm_delete (si_id r) p \<and> hist' = h @ drop_pending e' \<or> q = hm_insert (si_id r) e' (hm_delete (si_id r) p) \<and> hist' = h @ []"
    using assms(1) Some s by (auto simp: head_record_def Let_def split: sum.splits if_splits)
  then show ?thesis
  proof (elim disjE conjE)
    assume "q = hm_delete (si_id r) p" "hist' = h @ drop_pending e'"
    then show ?thesis using hw [OF head] drops_only by simp
  next
    assume "q = hm_insert (si_id r) e' (hm_delete (si_id r) p)" "hist' = h @ []"
    then show ?thesis using hw [OF head, where later = "[]"] by simp
  qed
qed

lemma default_head_says:
  "si_record_type r = Chunk \<or> si_record_type r = End \<Longrightarrow> head_for ext 200 [] [] h \<Longrightarrow> says ext (Interleaved r) (SendInit c (InitStream h))"
  by auto

lemma chunk_record_writes:
  assumes "chunk_record ext env n w el r p hist = ((q, hist'), res)" "si_record_type r = Chunk"
  shows "writes ext {Interleaved r} p hist q hist'"
proof (cases "hm_get p (si_id r)")
  case None
  then show ?thesis using assms(1) by (simp add: chunk_record_def)
next
  case (Some e)
  obtain e' h b where s: "send_stream_head ext env n w el 200 [] [] e hist = ((e', h), b)" by (metis prod.collapse)
  note hw = head_writes [OF hm_get_SomeD [OF Some] s, where rec = "Interleaved r", OF default_head_says]
  let ?body = "decode_body_bytes ext (case si_body r of Some b \<Rightarrow> b | None \<Rightarrow> []) (si_is_base64_encoded r)"
  have "(q = hm_delete (si_id r) p \<or> q = hm_insert (si_id r) e' (hm_delete (si_id r) p)) \<and>
     (\<exists>bs. hist' = h @ bs \<and> (\<forall>x \<in> set bs. is_drop x \<or> (\<exists>b. x = SendBody (sp_body e') b \<and> ?body = Inr b)))"
    using assms(1) Some s drops_only by (fastforce simp: chunk_record_eq Let_def map_err_def split: sum.splits if_splits)
  then obtain bs where "q = hm_delete (si_id r) p \<or> q = hm_insert (si_id r) e' (hm_delete (si_id r) p)" "hist' = h @ bs"
    "\<forall>x \<in> set bs. is_drop x \<or> (\<exists>b. x = SendBody (sp_body e') b \<and> ?body = Inr b)" by blast
  then show ?thesis using assms(2) by (auto intro!: hw)
qed

lemma end_record_writes:
  assumes "end_record ext env n w el r p hist = ((q, hist'), res)" "si_record_type r = End"
  shows "writes ext {Interleaved r} p hist q hist'"
proof (cases "hm_get p (si_id r)")
  case None
  then show ?thesis using assms(1) by (simp add: end_record_def)
next
  case (Some e)
  obtain e' h b where s: "send_stream_head ext env n w el 200 [] [] e hist = ((e', h), b)" by (metis prod.collapse)
  have "q = hm_delete (si_id r) p" "hist' = h @ drop_pending e'"
    using assms(1) Some s by (auto simp: end_record_eq Let_def split: sum.splits)
  then show ?thesis using assms(2) drops_only
    by (auto intro!: head_writes [OF hm_get_SomeD [OF Some] s, where rec = "Interleaved r", OF default_head_says])
qed

lemma error_record_writes:
  assumes "error_record ext n w el r p hist = ((q, hist'), res)" "si_record_type r = Error"
  shows "writes ext {Interleaved r} p hist q hist'"
proof (cases "hm_get p (si_id r)")
  case None
  then show ?thesis using assms(1) by (simp add: error_record_def)
next
  case (Some e)
  let ?status = "case status_from_u16 ext (case si_status_code r of Some s \<Rightarrow> s | None \<Rightarrow> 502) of Inr s \<Rightarrow> s | Inl _ \<Rightarrow> BAD_GATEWAY"
  let ?sent = "case sp_init e of None \<Rightarrow> [] | Some init \<Rightarrow>
    [SendInit init (InitResponse (with_meta n w (Some el) (response_text ?status (error_message r))))]"
  have q: "q = hm_delete (si_id r) p" "hist' = hist @ ?sent @ [DropBody (sp_body e)]"
    using assms(1) Some by (auto simp: error_record_def Let_def error_message_def split: option.splits)
  have "carried ext {Interleaved r} p x" if sent: "x \<in> set (?sent @ [DropBody (sp_body e)])" for x
  proof (cases "x = DropBody (sp_body e)")
    case False
    then obtain init where x: "sp_init e = Some init"
        "x = SendInit init (InitResponse (with_meta n w (Some el) (response_text ?status (error_message r))))"
      using sent False by (cases "sp_init e") auto
    show ?thesis unfolding x(2)
      by (rule said [OF hm_get_SomeD [OF Some] _ singletonI]) (simp_all add: x(1) assms(2), blast)
  qed (simp add: carried_def)
  then show ?thesis unfolding q by (intro writes_outs) auto
qed

lemma record_writes:
  assumes "dispatch_stream_record ext env n w el rec p hist = ((q, hist'), res)"
  shows "writes ext {rec} p hist q hist'"
proof (cases rec)
  case (Legacy r)
  then show ?thesis using assms legacy_writes by (simp add: dispatch_stream_record_def)
next
  case (Interleaved r)
  then show ?thesis
    using assms head_record_writes chunk_record_writes end_record_writes error_record_writes
    by (cases "si_record_type r") (auto simp: dispatch_stream_record_def split: if_splits)
qed

subsection \<open>The whole stream\<close>

lemma made_502: "made_by_gateway (SendInit c (InitResponse (with_meta n w el (response_text BAD_GATEWAY msg))))"
  unfolding made_by_gateway_def by blast

lemma fail_all_made: "x \<in> set (fail_all_stream_impl p n w el BAD_GATEWAY msg) \<Longrightarrow> is_drop x \<or> made_by_gateway x"
  by (auto simp: fail_all_stream_impl_def fail_stream_entry_def made_502 split: option.splits)

lemma fail_rest_writes: "writes ext recs p hist p (fail_rest env n w msg p hist)"
  unfolding fail_rest_def by (intro writes_outs kept_refl ballI) (drule fail_all_made, auto simp: carried_def)

text \<open>The dispatch of a list of records, one after the other.\<close>

inductive records_run :: "ext_lib \<Rightarrow> stream_env \<Rightarrow> nat \<Rightarrow> u64 \<Rightarrow> stream_response_record list \<Rightarrow> stream_map \<Rightarrow> stream_log \<Rightarrow>
    stream_map \<Rightarrow> stream_log \<Rightarrow> bool"
  for ext env n w where
  no_record: "records_run ext env n w [] p hist p hist"
| next_record: "dispatch_stream_record ext env n w (elapsed env hist) rec p hist = ((q, h), res) \<Longrightarrow>
    records_run ext env n w recs q h r final \<Longrightarrow> records_run ext env n w (rec # recs) p hist r final"

lemma records_run_append:
  "records_run ext env n w xs p hist q h \<Longrightarrow> records_run ext env n w ys q h r final \<Longrightarrow> records_run ext env n w (xs @ ys) p hist r final"
  by (induction rule: records_run.induct) (auto intro: records_run.intros)

lemma run_writes: "records_run ext env n w recs p hist q h \<Longrightarrow> writes ext (set recs) p hist q h"
proof (induction rule: records_run.induct)
  case (next_record hist rec p q h res recs r final)
  have "writes ext (set (rec # recs)) p hist q h" by (rule writes_mono [OF record_writes [OF next_record(1)]]) simp
  moreover have "writes ext (set (rec # recs)) q h r final" by (rule writes_mono [OF next_record.IH]) auto
  ultimately show ?case by (rule writes_trans)
qed simp

text \<open>A dispatch that has ended worked off some of the records and then failed whoever was left.\<close>

definition ended_run :: "ext_lib \<Rightarrow> stream_env \<Rightarrow> nat \<Rightarrow> u64 \<Rightarrow> stream_response_record list \<Rightarrow> stream_map \<Rightarrow> stream_log \<Rightarrow> stream_log \<Rightarrow> bool" where
  "ended_run ext env n w recs p hist final \<longleftrightarrow>
     (\<exists>fin q h msg. prefix fin recs \<and> records_run ext env n w fin p hist q h \<and> final = fail_rest env n w msg q h)"

lemma ended_now: "ended_run ext env n w recs p hist (fail_rest env n w msg p hist)"
  unfolding ended_run_def by (intro exI [of _ "[]"] exI [of _ p] exI [of _ hist] exI [of _ msg]) (simp add: no_record)

lemma ended_later:
  assumes "records_run ext env n w xs p hist q h" "ended_run ext env n w ys q h final"
  shows "ended_run ext env n w (xs @ ys) p hist final"
proof -
  obtain fin r h' msg where "prefix fin ys" "records_run ext env n w fin q h r h'" "final = fail_rest env n w msg r h'"
    using assms(2) by (auto simp: ended_run_def)
  then show ?thesis unfolding ended_run_def
    using records_run_append [OF assms(1)] by (intro exI [of _ "xs @ fin"] exI [of _ r] exI [of _ h'] exI [of _ msg]) auto
qed

lemma ended_more:
  assumes "ended_run ext env n w recs p hist final" "prefix recs recs'"
  shows "ended_run ext env n w recs' p hist final"
proof -
  obtain fin q h msg where f: "prefix fin recs" "records_run ext env n w fin p hist q h" "final = fail_rest env n w msg q h"
    using assms unfolding ended_run_def by blast
  have "prefix fin recs'" using f(1) assms(2) by (rule prefix_order.order_trans)
  then show ?thesis unfolding ended_run_def using f(2,3) by blast
qed

lemma one_record:
  "dispatch_stream_record ext env n w (elapsed env hist) rec p hist = ((q, h), res) \<Longrightarrow> records_run ext env n w [rec] p hist q h"
  by (rule next_record [OF _ no_record])

lemma process_line_run:
  assumes "line \<noteq> []"
  shows "(case process_line ext env n w line p hist of
      Inl final \<Rightarrow> ended_run ext env n w (records_in ext [line]) p hist final
    | Inr (q, h) \<Rightarrow> readable ext line \<and> records_run ext env n w (records_in ext [line]) p hist q h)"
proof (cases "parse_stream_record ext line")
  case (Inl err)
  then show ?thesis by (simp add: process_line_def ended_now)
next
  case (Inr rec)
  obtain q h r where d: "dispatch_stream_record ext env n w (elapsed env hist) rec p hist = ((q, h), r)" by (metis prod.collapse)
  note one = one_record [OF d]
  show ?thesis using one ended_later [OF one ended_now [where recs = "[]"]] assms
    by (cases r) (simp_all add: process_line_def Inr d readable_def)
qed

lemma split_on_none: "split_once c s = None \<Longrightarrow> split_on c s = [s]"
  by (induction s) (auto split: if_splits option.splits)

lemma split_on_some: "split_once c s = Some (a, b) \<Longrightarrow> split_on c s = a # split_on c b"
  by (induction s arbitrary: a) (auto split: if_splits option.splits list.splits)

text \<open>The complete lines of a buffer and what is left of it.\<close>

lemma drain_run:
  "(case drain_lines ext env n w buf p hist of
      Inl final \<Rightarrow> ended_run ext env n w (records_in ext (map strip_cr (butlast (split_on newline buf)))) p hist final
    | Inr (rest, q, h) \<Rightarrow> rest = last (split_on newline buf) \<and> list_all (readable ext) (map strip_cr (butlast (split_on newline buf))) \<and>
        records_run ext env n w (records_in ext (map strip_cr (butlast (split_on newline buf)))) p hist q h)"
proof (induction ext env n w buf p hist rule: drain_lines.induct)
  case (1 ext env n w buf p hist)
  show ?case
  proof (cases "split_once newline buf")
    case None
    then show ?thesis by (simp add: drain_lines.simps [of ext env n w buf] split_on_none no_record)
  next
    case (Some lr)
    obtain line rest where lr: "lr = (line, rest)" by (cases lr)
    note s = Some [unfolded lr]
    have pieces: "butlast (split_on newline buf) = line # butlast (split_on newline rest)" "last (split_on newline buf) = last (split_on newline rest)"
      by (simp_all add: split_on_some [OF s])
    let ?lines = "\<lambda>b. map strip_cr (butlast (split_on newline b))"
    have ls: "?lines buf = [strip_cr line] @ ?lines rest" by (simp add: pieces(1))
    show ?thesis
    proof (cases "strip_cr line = []")
      case True
      then have d: "drain_lines ext env n w buf p hist = drain_lines ext env n w rest p hist"
        using s by (simp add: drain_lines.simps [of ext env n w buf])
      have r: "records_in ext (?lines buf) = records_in ext (?lines rest)"
          "list_all (readable ext) (?lines buf) = list_all (readable ext) (?lines rest)"
        by (simp_all add: ls True readable_def)
      show ?thesis unfolding d r pieces(2) by (rule "1.IH"(1) [OF s refl True])
    next
      case False
      note line_run = process_line_run [OF False, where ext = ext and env = env and n = n and w = w and p = p and hist = hist]
      show ?thesis
      proof (cases "process_line ext env n w (strip_cr line) p hist")
        case (Inl final)
        then have d: "drain_lines ext env n w buf p hist = Inl final" using s False by (simp add: drain_lines.simps [of ext env n w buf])
        have "ended_run ext env n w (records_in ext [strip_cr line]) p hist final" using line_run by (simp only: Inl sum.case)
        then show ?thesis unfolding d sum.case ls by (rule ended_more [OF _ records_in_prefix])
      next
        case (Inr qh)
        obtain q h where qh: "qh = (q, h)" by (cases qh)
        have d: "drain_lines ext env n w buf p hist = drain_lines ext env n w rest q h"
          using s False Inr qh by (simp add: drain_lines.simps [of ext env n w buf])
        have first: "readable ext (strip_cr line)" "records_run ext env n w (records_in ext [strip_cr line]) p hist q h"
          using line_run by (simp_all only: Inr qh sum.case prod.case)
        have recs: "records_in ext (?lines buf) = records_in ext [strip_cr line] @ records_in ext (?lines rest)"
            "list_all (readable ext) (?lines buf) = list_all (readable ext) (?lines rest)"
          unfolding ls by (rule records_in_append) (use first(1) in simp_all)
        note ih = "1.IH"(2) [OF s refl False Inr qh [symmetric]]
        show ?thesis
        proof (cases "drain_lines ext env n w rest q h")
          case (Inl final)
          then show ?thesis using ended_later [OF first(2), of _ final] ih by (simp only: d pieces(2) recs sum.case)
        next
          case (Inr x)
          obtain rest' r h' where x: "x = (rest', r, h')" by (cases x)
          show ?thesis using records_run_append [OF first(2), of _ r h'] ih unfolding d pieces(2) recs Inr x sum.case prod.case by blast
        qed
      qed
    qed
  qed
qed

lemma split_on_append: "split_on c (a @ b) = butlast (split_on c a) @ split_on c (last (split_on c a) @ b)"
proof (induction a)
  case (Cons x a)
  obtain y ys where a: "split_on c a = y # ys" by (cases "split_on c a") simp_all
  show ?case
  proof (cases "ys = []")
    case True
    then show ?thesis using Cons a by (auto split: list.split)
  next
    case False
    then show ?thesis using Cons a by (auto split: list.split)
  qed
qed simp

lemma seen_chunk:
  "seen_lines buf (Inr chunk # stream) =
     map strip_cr (butlast (split_on newline (buf @ chunk))) @ seen_lines (last (split_on newline (buf @ chunk))) stream"
  using split_on_append [of newline "buf @ chunk" "received_text stream"]
  by (simp add: seen_lines_def Let_def ends_cleanly_def butlast_append)

lemma stream_loop_run:
  "newline \<notin> set buf \<Longrightarrow>
     ended_run ext env n w (records_in ext (seen_lines buf stream)) p hist (stream_loop ext env n w stream buf p hist)"
proof (induction stream arbitrary: buf p hist)
  case Nil
  have seen: "seen_lines buf [] = [strip_eol buf]"
    using Nil by (simp add: seen_lines_def split_on_none split_once_None ends_cleanly_def)
  show ?case
  proof (cases "strip_eol buf = []")
    case True
    then show ?thesis by (simp add: finish_stream_def ended_now)
  next
    case False
    note line_run = process_line_run [OF False, where ext = ext and env = env and n = n and w = w and p = p and hist = hist]
    show ?thesis
    proof (cases "process_line ext env n w (strip_eol buf) p hist")
      case (Inl final)
      then show ?thesis using line_run False by (simp add: finish_stream_def seen)
    next
      case (Inr x)
      obtain q h where x: "x = (q, h)" by (cases x)
      have "records_run ext env n w (records_in ext [strip_eol buf]) p hist q h" using line_run by (simp add: Inr x)
      from ended_later [OF this ended_now [where recs = "[]"]] show ?thesis using False Inr x by (simp add: finish_stream_def seen)
    qed
  qed
next
  case (Cons item stream)
  show ?case
  proof (cases item)
    case (Inl err)
    then show ?thesis by (simp add: ended_now)
  next
    case (Inr chunk)
    show ?thesis
    proof (cases "length (buf @ chunk) > MAX_BUFFER_BYTES")
      case True
      then show ?thesis using Inr by (simp add: ended_now)
    next
      case False
      note d = drain_run [where ext = ext and env = env and n = n and w = w and buf = "buf @ chunk" and p = p and hist = hist]
      show ?thesis
      proof (cases "drain_lines ext env n w (buf @ chunk) p hist")
        case (Inl final)
        then have "ended_run ext env n w (records_in ext (seen_lines buf (item # stream))) p hist final"
          using d ended_more [OF _ records_in_prefix] unfolding \<open>item = Inr chunk\<close> seen_chunk by simp
        then show ?thesis using False Inl \<open>item = Inr chunk\<close> by simp
      next
        case (Inr y)
        obtain rest q h where y: "y = (rest, q, h)" by (cases y)
        have r: "rest = last (split_on newline (buf @ chunk))" "list_all (readable ext) (map strip_cr (butlast (split_on newline (buf @ chunk))))"
            "records_run ext env n w (records_in ext (map strip_cr (butlast (split_on newline (buf @ chunk))))) p hist q h"
          using d by (simp_all add: Inr y)
        have nl: "newline \<notin> set rest" using split_on_no_sep [of rest newline "buf @ chunk"] r(1) by simp
        have "ended_run ext env n w (records_in ext (seen_lines buf (item # stream))) p hist (stream_loop ext env n w stream rest q h)"
          unfolding \<open>item = Inr chunk\<close> seen_chunk records_in_append [OF r(2)] r(1) [symmetric] by (rule ended_later [OF r(3) Cons.IH [OF nl]])
        then show ?thesis using False Inr y \<open>item = Inr chunk\<close> by (simp del: append_assoc)
      qed
    qed
  qed
qed

lemma dispatch_stream_run:
  "ended_run ext env (length pending) w (records_in ext (seen_lines [] stream)) pending [] (dispatch_response_stream_impl ext env key w stream pending)"
  unfolding dispatch_response_stream_impl_def by (rule stream_loop_run) simp

lemma dispatch_stream_carried:
  assumes "x \<in> set (dispatch_response_stream_impl ext env key w stream pending)"
  shows "carried ext (set (records_in ext (seen_lines [] stream))) pending x"
proof -
  obtain fin q h msg where f: "prefix fin (records_in ext (seen_lines [] stream))"
    "records_run ext env (length pending) w fin pending [] q h"
    "dispatch_response_stream_impl ext env key w stream pending = fail_rest env (length pending) w msg q h"
    using dispatch_stream_run [of ext env pending w stream key] unfolding ended_run_def by blast
  have "writes ext (set fin) pending [] q (fail_rest env (length pending) w msg q h)"
    by (rule writes_trans [OF run_writes [OF f(2)] fail_rest_writes])
  then have "carried ext (set fin) pending x" using assms unfolding f(3) writes_def by auto
  then show ?thesis using carried_mono set_mono_prefix [OF f(1)] by blast
qed

text \<open>C11: Streamed data never crosses callers. Whatever the function writes and however the stream ends, every response,
  head and body part on the channels of a caller was said by a record of the stream with the id of that caller's
  request (a legacy record's response, a head or the default one, an error record's message, the decoded body of a
  chunk); the only other thing it can see is the gateway's own 502.\<close>

theorem stream_caller_own_records:
  assumes "separate pending" "(i, e) \<in> set pending" "concerns e x" "\<not> is_drop x"
    and "x \<in> set (dispatch_response_stream_impl ext env key wait_ms stream pending)"
  shows "made_by_gateway x \<or> (\<exists>rec \<in> set (records_in ext (seen_lines [] stream)). record_id_of rec = i \<and> says ext rec x)"
proof (rule disjCI)
  assume none: "\<not> (\<exists>rec \<in> set (records_in ext (seen_lines [] stream)). record_id_of rec = i \<and> says ext rec x)"
  show "made_by_gateway x"
  proof (rule ccontr)
    assume "\<not> made_by_gateway x"
    then obtain j e' rec where r: "(j, e') \<in> set pending" "concerns e' x" "rec \<in> set (records_in ext (seen_lines [] stream))"
      "record_id_of rec = j" "says ext rec x"
      using dispatch_stream_carried [OF assms(5)] assms(4) unfolding carried_def by blast
    have "j \<noteq> i" using none r(3-5) by blast
    then show False using separate_concerns [OF assms(1) r(1) assms(2), of x] r(2) assms(3) by simp
  qed
qed

text \<open>For an example: a line is the id of a record whose body is the id.\<close>

definition line_id_ext :: ext_lib where
  "line_id_ext = example_ext\<lparr>json_from_slice := \<lambda>b. Inr (JString b),
     legacy_from_value := \<lambda>v. case v of JString b \<Rightarrow> Inr \<lparr>sl_v = 1, sl_id = b, sl_status_code = 200, sl_headers = [],
       sl_cookies = [], sl_body = b, sl_is_base64_encoded = False\<rparr> | _ \<Rightarrow> Inl ''no record''\<rparr>"

theorem stream_caller_own_records_witness:
  "\<exists>x. x \<in> set (dispatch_response_stream_impl line_id_ext example_stream_env example_key 5 [Inr ''b'', Inr [newline], Inl ''reset''] example_callers) \<and>
     concerns \<lparr>sp_init = Some 3, sp_body = 4\<rparr> x \<and> \<not> is_drop x \<and>
     (made_by_gateway x \<or> (\<exists>rec \<in> set (records_in line_id_ext (seen_lines [] [Inr ''b'', Inr [newline], Inl ''reset''])). record_id_of rec = ''b'' \<and> says line_id_ext rec x))"
proof -
  let ?stream = "[Inr ''b'', Inr [newline], Inl ''reset'']"
  have "\<exists>r. SendInit 3 r \<in> set (dispatch_response_stream_impl line_id_ext example_stream_env example_key 5 ?stream example_callers)"
    by (simp add: dispatch_response_stream_impl_def drain_lines.simps strip_cr_def process_line_def parse_stream_record_def line_id_ext_def
        example_ext_def dispatch_stream_record_def legacy_record_def example_callers_def hm_get_def build_gateway_response_parts_def map_err_def
        headers_from_map_def decode_body_bytes_def MAX_BUFFER_BYTES_def Let_def fail_rest_def)
      blast
  then obtain r where r: "SendInit 3 r \<in> set (dispatch_response_stream_impl line_id_ext example_stream_env example_key 5 ?stream example_callers)" by blast
  have p: "separate example_callers" "(''b'', \<lparr>sp_init = Some 3, sp_body = 4\<rparr>) \<in> set example_callers"
    by (simp_all add: example_callers_def separate_def)
  have c: "concerns \<lparr>sp_init = Some 3, sp_body = 4\<rparr> (SendInit 3 r)" "\<not> is_drop (SendInit 3 r)" by simp_all
  show ?thesis using stream_caller_own_records [OF p c r] r c by blast
qed

end
