(* ===== verification/Backpressure.thy ===== *)
theory Backpressure
  imports Stream_Own
begin

text \<open>
  The body channels of the streaming callers (\<open>server.rs\<close>: \<open>mpsc::channel(32)\<close>) and the awaited send of
  \<open>response_dispatch/stream.rs\<close>. \<open>Stream_Dispatch\<close> computes what the dispatcher does to the channels, in order; here
  that order of operations is carried out one by one against channels with bounded room: a chunk for a full channel waits
  until its client takes one, or goes away, in which case the send fails (that is what \<open>alive\<close> says of it). The clients
  take chunks at any moment, or never.
\<close>

subsection \<open>The channels\<close>

definition BODY_CHANNEL_CAPACITY :: nat where
  "BODY_CHANNEL_CAPACITY = 32"

text \<open>The operations the dispatcher has still to do and those done; the chunks in the channels and those the clients took,
  each with its channel, in the order they were sent or taken.\<close>

record delivery =
  dv_todo :: stream_log
  dv_done :: stream_log
  dv_channels :: "(chan \<times> bytes) list"
  dv_taken :: "(chan \<times> bytes) list"

definition on_channel :: "chan \<Rightarrow> (chan \<times> bytes) list \<Rightarrow> bytes list" where
  "on_channel c xs = map snd (filter (\<lambda>m. fst m = c) xs)"

datatype delivery_event = Operate | ClientTakes chan

fun delivery_step :: "stream_env \<Rightarrow> delivery \<Rightarrow> delivery_event \<Rightarrow> (delivery \<times> stream_log) option" where
  "delivery_step env d Operate =
     (case dv_todo d of
        [] \<Rightarrow> None
      | x # todo \<Rightarrow>
          let hist = dv_done d @ [x]; d' = d\<lparr>dv_todo := todo, dv_done := hist\<rparr> in
          (case x of
             SendBody c bs \<Rightarrow>
               if \<not> alive env hist then Some (d', [x])
               else if length (on_channel c (dv_channels d)) < BODY_CHANNEL_CAPACITY
               then Some (d'\<lparr>dv_channels := dv_channels d @ [(c, bs)]\<rparr>, [x])
               else None
           | _ \<Rightarrow> Some (d', [x])))"
| "delivery_step env d (ClientTakes c) =
     (case List.extract (\<lambda>m. fst m = c) (dv_channels d) of
        None \<Rightarrow> None
      | Some (before, m, after) \<Rightarrow>
          Some (d\<lparr>dv_channels := before @ after, dv_taken := dv_taken d @ [m]\<rparr>, []))"

definition delivery_start :: "stream_log \<Rightarrow> delivery" where
  "delivery_start operations = \<lparr>dv_todo = operations, dv_done = [], dv_channels = [], dv_taken = []\<rparr>"

text \<open>The chunks that go into a channel: those sent while the client was there.\<close>

fun accepted_from :: "stream_env \<Rightarrow> chan \<Rightarrow> stream_log \<Rightarrow> stream_log \<Rightarrow> bytes list" where
  "accepted_from env c hist [] = []"
| "accepted_from env c hist (x # xs) =
     (case x of SendBody c' bs \<Rightarrow> if c' = c \<and> alive env (hist @ [x]) then [bs] else [] | _ \<Rightarrow> []) @
     accepted_from env c (hist @ [x]) xs"

abbreviation accepted_chunks :: "stream_env \<Rightarrow> chan \<Rightarrow> stream_log \<Rightarrow> bytes list" where
  "accepted_chunks env c xs \<equiv> accepted_from env c [] xs"


subsection \<open>Lemmas\<close>

lemma on_channel_simps [simp]:
  "on_channel c [] = []"
  "on_channel c (m # xs) = (if fst m = c then snd m # on_channel c xs else on_channel c xs)"
  "on_channel c (xs @ ys) = on_channel c xs @ on_channel c ys"
  by (simp_all add: on_channel_def)

lemma on_channel_none: "\<forall>m \<in> set xs. fst m \<noteq> c \<Longrightarrow> on_channel c xs = []"
  by (induction xs) auto

lemma accepted_from_append [simp]:
  "accepted_from env c hist (xs @ ys) = accepted_from env c hist xs @ accepted_from env c (hist @ xs) ys"
  by (induction xs arbitrary: hist) auto

text \<open>An operation, and a chunk taken.\<close>

lemma operate_cases:
  assumes "delivery_step env d Operate = Some (d', outs)"
  obtains x todo where "dv_todo d = x # todo" "dv_todo d' = todo" "dv_done d' = dv_done d @ [x]" "outs = [x]"
    "dv_taken d' = dv_taken d"
    "\<And>c. on_channel c (dv_channels d') = on_channel c (dv_channels d) @ accepted_from env c (dv_done d) [x]"
    "length (dv_channels d') \<le> length (dv_channels d) + 1"
    "\<And>c. length (on_channel c (dv_channels d)) \<le> BODY_CHANNEL_CAPACITY \<Longrightarrow>
       length (on_channel c (dv_channels d')) \<le> BODY_CHANNEL_CAPACITY"
proof -
  obtain x todo where x: "dv_todo d = x # todo" using assms by (cases "dv_todo d") auto
  show ?thesis
  proof (rule that [OF x])
    show "dv_todo d' = todo" "dv_done d' = dv_done d @ [x]" "outs = [x]" "dv_taken d' = dv_taken d"
      "length (dv_channels d') \<le> length (dv_channels d) + 1"
      using assms x by (auto simp: Let_def split: stream_out.splits if_splits)
    show "on_channel c (dv_channels d') = on_channel c (dv_channels d) @ accepted_from env c (dv_done d) [x]" for c
      using assms x by (auto simp: Let_def split: stream_out.splits if_splits)
    show "length (on_channel c (dv_channels d')) \<le> BODY_CHANNEL_CAPACITY"
      if "length (on_channel c (dv_channels d)) \<le> BODY_CHANNEL_CAPACITY" for c
      using assms x that by (auto simp: Let_def split: stream_out.splits if_splits)
  qed
qed

lemma takes_cases:
  assumes "delivery_step env d (ClientTakes c) = Some (d', outs)"
  obtains xs bs ys where "dv_channels d = xs @ (c, bs) # ys" "on_channel c xs = []" "dv_channels d' = xs @ ys"
    "dv_taken d' = dv_taken d @ [(c, bs)]" "dv_todo d' = dv_todo d" "dv_done d' = dv_done d" "outs = []"
proof -
  obtain xs m ys where e: "List.extract (\<lambda>m. fst m = c) (dv_channels d) = Some (xs, m, ys)"
    using assms by (auto split: option.splits)
  then have m: "dv_channels d = xs @ m # ys" "fst m = c" "\<forall>y \<in> set xs. fst y \<noteq> c" by (auto simp: extract_Some_iff)
  show ?thesis using assms e m that [of xs "snd m" ys] on_channel_none [OF m(3)] by (cases m) auto
qed

definition delivery_inv :: "stream_env \<Rightarrow> stream_log \<Rightarrow> delivery \<Rightarrow> bool" where
  "delivery_inv env operations d \<longleftrightarrow> dv_done d @ dv_todo d = operations \<and>
     (\<forall>c. length (on_channel c (dv_channels d)) \<le> BODY_CHANNEL_CAPACITY \<and>
        on_channel c (dv_taken d) @ on_channel c (dv_channels d) = accepted_chunks env c (dv_done d))"

lemma delivery_start_inv: "delivery_inv env operations (delivery_start operations)"
  by (simp add: delivery_inv_def delivery_start_def)

lemma delivery_inv_step:
  assumes "delivery_inv env operations d" "delivery_step env d e = Some (d', outs)"
  shows "delivery_inv env operations d'"
proof (cases e)
  case Operate
  with assms(2) have "delivery_step env d Operate = Some (d', outs)" by simp
  then show ?thesis
  proof (cases rule: operate_cases)
    case (1 x todo)
    have "length (on_channel c (dv_channels d')) \<le> BODY_CHANNEL_CAPACITY" for c
      using 1(8) [of c] assms(1) by (auto simp: delivery_inv_def)
    moreover have "on_channel c (dv_taken d') @ on_channel c (dv_channels d') = accepted_chunks env c (dv_done d')" for c
    proof -
      have "on_channel c (dv_taken d) @ on_channel c (dv_channels d) = accepted_chunks env c (dv_done d)"
        using assms(1) by (simp add: delivery_inv_def)
      then show ?thesis unfolding 1(3,5,6) accepted_from_append by (metis append_Nil append_assoc)
    qed
    ultimately show ?thesis using assms(1) 1(1-3) by (simp add: delivery_inv_def)
  qed
next
  case (ClientTakes c)
  with assms(2) have "delivery_step env d (ClientTakes c) = Some (d', outs)" by simp
  then show ?thesis
  proof (cases rule: takes_cases)
    case (1 xs bs ys)
    have inv: "length (on_channel k (dv_channels d)) \<le> BODY_CHANNEL_CAPACITY"
      "on_channel k (dv_taken d) @ on_channel k (dv_channels d) = accepted_chunks env k (dv_done d)" for k
      using assms(1) by (simp_all add: delivery_inv_def)
    have "length (on_channel k (dv_channels d')) \<le> BODY_CHANNEL_CAPACITY" for k
      using inv(1) [of k] 1(1,3) by (auto split: if_splits)
    moreover have "on_channel k (dv_taken d') @ on_channel k (dv_channels d') = accepted_chunks env k (dv_done d')" for k
      using inv(2) [of k] 1(1-4,6) by (auto split: if_splits)
    ultimately show ?thesis using assms(1) 1(5,6) by (simp add: delivery_inv_def)
  qed
qed

text \<open>Every step uses up one of finitely many operations and takes.\<close>

definition delivery_work :: "delivery \<Rightarrow> nat" where
  "delivery_work d = 2 * length (dv_todo d) + length (dv_channels d)"

lemma delivery_work_step: "delivery_step env d e = Some (d', outs) \<Longrightarrow> delivery_work d' < delivery_work d"
  by (cases e) (auto elim!: operate_cases takes_cases simp: delivery_work_def simp del: delivery_step.simps)

lemma delivery_run:
  assumes "delivery_inv env operations d" "run (delivery_step env) d es = Some (d', outs)"
  shows "delivery_inv env operations d'" "length es + delivery_work d' \<le> delivery_work d"
proof -
  have "delivery_inv env operations d' \<and> length es + delivery_work d' \<le> delivery_work d" using assms
  proof (induction es arbitrary: d outs)
    case (Cons e es)
    from Cons.prems(2) obtain d1 o1 o2 where s: "delivery_step env d e = Some (d1, o1)"
      "run (delivery_step env) d1 es = Some (d', o2)" by (rule run_ConsE)
    show ?case using Cons.IH [OF delivery_inv_step [OF Cons.prems(1) s(1)] s(2)] delivery_work_step [OF s(1)] by simp
  qed simp
  then show "delivery_inv env operations d'" "length es + delivery_work d' \<le> delivery_work d" by auto
qed



text \<open>A client that takes nothing.\<close>

lemma takes_nothing:
  "run (delivery_step env) d es = Some (d', outs) \<Longrightarrow> ClientTakes c \<notin> set es \<Longrightarrow>
   on_channel c (dv_taken d') = on_channel c (dv_taken d)"
proof (induction es arbitrary: d outs)
  case (Cons e es)
  from Cons.prems(1) obtain d1 o1 o2 where s: "delivery_step env d e = Some (d1, o1)"
    "run (delivery_step env) d1 es = Some (d', o2)" by (rule run_ConsE)
  have "on_channel c (dv_taken d1) = on_channel c (dv_taken d)"
    using s(1) Cons.prems(2) by (cases e) (auto elim!: operate_cases takes_cases simp del: delivery_step.simps)
  then show ?case using Cons.IH [OF s(2)] Cons.prems(2) by simp
qed simp

subsection \<open>Properties\<close>


text \<open>For the examples: every line is a chunk record, and its first byte the id of the caller it is for.\<close>

definition chunk_line_ext :: ext_lib where
  "chunk_line_ext = example_ext\<lparr>json_from_slice := \<lambda>b. Inr (JObject [(''type'', JString b)]),
     interleaved_from_value := \<lambda>v. case json_get v ''type'' of
         Some (JString b) \<Rightarrow> Inr \<lparr>si_v = 1, si_id = take 1 b, si_record_type = Chunk, si_status_code = None, si_headers = [],
            si_cookies = [], si_body = Some b, si_is_base64_encoded = False, si_message = None\<rparr>
       | _ \<Rightarrow> Inl ''no record''\<rparr>"

lemma chunk_line_parsed:
  "parse_stream_record chunk_line_ext b = Inr (Interleaved \<lparr>si_v = 1, si_id = take 1 b, si_record_type = Chunk,
     si_status_code = None, si_headers = [], si_cookies = [], si_body = Some b, si_is_base64_encoded = False, si_message = None\<rparr>)"
  by (simp add: parse_stream_record_def chunk_line_ext_def map_err_def hm_get_def)

lemma chunk_line_sent:
  assumes "hm_get pending (take 1 b) = Some e" "sp_init e = None" "alive env (hist @ [SendBody (sp_body e) b])"
  shows "dispatch_stream_record chunk_line_ext env n w el (Interleaved \<lparr>si_v = 1, si_id = take 1 b, si_record_type = Chunk,
     si_status_code = None, si_headers = [], si_cookies = [], si_body = Some b, si_is_base64_encoded = False, si_message = None\<rparr>)
     pending hist = ((hm_insert (take 1 b) e (hm_delete (take 1 b) pending), hist @ [SendBody (sp_body e) b]), Inr ())"
  using assms by (simp add: dispatch_stream_record_def chunk_record_def decode_body_bytes_def map_err_def Let_def)

lemma chunk_line_loop:
  assumes "hm_get pending (take 1 b) = Some e" "sp_init e = None" "b \<noteq> []" "newline \<notin> set b" "last b \<noteq> carriage"
    "length b < MAX_BUFFER_BYTES" "alive env (hist @ [SendBody (sp_body e) b])"
  shows "stream_loop chunk_line_ext env n w (Inr (b @ [newline]) # stream) [] pending hist =
    stream_loop chunk_line_ext env n w stream [] (hm_insert (take 1 b) e (hm_delete (take 1 b) pending)) (hist @ [SendBody (sp_body e) b])"
proof -
  have "split_once newline (b @ [newline]) = Some (b, [])" using assms(4) by (simp add: split_once_Some)
  moreover have "split_once newline [] = None" by simp
  moreover have "strip_cr b = b" using assms(3,5) by (simp add: strip_cr_def)
  ultimately show ?thesis using assms(3,6) chunk_line_sent [OF assms(1,2,7)]
    by (simp add: drain_lines.simps process_line_def chunk_line_parsed)
qed


subsection \<open>A client that does not read holds up its batch\<close>

text \<open>While a client whose connection is open takes nothing, the dispatcher gets no further than its 33rd chunk: what
  comes after it, for whichever caller of the batch, is not sent.\<close>

theorem unread_body_holds_up_batch:
  assumes "run (delivery_step env) (delivery_start (dispatch_response_stream_impl ext env key wait_ms stream pending)) es =
      Some (d, outs)" "ClientTakes c \<notin> set es"
    and "dispatch_response_stream_impl ext env key wait_ms stream pending = before @ SendBody c bs # after"
    and "alive env (before @ [SendBody c bs])" "length (accepted_chunks env c before) = 32"
  shows "\<exists>k. dv_done d = take k before"
proof -
  note inv = delivery_run(1) [OF delivery_start_inv assms(1)]
  have "on_channel c (dv_taken d) = []" using takes_nothing [OF assms(1,2)] by (simp add: delivery_start_def)
  then have full: "length (accepted_chunks env c (dv_done d)) \<le> 32"
    using inv unfolding delivery_inv_def BODY_CHANNEL_CAPACITY_def by (metis append_Nil)
  have ops: "dv_done d @ dv_todo d = before @ SendBody c bs # after" using inv assms(3) by (simp add: delivery_inv_def)
  consider rest where "dv_done d = before @ rest" "rest @ dv_todo d = SendBody c bs # after" | rest where "dv_done d @ rest = before"
    using ops by (auto simp: append_eq_append_conv2)
  then show ?thesis
  proof cases
    case 1
    then have "rest = []" using full assms(4,5) by (cases rest) auto
    then show ?thesis using 1(1) by (intro exI [of _ "length before"]) simp
  next
    case 2
    then show ?thesis by (intro exI [of _ "length (dv_done d)"]) auto
  qed
qed

lemma chunk_lines_loop:
  assumes "hm_get pending (take 1 b) = Some e" "sp_init e = None" "b \<noteq> []" "newline \<notin> set b" "last b \<noteq> carriage"
    "length b < MAX_BUFFER_BYTES" "hm_ok pending"
  shows "\<exists>p. hm_ok p \<and> stream_loop chunk_line_ext example_stream_env n w (replicate k (Inr (b @ [newline])) @ stream) [] pending hist =
    stream_loop chunk_line_ext example_stream_env n w stream [] p (hist @ replicate k (SendBody (sp_body e) b))"
  using assms(1,7)
proof (induction k arbitrary: pending hist)
  case (Suc k)
  let ?p = "hm_insert (take 1 b) e (hm_delete (take 1 b) pending)"
  have "alive example_stream_env h" for h by (simp add: example_stream_env_def)
  from chunk_line_loop [OF Suc.prems(1) assms(2-6) this] show ?case
    using Suc.IH [of ?p "hist @ [SendBody (sp_body e) b]"] Suc.prems(2) by simp
qed auto

text \<open>An example: the answer for \<open>a\<close> comes after 33 chunks for \<open>b\<close>, whose client does not read.\<close>

theorem held_up_example:
  assumes "run (delivery_step example_stream_env) (delivery_start (dispatch_response_stream_impl chunk_line_ext
      example_stream_env example_key 5 (Inr (''b'' @ [newline]) # replicate 32 (Inr (''b'' @ [newline])) @ stream) example_callers)) es = Some (d, outs)"
    and "ClientTakes 4 \<notin> set es"
  shows "\<forall>x \<in> set (dv_done d). \<not> concerns \<lparr>sp_init = Some 1, sp_body = 2\<rparr> x"
proof -
  let ?p = "hm_insert ''b'' \<lparr>sp_init = None, sp_body = 4\<rparr> [(''a'', \<lparr>sp_init = Some 1, sp_body = 2\<rparr>)]"
  have ok: "hm_get ?p (take 1 ''b'') = Some \<lparr>sp_init = None, sp_body = 4\<rparr>" "hm_ok ?p" by simp_all
  have "\<exists>h. dispatch_response_stream_impl chunk_line_ext example_stream_env example_key 5 (Inr (''b'' @ [newline]) # rest) example_callers =
      stream_loop chunk_line_ext example_stream_env (Suc (Suc 0)) 5 rest [] ?p [SendInit 3 h, SendBody 4 ''b'']" for rest
    by (simp add: dispatch_response_stream_impl_def drain_lines.simps strip_cr_def process_line_def parse_stream_record_def chunk_line_ext_def
        example_ext_def dispatch_stream_record_def chunk_record_def send_stream_head_def example_callers_def hm_get_def map_err_def
        headers_from_map_def decode_body_bytes_def MAX_BUFFER_BYTES_def Let_def example_stream_env_def hm_insert_def)
      blast
  then obtain h where 1: "dispatch_response_stream_impl chunk_line_ext example_stream_env example_key 5 (Inr (''b'' @ [newline]) # replicate 32 (Inr (''b'' @ [newline])) @ stream)
        example_callers = stream_loop chunk_line_ext example_stream_env (Suc (Suc 0)) 5 (replicate 32 (Inr (''b'' @ [newline])) @ stream) []
          ?p [SendInit 3 h, SendBody 4 ''b'']" by blast
  obtain q where "hm_ok q" and 2: "stream_loop chunk_line_ext example_stream_env (Suc (Suc 0)) 5 (replicate 32 (Inr (''b'' @ [newline])) @ stream) []
          ?p [SendInit 3 h, SendBody 4 ''b''] =
      stream_loop chunk_line_ext example_stream_env (Suc (Suc 0)) 5 stream [] q ([SendInit 3 h, SendBody 4 ''b''] @ replicate 32 (SendBody 4 ''b''))"
    using chunk_lines_loop [OF ok(1) _ _ _ _ _ ok(2), where k = 32 and n = "Suc (Suc 0)" and w = 5 and stream = stream and hist = "[SendInit 3 h, SendBody 4 ''b'']"]
    by (auto simp: MAX_BUFFER_BYTES_def)
  from stream_loop_finishes [OF this(1)] obtain after where 3:
    "stream_loop chunk_line_ext example_stream_env (Suc (Suc 0)) 5 stream [] q ([SendInit 3 h, SendBody 4 ''b''] @ replicate 32 (SendBody 4 ''b'')) =
      ([SendInit 3 h, SendBody 4 ''b''] @ replicate 32 (SendBody 4 ''b'')) @ after" unfolding finishes_def moves_to_def snd_conv by blast
  let ?before = "SendInit 3 h # replicate 32 (SendBody 4 ''b'')"
  have ops: "dispatch_response_stream_impl chunk_line_ext example_stream_env example_key 5 (Inr (''b'' @ [newline]) # replicate 32 (Inr (''b'' @ [newline])) @ stream)
      example_callers = ?before @ SendBody 4 ''b'' # after"
    unfolding 1 2 3 by (simp add: replicate_app_Cons_same)
  have "accepted_from example_stream_env 4 hist (replicate k (SendBody 4 ''b'')) = replicate k ''b''" for k hist
    by (induction k arbitrary: hist) (simp_all add: example_stream_env_def)
  then have "length (accepted_chunks example_stream_env 4 ?before) = 32" by simp
  from unread_body_holds_up_batch [OF assms ops _ this] obtain k where "dv_done d = take k ?before"
    by (auto simp: example_stream_env_def)
  then show ?thesis by (auto dest!: in_set_takeD)
qed

end
