(* ===== verification/Linear.thy ===== *)
theory Linear
  imports Manager
begin

text \<open>
  \<open>BatcherManager::enqueue\<close> as seen by its callers: while no batcher task ends, the map, its channels and the calls
  that run on many threads behave like one FIFO queue of bounded length per batch key on which \<open>enqueue\<close> and
  \<open>recv\<close> act atomically. (With ending tasks they do not: \<open>idle_eviction_races\<close>.)
\<close>

subsection \<open>Atomic queues\<close>

text \<open>\<open>Enq i k req r\<close>: the call of thread \<open>i\<close> takes effect with result \<open>r\<close>; \<open>Deq k req\<close>: the task of \<open>k\<close> takes \<open>req\<close>.\<close>

datatype queue_action =
    Enq nat batch_key pending_request "enqueue_error + unit"
  | Deq batch_key pending_request

type_synonym queues = "batch_key \<Rightarrow> pending_request list"

fun atomic_step :: "nat \<Rightarrow> queues \<Rightarrow> queue_action \<Rightarrow> (queues \<times> unit list) option" where
  "atomic_step depth q (Enq i k req r) =
     (if depth \<le> length (q k) then (if r = Inl QueueFull then Some (q, []) else None)
      else (if r = Inr () then Some (q(k := q k @ [req]), []) else None))"
| "atomic_step depth q (Deq k req) =
     (case q k of
        [] \<Rightarrow> None
      | first # rest \<Rightarrow> if first = req then Some (q(k := rest), []) else None)"

subsection \<open>Where a call takes effect\<close>

text \<open>A call takes effect at the \<open>try_send\<close> that ends it.\<close>

fun action_of :: "manager \<Rightarrow> mgr_event \<Rightarrow> queue_action list" where
  "action_of m (Go i) =
     (let t = mg_threads m ! i in
      case (th_pc t, snd (enq_step m (th_op t) (th_req t) (th_pc t))) of
        (EnqSend n c, EnqDone r) \<Rightarrow> [Enq i (batch_key_of (th_op t) (th_req t)) (th_req t) r]
      | _ \<Rightarrow> [])"
| "action_of m (TaskRecv c) = [Deq (ch_key (mg_channels m ! c)) (hd (ch_queue (mg_channels m ! c)))]"
| "action_of m e = []"

fun actions :: "manager \<Rightarrow> mgr_event list \<Rightarrow> queue_action list" where
  "actions m [] = []"
| "actions m (e # es) =
     action_of m e @ (case mgr_step m e of None \<Rightarrow> [] | Some (m', us) \<Rightarrow> actions m' es)"

definition queues_of :: "manager \<Rightarrow> queues" where
  "queues_of m k = (case hm_get (mg_batchers m) k of None \<Rightarrow> [] | Some c \<Rightarrow> ch_queue (mg_channels m ! c))"

definition calls_of :: "nat \<Rightarrow> queue_action list \<Rightarrow> queue_action list" where
  "calls_of i = filter (\<lambda>a. case a of Enq j k req r \<Rightarrow> j = i | Deq k req \<Rightarrow> False)"

text \<open>What a thread has contributed: nothing before its call has ended, then one action with the result of the call.\<close>

definition call_action :: "nat \<Rightarrow> enq_thread \<Rightarrow> queue_action list" where
  "call_action i t =
     (case th_pc t of EnqDone r \<Rightarrow> [Enq i (batch_key_of (th_op t) (th_req t)) (th_req t) r] | _ \<Rightarrow> [])"

fun ends_task :: "mgr_event \<Rightarrow> bool" where
  "ends_task (TaskExit c) = True"
| "ends_task (TaskUnregister c) = True"
| "ends_task e = False"

subsection \<open>The simulation\<close>

text \<open>While no task ends, every channel is open and in the map under its key, and no call sees a closed one.\<close>

definition steady_thread :: "manager \<Rightarrow> enq_thread \<Rightarrow> bool" where
  "steady_thread m t \<longleftrightarrow> (case th_pc t of
      EnqEntry n \<Rightarrow> n = 0
    | EnqSend n c \<Rightarrow> hm_get (mg_batchers m) (batch_key_of (th_op t) (th_req t)) = Some c
    | EnqRemove n \<Rightarrow> False
    | EnqDone r \<Rightarrow> True)"

definition steady :: "manager \<Rightarrow> bool" where
  "steady m \<longleftrightarrow>
     (\<forall>k c. hm_get (mg_batchers m) k = Some c \<longrightarrow> c < length (mg_channels m) \<and> ch_key (mg_channels m ! c) = k) \<and>
     (\<forall>c < length (mg_channels m). ch_open (mg_channels m ! c) \<and>
        hm_get (mg_batchers m) (ch_key (mg_channels m ! c)) = Some c) \<and>
     (\<forall>t \<in> set (mg_threads m). steady_thread m t)"

definition linearised :: "nat \<Rightarrow> queue_action list \<Rightarrow> manager \<Rightarrow> bool" where
  "linearised depth acts m \<longleftrightarrow> steady m \<and> mg_depth m = depth \<and>
     run (atomic_step depth) (\<lambda>_. []) acts = Some (queues_of m, []) \<and>
     (\<forall>i. calls_of i acts = (if i < length (mg_threads m) then call_action i (mg_threads m ! i) else []))"

lemma calls_of_simps [simp]:
  "calls_of i [] = []" "calls_of i (xs @ ys) = calls_of i xs @ calls_of i ys"
  "calls_of i [Enq j k req r] = (if j = i then [Enq j k req r] else [])" "calls_of i [Deq k req] = []"
  by (simp_all add: calls_of_def)

lemma atomic_run_snoc:
  "run (atomic_step n) q acts = Some (q1, []) \<Longrightarrow> atomic_step n q1 a = Some (q2, []) \<Longrightarrow>
   run (atomic_step n) q (acts @ [a]) = Some (q2, [])"
  by (simp add: run_append)

lemma linearised_silent:
  assumes "linearised depth acts m" "steady m'" "mg_depth m' = mg_depth m" "queues_of m' = queues_of m"
    and "\<And>i. (if i < length (mg_threads m') then call_action i (mg_threads m' ! i) else []) =
      (if i < length (mg_threads m) then call_action i (mg_threads m ! i) else [])"
  shows "linearised depth (acts @ []) m'"
  using assms by (simp add: linearised_def)

lemma steady_threads_update:
  assumes "\<forall>t \<in> set ts. steady_thread m t" "steady_thread m t'"
  shows "\<forall>t \<in> set (ts[i := t']). steady_thread m t"
  using assms set_update_subset_insert [of ts i t'] by blast

lemma view_simps [simp]:
  "queues_of (m\<lparr>mg_threads := ts\<rparr>) = queues_of m"
  "steady_thread (m\<lparr>mg_threads := ts\<rparr>) t = steady_thread m t" "steady_thread (m\<lparr>mg_channels := chs\<rparr>) t = steady_thread m t"
  by (auto simp: queues_of_def steady_thread_def split: enq_pc.split option.split)

lemma linearised_call:
  assumes lin: "linearised depth acts m" and step: "mgr_step m (Call op req) = Some (m', us)"
  shows "linearised depth (acts @ []) m'"
proof (rule linearised_silent [OF lin])
  have m': "m' = m\<lparr>mg_threads := mg_threads m @ [\<lparr>th_op = op, th_req = req, th_pc = EnqEntry 0\<rparr>]\<rparr>" using step by simp
  then show "steady m'" "mg_depth m' = mg_depth m" "queues_of m' = queues_of m"
    using lin by (auto simp: linearised_def steady_def) (simp add: steady_thread_def)
  show "(if i < length (mg_threads m') then call_action i (mg_threads m' ! i) else []) =
      (if i < length (mg_threads m) then call_action i (mg_threads m ! i) else [])" for i
    by (auto simp: m' nth_append call_action_def)
qed

text \<open>Threads other than the one that moves stay steady when the map only grows.\<close>

lemma steady_grows:
  assumes "steady_thread m t" "\<And>k c. hm_get (mg_batchers m) k = Some c \<Longrightarrow> hm_get (mg_batchers m') k = Some c"
  shows "steady_thread m' t"
  using assms by (auto simp: steady_thread_def split: enq_pc.splits)

lemma calls_of_moved:
  assumes "\<forall>j. calls_of j acts = (if j < length ts then call_action j (ts ! j) else [])" "i < length ts"
    and "calls_of i acts @ calls_of i new = call_action i t'" "\<And>j. j \<noteq> i \<Longrightarrow> calls_of j new = []"
  shows "\<forall>j. calls_of j (acts @ new) = (if j < length (ts[i := t']) then call_action j (ts[i := t'] ! j) else [])"
  using assms by (auto simp: nth_list_update)

lemma linearised_go:
  assumes lin: "linearised depth acts m" and step: "mgr_step m (Go i) = Some (m', us)"
  shows "linearised depth (acts @ action_of m (Go i)) m'"
proof -
  let ?t = "mg_threads m ! i"
  let ?k = "batch_key_of (th_op ?t) (th_req ?t)"
  obtain m1 pc where s: "enq_step m (th_op ?t) (th_req ?t) (th_pc ?t) = (m1, pc)" by (metis surj_pair)
  have i: "i < length (mg_threads m)" and m': "m' = m1\<lparr>mg_threads := (mg_threads m)[i := ?t\<lparr>th_pc := pc\<rparr>]\<rparr>"
    using step s by (auto simp: Let_def split: if_splits)
  then have threads: "mg_threads m' = (mg_threads m)[i := ?t\<lparr>th_pc := pc\<rparr>]" by simp
  have st: "steady m" and sts: "\<forall>t \<in> set (mg_threads m). steady_thread m t" and mine: "steady_thread m ?t"
    and atomic: "run (atomic_step depth) (\<lambda>_. []) acts = Some (queues_of m, [])" and depth: "mg_depth m = depth"
    and calls: "\<forall>j. calls_of j acts = (if j < length (mg_threads m) then call_action j (mg_threads m ! j) else [])"
    using lin i by (simp_all add: linearised_def steady_def)
  have finish: "linearised depth (acts @ new) m'"
    if "steady_thread m1 (?t\<lparr>th_pc := pc\<rparr>)"
      and grows: "\<And>k c. hm_get (mg_batchers m) k = Some c \<Longrightarrow> hm_get (mg_batchers m1) k = Some c"
      and keys: "\<And>k c. hm_get (mg_batchers m1) k = Some c \<Longrightarrow> c < length (mg_channels m1) \<and> ch_key (mg_channels m1 ! c) = k"
      and chans: "\<And>c. c < length (mg_channels m1) \<Longrightarrow>
        ch_open (mg_channels m1 ! c) \<and> hm_get (mg_batchers m1) (ch_key (mg_channels m1 ! c)) = Some c"
      and "mg_depth m1 = depth" "run (atomic_step depth) (\<lambda>_. []) (acts @ new) = Some (queues_of m1, [])"
      and new: "calls_of i acts @ calls_of i new = call_action i (?t\<lparr>th_pc := pc\<rparr>)" "\<And>j. j \<noteq> i \<Longrightarrow> calls_of j new = []" for new
  proof -
    have "\<forall>t \<in> set (mg_threads m). steady_thread m1 t" using sts steady_grows [OF _ grows] by blast
    from steady_threads_update [OF this that(1)] have "\<forall>t \<in> set (mg_threads m'). steady_thread m' t"
      by (simp add: m')
    moreover have "\<forall>j. calls_of j (acts @ new) = (if j < length (mg_threads m') then call_action j (mg_threads m' ! j) else [])"
      unfolding threads by (rule calls_of_moved [OF calls i new])
    moreover have "mg_batchers m' = mg_batchers m1" "mg_channels m' = mg_channels m1" "mg_depth m' = mg_depth m1"
      "queues_of m' = queues_of m1" by (simp_all add: m')
    ultimately show ?thesis unfolding linearised_def steady_def using keys chans that(5,6) by simp
  qed
  have old: "c < length (mg_channels m) \<and> ch_key (mg_channels m ! c) = k" if "hm_get (mg_batchers m) k = Some c" for k c
    using st that by (simp add: steady_def)
  have open_old: "ch_open (mg_channels m ! c) \<and> hm_get (mg_batchers m) (ch_key (mg_channels m ! c)) = Some c"
    if "c < length (mg_channels m)" for c using st that by (simp add: steady_def)
  have unchanged: "linearised depth (acts @ new) m'"
    if "m1 = m" "steady_thread m (?t\<lparr>th_pc := pc\<rparr>)" "run (atomic_step depth) (\<lambda>_. []) (acts @ new) = Some (queues_of m, [])"
      and "calls_of i acts @ calls_of i new = call_action i (?t\<lparr>th_pc := pc\<rparr>)" "\<And>j. j \<noteq> i \<Longrightarrow> calls_of j new = []" for new
    by (rule finish [OF _ _ _ _ _ _ that(4,5)]) (use that(1-3) old open_old depth in simp_all)
  show ?thesis
  proof (cases "th_pc ?t")
    case (EnqEntry n)
    then have n: "n = 0" "calls_of i acts = []" using mine calls i by (auto simp: steady_thread_def call_action_def)
    have act: "action_of m (Go i) = []" by (simp add: EnqEntry)
    show ?thesis
    proof (cases "hm_get (mg_batchers m) ?k")
      case None
      let ?c = "length (mg_channels m)"
      let ?ch = "\<lparr>ch_key = ?k, ch_config = batcher_config_of (th_op ?t), ch_queue = [], ch_open = True, ch_received = [],
          ch_lost = [], ch_unregistered = False\<rparr>"
      have m1: "m1 = m\<lparr>mg_batchers := hm_insert ?k ?c (mg_batchers m), mg_channels := mg_channels m @ [?ch]\<rparr>" "pc = EnqSend 0 ?c"
        using s EnqEntry None n by (simp_all add: Let_def)
      have "queues_of m1 k = queues_of m k" for k
        using None old by (auto simp: m1 queues_of_def nth_append split: option.split)
      then have "queues_of m1 = queues_of m" by blast
      then have run: "run (atomic_step depth) (\<lambda>_. []) (acts @ []) = Some (queues_of m1, [])" using atomic by simp
      have keys: "c < length (mg_channels m1) \<and> ch_key (mg_channels m1 ! c) = k" if "hm_get (mg_batchers m1) k = Some c" for k c
        using that old [of k c] by (auto simp: m1 nth_append split: if_splits)
      have chans: "ch_open (mg_channels m1 ! c) \<and> hm_get (mg_batchers m1) (ch_key (mg_channels m1 ! c)) = Some c"
        if "c < length (mg_channels m1)" for c
        using that open_old [of c] None by (auto simp: m1 nth_append less_Suc_eq)
      show ?thesis unfolding act
        by (rule finish [OF _ _ keys chans _ run])
          (use None n depth in \<open>auto simp: m1 steady_thread_def call_action_def\<close>)
    next
      case (Some c)
      then have "m1 = m" "pc = EnqSend 0 c" using s EnqEntry n by (simp_all add: Let_def)
      then show ?thesis unfolding act
        using n Some atomic by (intro unchanged) (simp_all add: steady_thread_def call_action_def)
    qed
  next
    case (EnqSend n c)
    then have c: "hm_get (mg_batchers m) ?k = Some c" "calls_of i acts = []" using mine calls i
      by (auto simp: steady_thread_def call_action_def)
    have ch: "c < length (mg_channels m)" "ch_key (mg_channels m ! c) = ?k" using old [OF c(1)] by simp_all
    then have ch_open: "ch_open (mg_channels m ! c)" using open_old by simp
    have q: "queues_of m ?k = ch_queue (mg_channels m ! c)" by (simp add: queues_of_def c(1))
    show ?thesis
    proof (cases "depth \<le> length (ch_queue (mg_channels m ! c))")
      case True
      have m1: "m1 = m" "pc = EnqDone (Inl QueueFull)" using s EnqSend True ch_open depth by (simp_all add: Let_def)
      have act: "action_of m (Go i) = [Enq i ?k (th_req ?t) (Inl QueueFull)]" by (simp only: action_of.simps Let_def EnqSend s [unfolded EnqSend] m1(2)) simp
      have "atomic_step depth (queues_of m) (Enq i ?k (th_req ?t) (Inl QueueFull)) = Some (queues_of m, [])" using True by (simp add: q)
      note run = atomic_run_snoc [OF atomic this]
      show ?thesis unfolding act
        by (rule unchanged [OF m1(1) _ run]) (simp_all add: m1(2) c(2) steady_thread_def call_action_def)
    next
      case False
      let ?ch' = "(mg_channels m ! c)\<lparr>ch_queue := ch_queue (mg_channels m ! c) @ [th_req ?t]\<rparr>"
      have m1: "m1 = m\<lparr>mg_channels := (mg_channels m)[c := ?ch']\<rparr>" "pc = EnqDone (Inr ())"
        using s EnqSend False ch_open depth by (auto simp: Let_def)
      have act: "action_of m (Go i) = [Enq i ?k (th_req ?t) (Inr ())]" by (simp only: action_of.simps Let_def EnqSend s [unfolded EnqSend] m1(2)) simp
      have "queues_of m1 = (queues_of m)(?k := queues_of m ?k @ [th_req ?t])"
      proof
        fix k show "queues_of m1 k = ((queues_of m)(?k := queues_of m ?k @ [th_req ?t])) k"
          using c(1) ch old [of k] by (auto simp: m1 queues_of_def nth_list_update split: option.split)
      qed
      moreover have "atomic_step depth (queues_of m) (Enq i ?k (th_req ?t) (Inr ())) =
          Some ((queues_of m)(?k := queues_of m ?k @ [th_req ?t]), [])" using False by (simp add: q)
      ultimately have run: "run (atomic_step depth) (\<lambda>_. []) (acts @ [Enq i ?k (th_req ?t) (Inr ())]) = Some (queues_of m1, [])"
        using atomic_run_snoc [OF atomic] by simp
      show ?thesis unfolding act
        by (rule finish [OF _ _ _ _ _ run])
          (use ch c(2) old open_old depth in \<open>auto simp: m1 steady_thread_def call_action_def nth_list_update\<close>)
    qed
  next
    case (EnqRemove n)
    then show ?thesis using mine by (simp add: steady_thread_def)
  next
    case (EnqDone r)
    then have m1: "m1 = m" "pc = EnqDone r" using s by simp_all
    have act: "action_of m (Go i) = []" by (simp add: EnqDone Let_def)
    show ?thesis unfolding act
      by (rule unchanged [OF m1(1)]) (use calls i atomic EnqDone in \<open>simp_all add: m1(2) steady_thread_def call_action_def\<close>)
  qed
qed

lemma linearised_recv:
  assumes lin: "linearised depth acts m" and step: "mgr_step m (TaskRecv c) = Some (m', us)"
  shows "linearised depth (acts @ action_of m (TaskRecv c)) m'"
proof -
  let ?k = "ch_key (mg_channels m ! c)"
  obtain req queue where q: "c < length (mg_channels m)" "ch_queue (mg_channels m ! c) = req # queue"
    "m' = m\<lparr>mg_channels := (mg_channels m)[c := (mg_channels m ! c)\<lparr>ch_queue := queue,
       ch_received := ch_received (mg_channels m ! c) @ [req]\<rparr>]\<rparr>"
    using step by (auto simp: Let_def split: if_splits list.splits)
  have st: "steady m" and atomic: "run (atomic_step depth) (\<lambda>_. []) acts = Some (queues_of m, [])"
    using lin by (simp_all add: linearised_def)
  have k: "hm_get (mg_batchers m) ?k = Some c" using st q(1) by (simp add: steady_def)
  have other: "c' < length (mg_channels m) \<and> ch_key (mg_channels m ! c') = k'" if "hm_get (mg_batchers m) k' = Some c'" for k' c'
    using st that by (simp add: steady_def)
  have "queues_of m' = (queues_of m)(?k := queue)"
  proof
    fix k' show "queues_of m' k' = ((queues_of m)(?k := queue)) k'"
    proof (cases "hm_get (mg_batchers m) k' = Some c")
      case True
      then show ?thesis using other [OF True] q(1) by (simp add: q(3) queues_of_def)
    next
      case False
      then have "k' \<noteq> ?k" using k by blast
      then show ?thesis using False by (cases "hm_get (mg_batchers m) k'") (auto simp: q(3) queues_of_def nth_list_update)
    qed
  qed
  moreover have "atomic_step depth (queues_of m) (Deq ?k req) = Some ((queues_of m)(?k := queue), [])"
    by (simp add: queues_of_def k q(2))
  ultimately have run: "run (atomic_step depth) (\<lambda>_. []) (acts @ [Deq ?k req]) = Some (queues_of m', [])"
    using atomic_run_snoc [OF atomic] by simp
  have act: "action_of m (TaskRecv c) = [Deq ?k req]" by (simp add: q(2))
  have same: "ch_key (mg_channels m' ! d) = ch_key (mg_channels m ! d) \<and> ch_open (mg_channels m' ! d) = ch_open (mg_channels m ! d)" for d
    using q(1) by (simp add: q(3) nth_list_update)
  have "length (mg_channels m') = length (mg_channels m)" "mg_batchers m' = mg_batchers m" "mg_threads m' = mg_threads m"
    "steady_thread m' t = steady_thread m t" for t by (simp_all add: q(3))
  then have "steady m'" using st same unfolding steady_def by simp
  then show ?thesis unfolding act using run lin by (simp add: linearised_def q(3))
qed

lemma linearised_run:
  "linearised depth acts m \<Longrightarrow> run mgr_step m es = Some (m', us) \<Longrightarrow> \<not> list_ex ends_task es \<Longrightarrow>
   linearised depth (acts @ actions m es) m'"
proof (induction es arbitrary: m acts us)
  case (Cons e es)
  from Cons.prems(2) obtain m1 o1 o2 where s: "mgr_step m e = Some (m1, o1)" "run mgr_step m1 es = Some (m', o2)"
    by (rule run_ConsE)
  have "linearised depth (acts @ action_of m e) m1"
    using Cons.prems(1,3) s(1) linearised_call linearised_go linearised_recv
    by (cases e) (simp_all del: mgr_step.simps action_of.simps(1,2))
  from Cons.IH [OF this s(2)] show ?case using Cons.prems(3) s(1) by (simp del: mgr_step.simps)
qed simp

subsection \<open>Properties\<close>

text \<open>C7: As long as no task ends, \<open>enqueue\<close> is linearizable: for every interleaving of calls and tasks, replaying the
  sends and receives, in the order in which they happened, on one bounded FIFO queue per batch key gives the
  same results and the same queues. Each call that has returned took effect exactly once, in a step of its own
  and with the result it returned; a call under way has had no effect yet.\<close>

theorem enqueue_linearizable:
  assumes "run mgr_step (manager_new depth) es = Some (m, os)" "\<not> list_ex ends_task es"
  shows "run (atomic_step depth) (\<lambda>_. []) (actions (manager_new depth) es) = Some (queues_of m, []) \<and>
    (\<forall>i < length (mg_threads m). calls_of i (actions (manager_new depth) es) = call_action i (mg_threads m ! i))"
proof -
  have "linearised depth [] (manager_new depth)"
    by (simp add: linearised_def steady_def manager_new_def queues_of_def fun_eq_iff)
  from linearised_run [OF this assms] show ?thesis by (simp add: linearised_def)
qed

theorem enqueue_linearizable_witness:
  "\<exists>m os. run mgr_step (manager_new 1) [Call example_op (example_request ''a'' 1), Call example_op (example_request ''b'' 2),
        Go 0, Go 1, Go 1, Go 0, TaskRecv 0] = Some (m, os) \<and>
    actions (manager_new 1) [Call example_op (example_request ''a'' 1), Call example_op (example_request ''b'' 2),
        Go 0, Go 1, Go 1, Go 0, TaskRecv 0] =
      [Enq 1 example_op_key (example_request ''b'' 2) (Inr ()), Enq 0 example_op_key (example_request ''a'' 1) (Inl QueueFull),
       Deq example_op_key (example_request ''b'' 2)] \<and>
    (run (atomic_step 1) (\<lambda>_. []) [Enq 1 example_op_key (example_request ''b'' 2) (Inr ()),
        Enq 0 example_op_key (example_request ''a'' 1) (Inl QueueFull), Deq example_op_key (example_request ''b'' 2)] =
      Some (queues_of m, []))"
proof -
  let ?es = "[Call example_op (example_request ''a'' 1), Call example_op (example_request ''b'' 2), Go 0, Go 1, Go 1, Go 0, TaskRecv 0]"
  have r: "\<exists>m os. run mgr_step (manager_new 1) ?es = Some (m, os)" by (simp add: manager_new_def Let_def)
  have a: "actions (manager_new 1) ?es = [Enq 1 example_op_key (example_request ''b'' 2) (Inr ()),
      Enq 0 example_op_key (example_request ''a'' 1) (Inl QueueFull), Deq example_op_key (example_request ''b'' 2)]"
    by (simp add: manager_new_def Let_def)
  from r obtain m os where m: "run mgr_step (manager_new 1) ?es = Some (m, os)" by blast
  have "\<not> list_ex ends_task ?es" by simp
  from enqueue_linearizable [OF m this] show ?thesis unfolding a using m a by blast
qed

end
