(* ===== verification/Stream_Order.thy ===== *)
theory Stream_Order
  imports Stream_Own
begin

text \<open>
  The order of a streamed body: what a caller receives on its body channel is a beginning of what the chunk records of its
  request carry, in their order, without a gap and without repetition, whatever other callers' records lie between them.
\<close>

subsection \<open>What is said and what is sent\<close>

definition said_chunk :: "ext_lib \<Rightarrow> string \<Rightarrow> stream_response_record \<Rightarrow> bytes list" where
  "said_chunk ext i rec = (case rec of
     Legacy _ \<Rightarrow> []
   | Interleaved r \<Rightarrow>
       if si_id r = i \<and> si_record_type r = Chunk \<and> si_v r = 1
       then (case decode_body_bytes ext (case si_body r of Some b \<Rightarrow> b | None \<Rightarrow> []) (si_is_base64_encoded r) of
               Inl _ \<Rightarrow> [] | Inr bs \<Rightarrow> [bs])
       else [])"

definition chunk_data :: "ext_lib \<Rightarrow> string \<Rightarrow> stream_response_record list \<Rightarrow> bytes list" where
  "chunk_data ext i recs = concat (map (said_chunk ext i) recs)"

fun body_part :: "chan \<Rightarrow> stream_out \<Rightarrow> bytes list" where
  "body_part b (SendBody c bs) = (if c = b then [bs] else [])"
| "body_part b x = []"

definition body_of :: "chan \<Rightarrow> stream_log \<Rightarrow> bytes list" where
  "body_of b outs = concat (map (body_part b) outs)"

lemma chunk_data_simps [simp]:
  "chunk_data ext i [] = []" "chunk_data ext i (rec # recs) = said_chunk ext i rec @ chunk_data ext i recs"
  "chunk_data ext i (xs @ ys) = chunk_data ext i xs @ chunk_data ext i ys"
  by (simp_all add: chunk_data_def)

lemma body_of_simps [simp]:
  "body_of b [] = []" "body_of b (x # outs) = body_part b x @ body_of b outs" "body_of b (xs @ ys) = body_of b xs @ body_of b ys"
  by (simp_all add: body_of_def)

lemma body_of_none: "(\<And>bs. SendBody b bs \<notin> set outs) \<Longrightarrow> body_of b outs = []"
proof (induction outs)
  case (Cons x outs)
  then show ?case by (cases x) auto
qed simp

subsection \<open>One record\<close>

text \<open>The body channel \<open>b\<close> is that of the caller waiting under \<open>i\<close>.\<close>

definition waits_on :: "chan \<Rightarrow> string \<Rightarrow> stream_map \<Rightarrow> bool" where
  "waits_on b i p \<longleftrightarrow> (\<exists>e. (i, e) \<in> set p \<and> sp_body e = b)"

definition only_at :: "chan \<Rightarrow> string \<Rightarrow> stream_map \<Rightarrow> bool" where
  "only_at b i p \<longleftrightarrow> (\<forall>(j, e) \<in> set p. sp_body e = b \<longrightarrow> j = i)"

lemma kept_waits: "kept q p \<Longrightarrow> waits_on b i q \<Longrightarrow> waits_on b i p"
  unfolding kept_def waits_on_def by fastforce

lemma kept_only: "kept q p \<Longrightarrow> only_at b i p \<Longrightarrow> only_at b i q"
  unfolding kept_def only_at_def by fastforce

text \<open>As long as the caller waits it has received all its chunks so far; a caller that is gone receives nothing more.\<close>

definition feeds :: "chan \<Rightarrow> string \<Rightarrow> bytes list \<Rightarrow> stream_map \<Rightarrow> stream_map \<Rightarrow> stream_log \<Rightarrow> bool" where
  "feeds b i chunks p q outs \<longleftrightarrow> prefix (body_of b outs) chunks \<and> (waits_on b i q \<longrightarrow> body_of b outs = chunks) \<and>
     (\<not> waits_on b i p \<longrightarrow> body_of b outs = [])"

lemma feeds_trans:
  "feeds b i xs p q o1 \<Longrightarrow> feeds b i ys q r o2 \<Longrightarrow> kept r q \<Longrightarrow> kept q p \<Longrightarrow> feeds b i (xs @ ys) p r (o1 @ o2)"
  unfolding feeds_def using kept_waits [of r q b i] kept_waits [of q p b i] by auto

lemma chunk_feeds:
  assumes "chunk_record ext env n w el r p hist = ((q, hist'), res)" "hm_ok p" "(si_id r, e) \<in> set p" "sp_body e = b"
    and "decode_body_bytes ext (case si_body r of Some s \<Rightarrow> s | None \<Rightarrow> []) (si_is_base64_encoded r) = Inr bs"
  shows "\<exists>outs. hist' = hist @ outs \<and> (body_of b outs = [] \<and> \<not> waits_on b (si_id r) q \<or> body_of b outs = [bs])"
proof -
  have get: "hm_get p (si_id r) = Some e" using assms(2,3) by (simp add: hm_get_def)
  obtain e' h k where s: "send_stream_head ext env n w el 200 [] [] e hist = ((e', h), k)" by (metis prod.collapse)
  obtain o1 where o: "e' = e \<or> e' = e\<lparr>sp_init := None\<rparr>" "h = hist @ o1"
    "\<forall>x \<in> set o1. is_drop x \<or> (\<exists>c hd0. x = SendInit c (InitStream hd0) \<and> sp_init e = Some c \<and> head_for ext 200 [] [] hd0)"
    using send_head_says [OF s] by auto
  have b: "sp_body e' = b" using o(1) assms(4) by auto
  have quiet: "body_of b o1 = []" by (rule body_of_none) (use o(3) in fastforce)
  have drops: "body_of b (drop_pending e'') = []" for e'' by (rule body_of_none) (auto simp: drop_pending_def split: option.splits)
  have gone: "\<not> waits_on b (si_id r) (hm_delete (si_id r) p)" by (auto simp: waits_on_def hm_set_delete)
  show ?thesis using assms(1) get s assms(5) o(2) quiet drops gone b
    by (auto simp: chunk_record_eq Let_def map_err_def split: sum.splits if_splits)
qed


lemma record_feeds:
  assumes d: "dispatch_stream_record ext env n w el rec p hist = ((q, hist'), res)" and ok: "hm_ok p" and only: "only_at b i p"
  shows "\<exists>outs. hist' = hist @ outs \<and> feeds b i (said_chunk ext i rec) p q outs \<and> kept q p \<and> hm_ok q"
proof -
  obtain outs where o: "hist' = hist @ outs" "\<forall>x \<in> set outs. carried ext {rec} p x" and k: "kept q p"
    using record_writes [OF d] by (auto simp: writes_def)
  have ok': "hm_ok q" using moves_to_ok [of p hist q hist'] record_moves [of p hist ext env n w el rec] ok d by simp
  have sent: "\<exists>e. (i, e) \<in> set p \<and> sp_body e = b \<and> record_id_of rec = i \<and> says ext rec (SendBody b bs)" if mem: "SendBody b bs \<in> set outs" for bs
    using o(2) mem only by (fastforce simp: carried_def made_by_gateway_def only_at_def)
  show ?thesis
  proof (cases "said_chunk ext i rec = [] \<or> \<not> waits_on b i p")
    case True
    have "SendBody b bs \<notin> set outs" for bs
    proof
      assume m: "SendBody b bs \<in> set outs"
      obtain e where e: "(i, e) \<in> set p" "sp_body e = b" "record_id_of rec = i" "says ext rec (SendBody b bs)" using sent [OF m] by blast
      then obtain r where r: "rec = Interleaved r" "si_record_type r = Chunk" "si_id r = i"
          "decode_body_bytes ext (case si_body r of Some s \<Rightarrow> s | None \<Rightarrow> []) (si_is_base64_encoded r) = Inr bs"
        by (cases rec) auto
      then have "si_v r \<noteq> 1" using True e(1,2) by (auto simp: said_chunk_def waits_on_def)
      then have "outs = []" using d r(1) o(1) by (simp add: dispatch_stream_record_def)
      then show False using m by simp
    qed
    then have "body_of b outs = []" by (rule body_of_none)
    then have "feeds b i (said_chunk ext i rec) p q outs" using True kept_waits [OF k] by (auto simp: feeds_def)
    then show ?thesis using o(1) k ok' by blast
  next
    case False
    then obtain r bs where r: "rec = Interleaved r" "si_record_type r = Chunk" "si_id r = i" "si_v r = 1"
        "decode_body_bytes ext (case si_body r of Some s \<Rightarrow> s | None \<Rightarrow> []) (si_is_base64_encoded r) = Inr bs" "said_chunk ext i rec = [bs]"
      by (auto simp: said_chunk_def split: stream_response_record.splits if_splits sum.splits)
    obtain e where e: "(si_id r, e) \<in> set p" "sp_body e = b" using False r(3) by (auto simp: waits_on_def)
    have c: "chunk_record ext env n w el r p hist = ((q, hist'), res)" using d r(1,2,4) by (simp add: dispatch_stream_record_def)
    have "body_of b outs = [] \<and> \<not> waits_on b i q \<or> body_of b outs = [bs]"
      using chunk_feeds [OF c ok e r(5)] o(1) r(3) by auto
    then have "feeds b i (said_chunk ext i rec) p q outs" using False r(6) by (auto simp: feeds_def)
    then show ?thesis using o(1) k ok' by blast
  qed
qed

subsection \<open>The whole stream\<close>

lemma run_feeds:
  assumes "records_run ext env n w recs p hist q h" "hm_ok p" "only_at b i p"
  shows "\<exists>outs. h = hist @ outs \<and> feeds b i (chunk_data ext i recs) p q outs \<and> kept q p"
  using assms
proof (induction rule: records_run.induct)
  case (no_record p hist)
  show ?case by (intro exI [of _ "[]"]) (simp add: feeds_def)
next
  case (next_record hist rec p q h res recs r final)
  obtain o1 where 1: "h = hist @ o1" "feeds b i (said_chunk ext i rec) p q o1" "kept q p" "hm_ok q"
    using record_feeds [OF next_record(1) next_record.prems] by blast
  obtain o2 where 2: "final = h @ o2" "feeds b i (chunk_data ext i recs) q r o2" "kept r q"
    using next_record.IH [OF 1(4) kept_only [OF 1(3) next_record.prems(2)]] by blast
  show ?case using feeds_trans [OF 1(2) 2(2,3) 1(3)] 1(1) 2(1) kept_trans [OF 2(3) 1(3)]
    by (intro exI [of _ "o1 @ o2"]) simp
qed

text \<open>A streamed body arrives in order: what is sent on a caller's body channel is a beginning of the decoded chunks
  that the readable records of the stream carry for its id, one after the other, with nothing left out, repeated or
  taken from another caller's records, for every stream and wherever it breaks off.\<close>

theorem streamed_body_in_order:
  assumes "hm_ok pending" "separate pending" "(i, e) \<in> set pending"
  shows "prefix (body_of (sp_body e) (dispatch_response_stream_impl ext env key wait_ms stream pending))
    (chunk_data ext i (records_in ext (seen_lines [] stream)))"
proof -
  let ?b = "sp_body e"
  obtain fin q h msg where f: "prefix fin (records_in ext (seen_lines [] stream))"
    "records_run ext env (length pending) wait_ms fin pending [] q h"
    "dispatch_response_stream_impl ext env key wait_ms stream pending = fail_rest env (length pending) wait_ms msg q h"
    using dispatch_stream_run [of ext env pending wait_ms stream key] unfolding ended_run_def by blast
  have only: "only_at ?b i pending" using assms(2,3) unfolding only_at_def separate_def by fastforce
  obtain outs where o: "h = outs" "feeds ?b i (chunk_data ext i fin) pending q outs"
    using run_feeds [OF f(2) assms(1) only] by auto
  have "body_of ?b (fail_all_stream_impl q (length pending) wait_ms el BAD_GATEWAY msg) = []" for el
    by (rule body_of_none) (use fail_all_made in \<open>fastforce simp: made_by_gateway_def\<close>)
  then have "body_of ?b (fail_rest env (length pending) wait_ms msg q h) = body_of ?b outs" by (simp add: fail_rest_def o(1))
  moreover have "prefix (chunk_data ext i fin) (chunk_data ext i (records_in ext (seen_lines [] stream)))"
    using f(1) by (auto simp: prefix_def)
  moreover have "prefix (body_of ?b outs) (chunk_data ext i fin)" using o(2) by (simp add: feeds_def)
  ultimately show ?thesis unfolding f(3) by (metis prefix_order.order_trans)
qed

end
