(* ===== verification/Carriage.thy ===== *)
theory Carriage
  imports Gateway Stream_Own
begin

text \<open>
  What the jobs of the gateway carry: the payload of a job is the event of a group of requests of one batch key, and
  each caller it holds made one of these requests. Everything else a batcher task sends to callers by itself is an error.
\<close>

subsection \<open>What a job carries\<close>

text \<open>An answer the gateway makes up itself.\<close>

definition gateway_error :: "gateway_response \<Rightarrow> bool" where
  "gateway_error resp \<longleftrightarrow> (\<exists>n w el status msg. resp = with_meta n w el (response_text status msg) \<and>
     status \<in> {TOO_MANY_REQUESTS, INTERNAL_SERVER_ERROR, BAD_GATEWAY})"

definition stream_error :: "stream_out \<Rightarrow> bool" where
  "stream_error x \<longleftrightarrow> is_drop x \<or> (\<exists>c resp. x = SendInit c (InitResponse resp) \<and> gateway_error resp)"

text \<open>The payload of a job is the event of a group of requests with the key of the job; each caller of the job made a
  request with that key under an id of the group.\<close>

fun carries_requests :: "ext_lib \<Rightarrow> (pending_request \<Rightarrow> bool) \<Rightarrow> invocation_job \<Rightarrow> bool" where
  "carries_requests ext known (JobBuffered ji pending) \<longleftrightarrow>
     (\<exists>ts grp. v1_build_payload ext (ji_key ji) ts (map (request_item ext ts) grp) = Inr (ji_payload ji) \<and>
        (\<forall>req \<in> set grp. known req) \<and>
        (\<forall>i c. (i, c) \<in> set pending \<longrightarrow> i \<in> pr_id ` set grp \<and>
           (\<exists>req. known req \<and> pr_id req = i \<and> pr_respond_to req = SinkBuffered c)))"
| "carries_requests ext known (JobStream ji pending) \<longleftrightarrow>
     (\<exists>ts grp. v1_build_payload ext (ji_key ji) ts (map (request_item ext ts) grp) = Inr (ji_payload ji) \<and>
        (\<forall>req \<in> set grp. known req) \<and>
        (\<forall>i e. (i, e) \<in> set pending \<longrightarrow> i \<in> pr_id ` set grp \<and>
           (\<exists>req c. known req \<and> pr_id req = i \<and> pr_respond_to req = SinkStream c (sp_body e) \<and> sp_init e = Some c)))"

lemma carries_mono:
  assumes "carries_requests ext known job" "\<And>req. known req \<Longrightarrow> known' req"
  shows "carries_requests ext known' job"
proof (cases job)
  case (JobBuffered ji pending)
  show ?thesis using assms unfolding JobBuffered carries_requests.simps by metis
next
  case (JobStream ji pending)
  show ?thesis using assms unfolding JobStream carries_requests.simps by metis
qed

lemma request_item_id [simp]: "bi_id (request_item ext ts req) = pr_id req"
  "rc_request_id (bi_request_context (request_item ext ts req)) = pr_id req"
  by (simp_all add: request_item_def Let_def case_prod_beta)

text \<open>A planned invocation carries the encoding of some of the items, and callers of these items only.\<close>

lemma plan_carries:
  "(hm_ok pending \<and> fst ` set pending \<subseteq> bi_id ` set items) \<longrightarrow>
   (\<forall>pd payload. Invoke pd payload \<in> set (plans (plan_invocations builder key ts mx pending items)) \<longrightarrow>
     set pd \<subseteq> set pending \<and>
     (\<exists>grp. set grp \<subseteq> set items \<and> builder key ts grp = Inr payload \<and> fst ` set pd \<subseteq> bi_id ` set grp))"
proof (rule plan_induct [where P = "\<lambda>pending items pl. (hm_ok pending \<and> fst ` set pending \<subseteq> bi_id ` set items) \<longrightarrow>
    (\<forall>pd payload. Invoke pd payload \<in> set (plans pl) \<longrightarrow> set pd \<subseteq> set pending \<and>
      (\<exists>grp. set grp \<subseteq> set items \<and> builder key ts grp = Inr payload \<and> fst ` set pd \<subseteq> bi_id ` set grp))"], goal_cases)
  case (2 pending items payload)
  then show ?case by (intro impI allI conjI exI [of _ items]) simp_all
next
  case (4 pending items left_items right_items lp rp left right)
  show ?case
  proof (intro impI allI)
    fix pd payload
    assume asm: "hm_ok pending \<and> fst ` set pending \<subseteq> bi_id ` set items"
      and p: "Invoke pd payload \<in> set (plans \<lparr>plans = plans left @ plans right,
        split_count = 1 + split_count left + split_count right,
        oversized_single_count = oversized_single_count left + oversized_single_count right\<rparr>)"
    have sub: "set left_items \<subseteq> set items" "set right_items \<subseteq> set items" "bi_id ` set items = bi_id ` set left_items \<union> bi_id ` set right_items"
      unfolding 4(1) [symmetric] by auto
    have keys: "fst ` set lp \<subseteq> bi_id ` set left_items" "fst ` set rp \<subseteq> bi_id ` set right_items"
      using split_pending_keys [OF 4(4)] asm sub(3) by auto
    have ok: "hm_ok lp" "hm_ok rp" "mset lp + mset rp = mset pending" using split_pending_mset [OF _ 4(4)] asm by auto
    have "set pending = set lp \<union> set rp" using ok(3) by (metis set_mset_mset set_mset_union)
    then have un: "set lp \<subseteq> set pending" "set rp \<subseteq> set pending" by blast+
    from p consider "Invoke pd payload \<in> set (plans left)" | "Invoke pd payload \<in> set (plans right)" by auto
    then show "set pd \<subseteq> set pending \<and>
      (\<exists>grp. set grp \<subseteq> set items \<and> builder key ts grp = Inr payload \<and> fst ` set pd \<subseteq> bi_id ` set grp)"
    proof cases
      case 1
      then obtain grp where g: "set pd \<subseteq> set lp" "set grp \<subseteq> set left_items" "builder key ts grp = Inr payload"
        "fst ` set pd \<subseteq> bi_id ` set grp" using mp [OF 4(5) conjI [OF ok(1) keys(1)], rule_format, OF 1] by (elim conjE exE)
      show ?thesis
        by (rule conjI [OF order_trans [OF g(1) un(1)] exI [of _ grp]], intro conjI order_trans [OF g(2) sub(1)] g(3,4))
    next
      case 2
      then obtain grp where g: "set pd \<subseteq> set rp" "set grp \<subseteq> set right_items" "builder key ts grp = Inr payload"
        "fst ` set pd \<subseteq> bi_id ` set grp" using mp [OF 4(6) conjI [OF ok(2) keys(2)], rule_format, OF 2] by (elim conjE exE)
      show ?thesis
        by (rule conjI [OF order_trans [OF g(1) un(2)] exI [of _ grp]], intro conjI order_trans [OF g(2) sub(2)] g(3,4))
    qed
  qed
qed simp_all

text \<open>The maps of waiting callers hold senders of the batch under the ids of their requests.\<close>

lemma hm_insert_from: "(i, c) \<in> set (hm_insert k v m) \<Longrightarrow> (i, c) \<in> set m \<or> (i = k \<and> c = v)" for k :: string
  by (induction m) (auto simp: hm_insert_def split: if_splits)

lemma collect_sinks_from:
  assumes "collect_sinks batch (b, st) = ((b', st'), effs)"
  shows "(i, c) \<in> set b' \<Longrightarrow> (i, c) \<in> set b \<or> (\<exists>req \<in> set batch. pr_id req = i \<and> pr_respond_to req = SinkBuffered c)"
    and "(i, e) \<in> set st' \<Longrightarrow> (i, e) \<in> set st \<or>
      (\<exists>req \<in> set batch. \<exists>c. pr_id req = i \<and> pr_respond_to req = SinkStream c (sp_body e) \<and> sp_init e = Some c)"
  using assms
proof (induction batch arbitrary: b st effs)
  case (Cons req batch)
  case 1
  obtain b1 st1 e1 where a: "add_sink (pr_id req) (pr_respond_to req) (b, st) = ((b1, st1), e1)" by (metis surj_pair)
  then obtain e2 where c: "collect_sinks batch (b1, st1) = ((b', st'), e2)" using 1(2) by (auto split: prod.splits)
  have "(i, c) \<in> set b1 \<Longrightarrow> (i, c) \<in> set b \<or> (pr_id req = i \<and> pr_respond_to req = SinkBuffered c)"
    using a by (cases "pr_respond_to req") (auto dest: hm_insert_from)
  then show ?case using Cons.IH(1) [OF 1(1) c] by auto
next
  case (Cons req batch)
  case 2
  obtain b1 st1 e1 where a: "add_sink (pr_id req) (pr_respond_to req) (b, st) = ((b1, st1), e1)" by (metis surj_pair)
  then obtain e2 where c: "collect_sinks batch (b1, st1) = ((b', st'), e2)" using 2(2) by (auto split: prod.splits)
  have "(i, e) \<in> set st1 \<Longrightarrow> (i, e) \<in> set st \<or>
      (\<exists>c. pr_id req = i \<and> pr_respond_to req = SinkStream c (sp_body e) \<and> sp_init e = Some c)"
    using a by (cases "pr_respond_to req") (auto dest: hm_insert_from)
  then show ?case using Cons.IH(2) [OF 2(1) c] by auto
qed simp_all

subsection \<open>What flushes and jobs send\<close>

definition v1_services :: "ext_lib \<Rightarrow> stream_env \<Rightarrow> live_env \<Rightarrow> bool" where
  "v1_services ext env le \<longleftrightarrow> default_services ext env le \<and> rt_batch_event_builder (le_runtime le) = v1_build_payload ext \<and>
     ap_ext (le_app le) = ext"

definition only_errors :: "effect list \<Rightarrow> bool" where
  "only_errors effs \<longleftrightarrow> (\<forall>c resp. effect.Answer c resp \<in> set effs \<longrightarrow> gateway_error resp) \<and>
     (\<forall>x. StreamEff x \<in> set effs \<longrightarrow> stream_error x)"

lemma only_errors_simps [simp]:
  "only_errors []" "only_errors (xs @ ys) \<longleftrightarrow> only_errors xs \<and> only_errors ys" "only_errors (map StreamEff outs) \<longleftrightarrow> list_all stream_error outs"
  "only_errors (DropAnswer c # es) \<longleftrightarrow> only_errors es" "only_errors (FeedbackSent c f # es) \<longleftrightarrow> only_errors es"
  by (auto simp: only_errors_def list_all_iff)

lemma gateway_errorI:
  "st \<in> {TOO_MANY_REQUESTS, INTERNAL_SERVER_ERROR, BAD_GATEWAY} \<Longrightarrow> gateway_error (with_meta n w el (response_text st msg))"
  unfolding gateway_error_def by blast

lemma fail_all_errors:
  assumes "st \<in> {TOO_MANY_REQUESTS, INTERNAL_SERVER_ERROR, BAD_GATEWAY}"
  shows "only_errors (answers (fail_all_buffered_impl p n w el st msg))"
  using gateway_errorI [OF assms] by (auto simp: only_errors_def fail_all_buffered_impl_def simp del: insert_iff)

lemma fail_all_stream_errors:
  assumes "st \<in> {TOO_MANY_REQUESTS, INTERNAL_SERVER_ERROR, BAD_GATEWAY}"
  shows "list_all stream_error (fail_all_stream_impl p n w el st msg)"
  using gateway_errorI [OF assms]
  by (auto simp: list_all_iff fail_all_stream_impl_def fail_stream_entry_def stream_error_def split: option.splits simp del: insert_iff)

lemma drops_errors [simp]: "list_all stream_error (drop_pending e)"
  by (auto simp: list_all_iff drop_pending_def stream_error_def split: option.split)

lemma report_errors [simp]: "only_errors (report_default tx ok el)"
  by (simp add: report_default_def split: option.split)

lemma job_fail_errors:
  "st \<in> {TOO_MANY_REQUESTS, INTERNAL_SERVER_ERROR, BAD_GATEWAY} \<Longrightarrow>
     only_errors (job_fail (default_dispatcher ext env) default_reporter st msg job)"
  by (cases job) (simp_all add: default_dispatcher_def default_reporter_def fail_all_errors fail_all_stream_errors)

lemma rejected_errors: "only_errors (rejected_job (default_dispatcher ext env) default_reporter r job)"
  by (cases r) (simp_all add: rejected_job_def job_fail_errors)

lemma plan_fail_status:
  "Fail pd st msg \<in> set (plans (plan_invocations builder key ts mx pending items)) \<longrightarrow> st \<in> {INTERNAL_SERVER_ERROR, BAD_GATEWAY}"
  by (rule plan_induct [where P = "\<lambda>pending items pl. Fail pd st msg \<in> set (plans pl) \<longrightarrow> st \<in> {INTERNAL_SERVER_ERROR, BAD_GATEWAY}"]) auto

lemma run_plans_errors:
  assumes "\<And>r job. only_errors (effects_of (offer_job rt r job))"
    and "\<And>pd st msg. Fail pd st msg \<in> set ps \<Longrightarrow> only_errors (fail_plan pd st msg)"
  shows "only_errors (effects_of (run_plans rt sends fail_plan mk_job n ps))"
  using assms(2)
proof (induction ps arbitrary: n)
  case (Cons p ps)
  then show ?case by (cases p) (simp_all add: assms(1))
qed simp

lemma offer_errors:
  "rt_response_dispatcher rt = default_dispatcher ext env \<Longrightarrow> rt_probe_feedback_reporter rt = default_reporter \<Longrightarrow>
     only_errors (effects_of (offer_job rt r job))"
  by (simp add: offer_job_def rejected_errors)

lemma drop_effects:
  "collect_sinks batch s = (s', effs) \<Longrightarrow> only_errors effs"
proof (induction batch arbitrary: s effs)
  case (Cons req batch)
  obtain b st where s: "s = (b, st)" by (cases s)
  obtain s1 e1 where 1: "add_sink (pr_id req) (pr_respond_to req) s = (s1, e1)" by (metis surj_pair)
  obtain e2 where 2: "collect_sinks batch s1 = (s', e2)" "effs = e1 @ e2" using Cons.prems 1 by (auto split: prod.splits)
  have "only_errors e1" using 1 s by (cases "pr_respond_to req") (auto split: option.splits)
  then show ?case using Cons.IH [OF 2(1)] 2(2) by simp
qed simp

lemma plan_errors:
  assumes "\<And>r job. only_errors (effects_of (offer_job rt r job))"
  shows "only_errors (effects_of (run_plans rt sends (\<lambda>pd st msg. answers (fail_all_buffered_impl pd (length pd) w None st msg)) mk_job n
      (plans (plan_invocations builder key ts mx pending items))))"
    "only_errors (effects_of (run_plans rt sends (\<lambda>pd st msg. map StreamEff (fail_all_stream_impl pd (length pd) w None st msg)) mk_job' n
      (plans (plan_invocations builder key ts mx pending' items))))"
proof -
  have st: "st \<in> {TOO_MANY_REQUESTS, INTERNAL_SERVER_ERROR, BAD_GATEWAY}"
    if "Fail pd st msg \<in> set (plans (plan_invocations builder key ts mx pending items))" for pd st msg
    using plan_fail_status that by blast
  have st': "st \<in> {TOO_MANY_REQUESTS, INTERNAL_SERVER_ERROR, BAD_GATEWAY}"
    if "Fail pd st msg \<in> set (plans (plan_invocations builder key ts mx pending' items))" for pd st msg
    using plan_fail_status that by blast
  show "only_errors (effects_of (run_plans rt sends (\<lambda>pd st msg. answers (fail_all_buffered_impl pd (length pd) w None st msg)) mk_job n
      (plans (plan_invocations builder key ts mx pending items))))"
    using st by (intro run_plans_errors assms fail_all_errors)
  show "only_errors (effects_of (run_plans rt sends (\<lambda>pd st msg. map StreamEff (fail_all_stream_impl pd (length pd) w None st msg)) mk_job' n
      (plans (plan_invocations builder key ts mx pending' items))))"
    using st' by (intro run_plans_errors assms) (simp only: only_errors_simps fail_all_stream_errors)
qed

lemma flush_errors:
  assumes "rt_response_dispatcher rt = default_dispatcher ext env" "rt_probe_feedback_reporter rt = default_reporter"
  shows "only_errors (effects_of (flush_batch ext' key rt sends ts w rps is_probe batch))"
proof -
  obtain b st effs where c: "collect_sinks batch ([], []) = ((b, st), effs)" by (metis surj_pair)
  have d: "fail_all_buffered (default_dispatcher ext env) = fail_all_buffered_impl"
    "fail_all_stream (default_dispatcher ext env) = fail_all_stream_impl" by (simp_all add: default_dispatcher_def)
  show ?thesis using drop_effects [OF c]
    by (simp add: flush_batch_def c Let_def flush_buffered_def flush_stream_def assms(1) d fail_all_errors fail_all_stream_errors
        plan_errors [OF offer_errors [OF assms]] del: collect_sinks.simps)
qed

text \<open>Every job of a flush carries requests of the batch.\<close>

lemma listed_image: "set ys \<subseteq> f ` set xs \<Longrightarrow> \<exists>zs. ys = map f zs \<and> set zs \<subseteq> set xs"
proof (induction ys)
  case (Cons y ys)
  then obtain zs x where "ys = map f zs" "set zs \<subseteq> set xs" "y = f x" "x \<in> set xs" by auto
  then show ?case by (intro exI [of _ "x # zs"]) simp
qed simp

lemma invoked_group:
  assumes ok: "hm_ok m" and keys: "fst ` set m \<subseteq> bi_id ` set (map (request_item ext ts) batch)"
    and p: "Invoke pd pl \<in> set (plans (plan_invocations (v1_build_payload ext) key ts mx m (map (request_item ext ts) batch)))"
  obtains grp where "set pd \<subseteq> set m" "set grp \<subseteq> set batch" "v1_build_payload ext key ts (map (request_item ext ts) grp) = Inr pl"
    "\<And>i. i \<in> fst ` set pd \<Longrightarrow> i \<in> pr_id ` set grp"
proof -
  obtain items where i: "set pd \<subseteq> set m" "set items \<subseteq> set (map (request_item ext ts) batch)"
    "v1_build_payload ext key ts items = Inr pl" "fst ` set pd \<subseteq> bi_id ` set items"
    using plan_carries [rule_format, OF conjI [OF ok keys] p] by blast
  obtain grp where g: "items = map (request_item ext ts) grp" "set grp \<subseteq> set batch"
    using listed_image [of items "request_item ext ts" batch] i(2) by auto
  have "i \<in> pr_id ` set grp" if "i \<in> fst ` set pd" for i using i(4) that unfolding g(1) by (auto simp: image_image)
  then show thesis using that i(1,3) g by simp
qed

lemma flush_carries:
  assumes b: "rt_batch_event_builder rt = v1_build_payload ext" and known: "\<And>req. req \<in> set batch \<Longrightarrow> known req"
    and job: "job \<in> set (jobs_of (flush_batch ext key rt sends ts w rps is_probe batch))"
  shows "carries_requests ext known job"
proof -
  obtain bs st effs where c: "collect_sinks batch ([], []) = ((bs, st), effs)" by (metis surj_pair)
  have ok: "hm_ok bs" "hm_ok st" using collect_sinks_callers [OF _ c] by (simp_all add: sinks_ok_def)
  have src: "\<exists>req \<in> set batch. pr_id req = i \<and> pr_respond_to req = SinkBuffered ch" if "(i, ch) \<in> set bs" for i ch
    using collect_sinks_from(1) [OF c that] by simp
  have src': "\<exists>req \<in> set batch. \<exists>ch. pr_id req = i \<and> pr_respond_to req = SinkStream ch (sp_body e) \<and> sp_init e = Some ch" if "(i, e) \<in> set st" for i e
    using collect_sinks_from(2) [OF c that] by simp
  have keys: "fst ` set bs \<subseteq> bi_id ` set (map (request_item ext ts) batch)" "fst ` set st \<subseteq> bi_id ` set (map (request_item ext ts) batch)"
    using src src' by force+
  have facts: "case job of JobBuffered _ _ \<Rightarrow> bk_invoke_mode key = Buffered | JobStream _ _ \<Rightarrow> bk_invoke_mode key = ResponseStream"
    using flush_job_facts [OF job] by blast
  show ?thesis
  proof (cases job)
    case (JobBuffered ji pending)
    define mk where "mk pd pl = JobBuffered \<lparr>ji_key = key, ji_wait_ms = w, ji_estimated_rps = rps, ji_is_probe = is_probe,
      ji_duration_feedback_tx = rt_duration_feedback_tx rt, ji_payload = pl\<rparr> pd" for pd pl
    obtain fp where "job \<in> set (jobs_of (run_plans rt sends fp mk 0
        (plans (plan_invocations (v1_build_payload ext) key ts (rt_max_invoke_payload_bytes rt) bs (map (request_item ext ts) batch)))))"
      using job facts JobBuffered unfolding flush_batch_def c by (simp add: Let_def flush_buffered_def b mk_def [abs_def])
    from run_plans_jobs [OF this] obtain pd pl where
      p: "Invoke pd pl \<in> set (plans (plan_invocations (v1_build_payload ext) key ts (rt_max_invoke_payload_bytes rt) bs (map (request_item ext ts) batch)))"
      and jb: "job = mk pd pl" by blast
    obtain grp where g: "set pd \<subseteq> set bs" "set grp \<subseteq> set batch" "v1_build_payload ext key ts (map (request_item ext ts) grp) = Inr pl"
      "\<And>i. i \<in> fst ` set pd \<Longrightarrow> i \<in> pr_id ` set grp" using invoked_group [OF ok(1) keys(1) p] by metis
    have pend: "i \<in> pr_id ` set grp \<and> (\<exists>req. known req \<and> pr_id req = i \<and> pr_respond_to req = SinkBuffered ch)"
      if "(i, ch) \<in> set pd" for i ch using g(1) g(4) [of i] src that known by force
    show ?thesis unfolding jb mk_def carries_requests.simps
      using g(2,3) known pend by (intro exI [of _ ts] exI [of _ grp]) auto
  next
    case (JobStream ji pending)
    define mk where "mk pd pl = JobStream \<lparr>ji_key = key, ji_wait_ms = w, ji_estimated_rps = rps, ji_is_probe = is_probe,
      ji_duration_feedback_tx = rt_duration_feedback_tx rt, ji_payload = pl\<rparr> pd" for pd pl
    obtain fp where "job \<in> set (jobs_of (run_plans rt sends fp mk 0
        (plans (plan_invocations (v1_build_payload ext) key ts (rt_max_invoke_payload_bytes rt) st (map (request_item ext ts) batch)))))"
      using job facts JobStream unfolding flush_batch_def c by (simp add: Let_def flush_stream_def b mk_def [abs_def])
    from run_plans_jobs [OF this] obtain pd pl where
      p: "Invoke pd pl \<in> set (plans (plan_invocations (v1_build_payload ext) key ts (rt_max_invoke_payload_bytes rt) st (map (request_item ext ts) batch)))"
      and jb: "job = mk pd pl" by blast
    obtain grp where g: "set pd \<subseteq> set st" "set grp \<subseteq> set batch" "v1_build_payload ext key ts (map (request_item ext ts) grp) = Inr pl"
      "\<And>i. i \<in> fst ` set pd \<Longrightarrow> i \<in> pr_id ` set grp" using invoked_group [OF ok(2) keys(2) p] by metis
    have pend: "i \<in> pr_id ` set grp \<and> (\<exists>req ch. known req \<and> pr_id req = i \<and> pr_respond_to req = SinkStream ch (sp_body e) \<and> sp_init e = Some ch)"
      if "(i, e) \<in> set pd" for i e
    proof -
      have "i \<in> pr_id ` set grp" using g(4) [of i] that by force
      moreover have "(i, e) \<in> set st" using g(1) that by blast
      ultimately show ?thesis using src' known by metis
    qed
    show ?thesis unfolding jb mk_def carries_requests.simps
      using g(2,3) known pend by (intro exI [of _ ts] exI [of _ grp]) auto
  qed
qed

end
