(* ===== verification/Answers.thy ===== *)
theory Answers
  imports Carriage End_To_End
begin

text \<open>
  Whose answer a caller gets: the whole gateway with functions behind it that use the Rust adapter. In every
  interleaving, what a waiting buffered handler can receive is what the function's handler returned for that
  handler's own request, or an error of the gateway; a response is never handed to another caller.
\<close>

subsection \<open>The functions\<close>

text \<open>The functions behind the gateway, all built with the Rust adapter: how one reads its event and each item of it,
  and the handler of each. Reading is \<open>serde\<close> on types of the AWS SDK.\<close>

record ('a, 'e) function_side =
  fs_lib :: ext_lib
  fs_read :: "bytes \<Rightarrow> 'a batch_request_event res"
  fs_item_of :: "json \<Rightarrow> 'a event_item"
  fs_handler :: "string \<Rightarrow> 'a event_item \<Rightarrow> 'e + handler_response"
  fs_to_vec :: "ndjson_record \<Rightarrow> bytes res"

text \<open>An event is read as it was written: the items of its batch one by one, each with its request id.\<close>

definition function_reads :: "ext_lib \<Rightarrow> ('a, 'e) function_side \<Rightarrow> bool" where
  "function_reads ext fs \<longleftrightarrow>
     (\<forall>key ts items payload. v1_build_payload ext key ts items = Inr payload \<longrightarrow>
        (\<exists>event. fs_read fs payload = Inr event \<and> be_batch event = map (\<lambda>i. fs_item_of fs (batch_item_json i)) items)) \<and>
     (\<forall>j. it_request_id (fs_item_of fs j) = event_request_id j)"

text \<open>A line the gateway reads is what the adapter wrote: the fields of a legacy record, or those of an interleaved record
  with an absent flag read as \<open>false\<close>. A record is written as JSON without a line break, and \<open>{}\<close>, which stands for one
  that cannot be written, is no record.\<close>

definition one_line :: "bytes \<Rightarrow> bool" where
  "one_line line \<longleftrightarrow> line \<noteq> [] \<and> last line \<noteq> carriage \<and> newline \<notin> set line"

lemma strip_cr_one_line: "one_line line \<Longrightarrow> strip_cr line = line"
  by (simp add: one_line_def strip_cr_def)

definition type_named :: "string \<Rightarrow> stream_record_type option" where
  "type_named s = (if s = ''head'' then Some Head else if s = ''chunk'' then Some Chunk else if s = ''end'' then Some End
     else if s = ''error'' then Some Error else None)"

fun read_record :: "ndjson_record \<Rightarrow> stream_response_record option" where
  "read_record (LegacyRecord v i) = Some (Legacy \<lparr>sl_v = v, sl_id = ai_id i, sl_status_code = ai_status_code i,
     sl_headers = ai_headers i, sl_cookies = ai_cookies i, sl_body = ai_body i, sl_is_base64_encoded = ai_is_base64_encoded i\<rparr>)"
| "read_record (InterleavedRecord r) = map_option (\<lambda>t. Interleaved \<lparr>si_v = nj_v r, si_id = nj_id r, si_record_type = t,
     si_status_code = nj_status_code r, si_headers = nj_headers r, si_cookies = nj_cookies r, si_body = nj_body r,
     si_is_base64_encoded = (nj_is_base64_encoded r = Some True), si_message = nj_message r\<rparr>) (type_named (nj_record_type r))"

definition function_writes :: "ext_lib \<Rightarrow> ('a, 'e) function_side \<Rightarrow> bool" where
  "function_writes ext fs \<longleftrightarrow>
     (\<forall>rec line. fs_to_vec fs rec = Inr line \<longrightarrow> one_line line \<and>
        (\<forall>r. parse_stream_record ext line = Inr r \<longrightarrow> read_record rec = Some r)) \<and>
     (\<forall>r. parse_stream_record ext ''{}'' \<noteq> Inr r)"

text \<open>What an invocation of a function can return: its handlers complete in some order, under some limit.\<close>

definition adapter_returns :: "ext_lib \<Rightarrow> ('a, 'e) function_side \<Rightarrow> string \<Rightarrow> bytes \<Rightarrow> bytes \<Rightarrow> bool" where
  "adapter_returns ext fs target payload bytes \<longleftrightarrow>
     (\<exists>event c ks s os resp. fs_read fs payload = Inr event \<and>
        run (handle_complete (fs_lib fs) (fs_handler fs target)) (handle_start c event) ks = Some (s, os) \<and>
        handle_finish s = Some resp \<and> batch_response_from_slice ext bytes = Inr (wire_response resp))"

text \<open>A streamed response is a part of what the merged stream yields, in any pieces; it only ends in order when it is complete.\<close>

definition adapter_streams :: "ext_lib \<Rightarrow> ('a, 'e) function_side \<Rightarrow> string \<Rightarrow> bytes \<Rightarrow> bytes res list \<Rightarrow> bool" where
  "adapter_streams ext fs target payload stream \<longleftrightarrow>
     (\<exists>event interleaved c sels s rs. fs_read fs payload = Inr event \<and> list_all select_ok sels \<and>
        run poll_step (stream_start (fs_lib fs) (fs_to_vec fs) interleaved (fs_handler fs target) c event) sels = Some (s, rs) \<and>
        prefix (received_text stream) (concat (yielded rs)) \<and>
        (ends_cleanly stream \<longrightarrow> received_text stream = concat (yielded rs)))"

definition served :: "ext_lib \<Rightarrow> ('a, 'e) function_side \<Rightarrow> live \<Rightarrow> live_event \<Rightarrow> bool" where
  "served ext fs g e \<longleftrightarrow>
     (\<forall>i bytes report el1 el2 ji pending.
        e = QueueMoves (JobDone i (Inr (ResBuffered bytes report)) el1 el2) \<and> i < length (jq_running (lv_queue g)) \<and>
          jq_running (lv_queue g) ! i = JobBuffered ji pending \<longrightarrow>
        adapter_returns ext fs (bk_target_lambda (ji_key ji)) (ji_payload ji) bytes) \<and>
     (\<forall>i stream report el1 el2 ji pending.
        e = QueueMoves (JobDone i (Inr (ResStream stream report)) el1 el2) \<and> i < length (jq_running (lv_queue g)) \<and>
          jq_running (lv_queue g) ! i = JobStream ji pending \<longrightarrow>
        adapter_streams ext fs (bk_target_lambda (ji_key ji)) (ji_payload ji) stream)"

text \<open>A run of the gateway in which every invocation that succeeds, buffered or streamed, is one of such a function.\<close>

inductive served_run :: "ext_lib \<Rightarrow> ('a, 'e) function_side \<Rightarrow> live_env \<Rightarrow> live \<Rightarrow> live_event list \<Rightarrow> live \<Rightarrow> http_out list \<Rightarrow> bool"
  for ext fs le where
  served_start: "served_run ext fs le g [] g []"
| served_step: "served_run ext fs le g es g' outs \<Longrightarrow> served ext fs g' e \<Longrightarrow> live_step le g' e g'' outs' \<Longrightarrow>
    served_run ext fs le g (es @ [e]) g'' (outs @ outs')"

lemma served_live: "served_run ext fs le g es g' outs \<Longrightarrow> live_run le g es g' outs"
  by (induction rule: served_run.induct) (auto intro: live_run.intros)

text \<open>The answer made of what the handler of the operation's function returns for this request.\<close>

definition own_response :: "ext_lib \<Rightarrow> ('a, 'e) function_side \<Rightarrow> string \<Rightarrow> u64 \<Rightarrow> pending_request \<Rightarrow> gateway_response" where
  "own_response ext fs target ts req = buffered_response ext (wire_item (response_item (fs_lib fs) (fs_handler fs target)
     (fs_item_of fs (batch_item_json (request_item ext ts req)))))"

definition own_answer :: "ext_lib \<Rightarrow> ('a, 'e) function_side \<Rightarrow> operation_config \<Rightarrow> pending_request \<Rightarrow> gateway_response \<Rightarrow> bool" where
  "own_answer ext fs op req resp \<longleftrightarrow>
     (\<exists>n w el ts. resp = with_meta n w (Some el) (own_response ext fs (oc_target_lambda op) ts req))"

lemma adapter_answers:
  assumes reads: "function_reads ext fs" and ret: "adapter_returns ext fs target payload bytes"
    and pl: "v1_build_payload ext key ts (map (request_item ext ts) grp) = Inr payload" and i: "i \<in> pr_id ` set grp"
  shows "\<exists>req \<in> set grp. pr_id req = i \<and> buffered_answer ext bytes i = own_response ext fs target ts req"
proof -
  let ?item = "\<lambda>req. fs_item_of fs (batch_item_json (request_item ext ts req))"
  let ?rec = "\<lambda>req. wire_item (response_item (fs_lib fs) (fs_handler fs target) (?item req))"
  obtain event c ks s os resp where r: "fs_read fs payload = Inr event"
    "run (handle_complete (fs_lib fs) (fs_handler fs target)) (handle_start c event) ks = Some (s, os)"
    "handle_finish s = Some resp" "batch_response_from_slice ext bytes = Inr (wire_response resp)"
    using ret by (auto simp: adapter_returns_def)
  have batch: "be_batch event = map ?item grp"
    using reads pl r(1) by (fastforce simp: function_reads_def comp_def)
  have resp: "resp = \<lparr>as_v = 1, as_responses = map (response_item (fs_lib fs) (fs_handler fs target)) (be_batch event)\<rparr>"
    using handle_finish_inv handle_run_inv [OF r(2) handle_start_inv] r(3) by (metis option.inject option.distinct(1))
  have ids: "bri_id (?rec req) = pr_id req" for req
    using reads by (simp add: wire_item_def function_reads_def item_id_def)
  have "\<exists>req \<in> set grp. pr_id req = i \<and> find (\<lambda>r. bri_id r = i) (map ?rec grp) = Some (?rec req)"
    using i by (induction grp) (auto simp: ids)
  then show ?thesis
    by (auto simp: buffered_answer_def r(4) wire_response_def resp batch record_answer_def own_response_def comp_def)
qed

text \<open>The same for a part of a streamed response.\<close>

definition own_part :: "ext_lib \<Rightarrow> ('a, 'e) function_side \<Rightarrow> operation_config \<Rightarrow> pending_request \<Rightarrow> stream_out \<Rightarrow> bool" where
  "own_part ext fs op req x \<longleftrightarrow>
     (\<exists>interleaved ts rec r. read_record rec = Some r \<and> says ext r x \<and>
        rec \<in> set (item_records (fs_lib fs) interleaved (fs_handler fs (oc_target_lambda op))
          (fs_item_of fs (batch_item_json (request_item ext ts req)))))"

lemma split_on_sep: "c \<notin> set s \<Longrightarrow> split_on c (s @ c # t) = s # split_on c t"
  by (induction s) auto

lemma split_lines: "(\<And>s. s \<in> set ls \<Longrightarrow> newline \<notin> set s) \<Longrightarrow> split_on newline (concat (map (\<lambda>s. s @ [newline]) ls)) = ls @ [[]]"
  by (induction ls) (simp_all add: split_on_sep)

lemma yielded_lines:
  assumes "list_all select_ok sels" "run poll_step (stream_start lib to_vec interleaved handler c event) sels = Some (t, rs)"
  shows "set (yielded rs) \<subseteq> ndjson_line to_vec ` set (concat (map (item_records lib interleaved handler) (be_batch event)))"
proof -
  let ?s = "stream_start lib to_vec interleaved handler c event"
  have start: "0 < cs_limit ?s" "select_inv ?s" by (simp_all add: stream_start_def select_inv_def)
  have m: "merges (remaining ?s) (yielded rs) (remaining t)" using poll_run_spec [OF assms(1) start] assms(2) by auto
  have "mset (yielded rs) \<subseteq># (\<Sum>s \<in># remaining ?s. mset s)" unfolding merges_mset [OF m] by simp
  also have "\<dots> = mset (map (ndjson_line to_vec) (concat (map (item_records lib interleaved handler) (be_batch event))))"
    by (simp add: stream_start_def remaining_def map_concat mset_concat comp_def image_mset.compositionality sum_mset_sum_list
        flip: mset_map)
  finally show ?thesis by (metis image_set set_mset_mono set_mset_mset)
qed

lemma split_lines_prefix:
  assumes "\<And>l. l \<in> set ls \<Longrightarrow> newline \<notin> set l" "prefix t (concat (map (\<lambda>l. l @ [newline]) ls))"
  shows "prefix (butlast (split_on newline t)) ls"
  using assms
proof (induction ls arbitrary: t)
  case (Cons l ls)
  have l: "newline \<notin> set l" using Cons.prems(1) by simp
  have p: "prefix t (l @ newline # concat (map (\<lambda>l. l @ [newline]) ls))" using Cons.prems(2) by simp
  show ?case
  proof (cases "newline \<in> set t")
    case False
    then show ?thesis by (simp add: split_on_none split_once_None)
  next
    case True
    then obtain t' where t: "t = l @ newline # t'" "prefix t' (concat (map (\<lambda>l. l @ [newline]) ls))"
      using p l by (auto simp: prefix_append prefix_Cons dest: set_mono_prefix)
    have "split_on newline t = l # split_on newline t'" unfolding t(1) by (rule split_on_sep [OF l])
    then show ?thesis using Cons.IH [OF _ t(2)] Cons.prems(1) by auto
  qed
qed simp

lemma adapter_parts:
  assumes reads: "function_reads ext fs" and wr: "function_writes ext fs" and ret: "adapter_streams ext fs target payload stream"
    and pl: "v1_build_payload ext key ts (map (request_item ext ts) grp) = Inr payload"
    and r: "r \<in> set (records_in ext (seen_lines [] stream))"
  shows "\<exists>req \<in> set grp. pr_id req = record_id_of r \<and> (\<exists>interleaved rec. read_record rec = Some r \<and>
    rec \<in> set (item_records (fs_lib fs) interleaved (fs_handler fs target) (fs_item_of fs (batch_item_json (request_item ext ts req)))))"
proof -
  let ?item = "\<lambda>req. fs_item_of fs (batch_item_json (request_item ext ts req))"
  obtain event il c sels s rs where e: "fs_read fs payload = Inr event" "list_all select_ok sels"
    "run poll_step (stream_start (fs_lib fs) (fs_to_vec fs) il (fs_handler fs target) c event) sels = Some (s, rs)"
    "prefix (received_text stream) (concat (yielded rs))" "ends_cleanly stream \<longrightarrow> received_text stream = concat (yielded rs)"
    using ret by (auto simp: adapter_streams_def)
  have batch: "be_batch event = map ?item grp"
    using reads pl e(1) by (fastforce simp: function_reads_def comp_def)
  let ?recs = "concat (map (item_records (fs_lib fs) il (fs_handler fs target)) (be_batch event))"
  define ls where "ls = map (\<lambda>y. butlast y) (yielded rs)"
  have "set (yielded rs) \<subseteq> ndjson_line (fs_to_vec fs) ` set ?recs" by (rule yielded_lines [OF e(2,3)])
  then have y: "\<exists>rec \<in> set ?recs. y = (case fs_to_vec fs rec of Inl _ \<Rightarrow> ''{}'' | Inr line \<Rightarrow> line) @ [newline]" if "y \<in> set (yielded rs)" for y
    using that by (fastforce simp: ndjson_line_def)
  have ls: "\<exists>rec \<in> set ?recs. l = (case fs_to_vec fs rec of Inl _ \<Rightarrow> ''{}'' | Inr line \<Rightarrow> line)" if "l \<in> set ls" for l
    using that y by (fastforce simp: ls_def)
  have "map (\<lambda>l. l @ [newline]) ls = yielded rs" using y by (force simp: ls_def intro!: map_idI)
  then have all: "concat (yielded rs) = concat (map (\<lambda>l. l @ [newline]) ls)" by simp
  have nl: "newline \<notin> set l" if mem: "l \<in> set ls" for l
  proof -
    obtain rec where "l = (case fs_to_vec fs rec of Inl _ \<Rightarrow> ''{}'' | Inr line \<Rightarrow> line)" using ls [OF mem] by blast
    then show ?thesis using wr by (cases "fs_to_vec fs rec") (simp_all add: function_writes_def one_line_def)
  qed
  obtain line where line: "line \<in> set (seen_lines [] stream)" "line \<noteq> []" "parse_stream_record ext line = Inr r"
    using records_inD [OF r] by blast
  have "line \<in> strip_cr ` set ls"
  proof -
    have "strip_eol (last (split_on newline (received_text stream))) = []" if "ends_cleanly stream"
      using e(5) that nl by (simp add: all split_lines strip_eol_def)
    then show ?thesis using line(1,2) set_mono_prefix [OF split_lines_prefix [OF nl, of ls "received_text stream"]] e(4) unfolding all
      by (auto simp: seen_lines_def Let_def split: if_splits)
  qed
  then obtain l rec where l: "line = strip_cr l" "rec \<in> set ?recs" "l = (case fs_to_vec fs rec of Inl _ \<Rightarrow> ''{}'' | Inr line \<Rightarrow> line)"
    using ls by blast
  have rr: "read_record rec = Some r"
    using wr line(3) l(1,3) strip_cr_one_line by (cases "fs_to_vec fs rec") (auto simp: function_writes_def strip_cr_def)
  obtain req where req: "req \<in> set grp" "rec \<in> set (item_records (fs_lib fs) il (fs_handler fs target) (?item req))"
    using l(2) by (auto simp: batch)
  have "record_id rec = item_id (?item req)" using item_records_id [OF req(2)] .
  then have "record_id_of r = pr_id req"
    using rr reads by (cases rec) (auto simp: function_reads_def item_id_def)
  then show ?thesis using req rr by metis
qed

subsection \<open>Every answer is sound\<close>

text \<open>An answer sent to a channel is an error of the gateway, or it answers a request with the id of the request that
  waits on this channel.\<close>

definition parts_sound :: "ext_lib \<Rightarrow> ('a, 'e) function_side \<Rightarrow> manager \<Rightarrow> effect list \<Rightarrow> bool" where
  "parts_sound ext fs m effs \<longleftrightarrow> (\<forall>x. StreamEff x \<in> set effs \<longrightarrow> stream_error x \<or>
     (\<exists>op req c b op' req'. Enqueue op req \<in> set (calls_made m) \<and> pr_respond_to req = SinkStream c b \<and>
        concerns \<lparr>sp_init = Some c, sp_body = b\<rparr> x \<and>
        Enqueue op' req' \<in> set (calls_made m) \<and> pr_id req' = pr_id req \<and> own_part ext fs op' req' x))"

definition answers_sound :: "ext_lib \<Rightarrow> ('a, 'e) function_side \<Rightarrow> manager \<Rightarrow> effect list \<Rightarrow> bool" where
  "answers_sound ext fs m effs \<longleftrightarrow> (\<forall>c resp. effect.Answer c resp \<in> set effs \<longrightarrow> gateway_error resp \<or>
     (\<exists>op req op' req'. Enqueue op req \<in> set (calls_made m) \<and> pr_respond_to req = SinkBuffered c \<and>
        Enqueue op' req' \<in> set (calls_made m) \<and> pr_id req' = pr_id req \<and> own_answer ext fs op' req' resp)) \<and>
     parts_sound ext fs m effs"

abbreviation job_carries :: "ext_lib \<Rightarrow> manager \<Rightarrow> invocation_job \<Rightarrow> bool" where
  "job_carries ext m job \<equiv> carries_requests ext (from_thread m (ji_key (job_info_of job))) job"

lemma from_thread_call:
  "from_thread m k req \<Longrightarrow> \<exists>op. Enqueue op req \<in> set (calls_made m) \<and> batch_key_of op req = k"
  by (auto simp: from_thread_def calls_made_def)

lemma answers_sound_append [simp]:
  "answers_sound ext fs m (xs @ ys) \<longleftrightarrow> answers_sound ext fs m xs \<and> answers_sound ext fs m ys"
  by (auto simp: answers_sound_def parts_sound_def)

lemma answers_sound_Nil [simp]: "answers_sound ext fs m []"
  by (simp add: answers_sound_def parts_sound_def)

lemma errors_sound: "only_errors effs \<Longrightarrow> answers_sound ext fs m effs"
  by (simp add: only_errors_def answers_sound_def parts_sound_def)

lemma answers_sound_mono:
  "answers_sound ext fs m effs \<Longrightarrow> set (calls_made m) \<subseteq> set (calls_made m') \<Longrightarrow> answers_sound ext fs m' effs"
  unfolding answers_sound_def parts_sound_def by (meson subsetD)

lemma dispatched_sound:
  assumes ok: "hm_ok pending" and carries: "job_carries ext m (JobBuffered ji pending)" and reads: "function_reads ext fs"
    and ret: "adapter_returns ext fs (bk_target_lambda (ji_key ji)) (ji_payload ji) bytes"
  shows "answers_sound ext fs m (answers (dispatch_buffered_impl ext key w el bytes pending))"
  unfolding answers_sound_def
proof (intro allI impI disjI2 conjI)
  show "parts_sound ext fs m (answers (dispatch_buffered_impl ext key w el bytes pending))" by (auto simp: parts_sound_def)
next
  fix c resp assume "effect.Answer c resp \<in> set (answers (dispatch_buffered_impl ext key w el bytes pending))"
  then have "(c, resp) \<in># mset (dispatch_buffered_impl ext key w el bytes pending)" by auto
  then obtain i where i: "(i, c) \<in> set pending" "resp = with_meta (length pending) w (Some el) (buffered_answer ext bytes i)"
    unfolding dispatch_buffered_spec [OF ok] by auto
  obtain ts grp where g: "v1_build_payload ext (ji_key ji) ts (map (request_item ext ts) grp) = Inr (ji_payload ji)"
    "\<forall>req \<in> set grp. from_thread m (ji_key ji) req" "i \<in> pr_id ` set grp"
    "\<exists>req. from_thread m (ji_key ji) req \<and> pr_id req = i \<and> pr_respond_to req = SinkBuffered c"
    using carries i(1) by (simp only: carries_requests.simps job_info_of.simps) metis
  obtain req' where r: "req' \<in> set grp" "pr_id req' = i"
    "buffered_answer ext bytes i = own_response ext fs (bk_target_lambda (ji_key ji)) ts req'"
    using adapter_answers [OF reads ret g(1,3)] by blast
  obtain op' where op': "Enqueue op' req' \<in> set (calls_made m)" "batch_key_of op' req' = ji_key ji"
    using from_thread_call g(2) r(1) by blast
  obtain op req where w: "Enqueue op req \<in> set (calls_made m)" "pr_id req = i" "pr_respond_to req = SinkBuffered c"
    using from_thread_call g(4) by blast
  have "own_answer ext fs op' req' resp"
    unfolding own_answer_def i(2) r(3) op'(2) [symmetric] by (auto simp: batch_key_of_def)
  then show "\<exists>op req op' req'. Enqueue op req \<in> set (calls_made m) \<and> pr_respond_to req = SinkBuffered c \<and>
      Enqueue op' req' \<in> set (calls_made m) \<and> pr_id req' = pr_id req \<and> own_answer ext fs op' req' resp"
    using op'(1) w r(2) by metis
qed

lemma streamed_sound:
  assumes carries: "job_carries ext m (JobStream ji pending)" and reads: "function_reads ext fs" and wr: "function_writes ext fs"
    and ret: "adapter_streams ext fs (bk_target_lambda (ji_key ji)) (ji_payload ji) stream"
  shows "answers_sound ext fs m (map StreamEff (dispatch_response_stream_impl ext env key w stream pending))"
  unfolding answers_sound_def parts_sound_def
proof (intro allI impI conjI)
  fix x assume "StreamEff x \<in> set (map StreamEff (dispatch_response_stream_impl ext env key w stream pending))"
  then have "carried ext (set (records_in ext (seen_lines [] stream))) pending x" by (auto intro: dispatch_stream_carried)
  then consider "is_drop x" | "made_by_gateway x" | i e r where "(i, e) \<in> set pending" "concerns e x"
    "r \<in> set (records_in ext (seen_lines [] stream))" "record_id_of r = i" "says ext r x"
    unfolding carried_def by blast
  then show "stream_error x \<or> (\<exists>op req c b op' req'. Enqueue op req \<in> set (calls_made m) \<and> pr_respond_to req = SinkStream c b \<and>
      concerns \<lparr>sp_init = Some c, sp_body = b\<rparr> x \<and>
      Enqueue op' req' \<in> set (calls_made m) \<and> pr_id req' = pr_id req \<and> own_part ext fs op' req' x)"
  proof cases
    case 2
    then show ?thesis unfolding made_by_gateway_def stream_error_def gateway_error_def by blast
  next
    case 3
    obtain ts grp where g: "v1_build_payload ext (ji_key ji) ts (map (request_item ext ts) grp) = Inr (ji_payload ji)"
      "\<forall>req \<in> set grp. from_thread m (ji_key ji) req"
      "\<exists>req c. from_thread m (ji_key ji) req \<and> pr_id req = i \<and> pr_respond_to req = SinkStream c (sp_body e) \<and> sp_init e = Some c"
      using carries 3(1) by (simp only: carries_requests.simps job_info_of.simps) metis
    obtain req' il rec where r: "req' \<in> set grp" "pr_id req' = i" "read_record rec = Some r"
      "rec \<in> set (item_records (fs_lib fs) il (fs_handler fs (bk_target_lambda (ji_key ji))) (fs_item_of fs (batch_item_json (request_item ext ts req'))))"
      using adapter_parts [OF reads wr ret g(1) 3(3)] 3(4) by blast
    obtain op' where op': "Enqueue op' req' \<in> set (calls_made m)" "batch_key_of op' req' = ji_key ji"
      using from_thread_call g(2) r(1) by blast
    obtain op req c where w: "Enqueue op req \<in> set (calls_made m)" "pr_id req = i" "pr_respond_to req = SinkStream c (sp_body e)" "sp_init e = Some c"
      using from_thread_call g(3) by blast
    have "bk_target_lambda (ji_key ji) = oc_target_lambda op'" unfolding op'(2) [symmetric] by (simp add: batch_key_of_def)
    then have "own_part ext fs op' req' x" unfolding own_part_def using r(3,4) 3(5) by auto
    moreover have "concerns \<lparr>sp_init = Some c, sp_body = sp_body e\<rparr> x" using 3(2) w(4) by (metis stream_pending.surjective unit.exhaust)
    ultimately show ?thesis using op'(1) w(1-3) r(2) by metis
  qed (simp add: stream_error_def)
qed auto

lemma run_job_sound:
  assumes ok: "job_ok job" and carries: "job_carries ext m job" and reads: "function_reads ext fs" and wr: "function_writes ext fs"
    and ret: "\<And>bytes report ji pending. outcome = Inr (ResBuffered bytes report) \<Longrightarrow> job = JobBuffered ji pending \<Longrightarrow>
      adapter_returns ext fs (bk_target_lambda (ji_key ji)) (ji_payload ji) bytes"
    and str: "\<And>stream report ji pending. outcome = Inr (ResStream stream report) \<Longrightarrow> job = JobStream ji pending \<Longrightarrow>
      adapter_streams ext fs (bk_target_lambda (ji_key ji)) (ji_payload ji) stream"
  shows "answers_sound ext fs m (run_invocation_job (default_dispatcher ext env) default_reporter outcome el1 el2 job)"
proof (cases job)
  case (JobBuffered ji pending)
  have err: "answers_sound ext fs m (answers (fail_all_buffered_impl pending n w el BAD_GATEWAY msg))" for n w el msg
    by (intro errors_sound fail_all_errors) simp
  have rep: "answers_sound ext fs m (report_default tx ok el)" for tx ok el by (intro errors_sound report_errors)
  have ok': "hm_ok pending" using ok JobBuffered by simp
  have d: "answers_sound ext fs m (answers (dispatch_buffered_impl ext (ji_key ji) (ji_wait_ms ji) el1 bytes pending))"
    if "outcome = Inr (ResBuffered bytes report)" for bytes report
    by (rule dispatched_sound [OF ok' carries [unfolded JobBuffered] reads ret [OF that JobBuffered]])
  show ?thesis unfolding JobBuffered run_invocation_job.simps run_buffered_job_def
    using err rep d
    by (auto simp: Let_def default_dispatcher_def default_reporter_def split: sum.split lambda_invoke_result.split)
next
  case (JobStream ji pending)
  have err: "answers_sound ext fs m (map StreamEff (fail_all_stream_impl pending n w el BAD_GATEWAY msg))" for n w el msg
    by (rule errors_sound) (simp add: fail_all_stream_errors)
  have rep: "answers_sound ext fs m (report_default tx ok el)" for tx ok el by (intro errors_sound report_errors)
  have d: "answers_sound ext fs m (map StreamEff (dispatch_response_stream_impl ext env (ji_key ji) (ji_wait_ms ji) stream pending))"
    if "outcome = Inr (ResStream stream report)" for stream report
    by (rule streamed_sound [OF carries [unfolded JobStream] reads wr str [OF that JobStream]])
  show ?thesis unfolding JobStream run_invocation_job.simps run_stream_job_def
    using err rep d
    by (auto simp: Let_def default_dispatcher_def default_reporter_def split: sum.split lambda_invoke_result.split)
qed

definition answers_inv :: "ext_lib \<Rightarrow> ('a, 'e) function_side \<Rightarrow> live \<Rightarrow> bool" where
  "answers_inv ext fs g \<longleftrightarrow> (\<forall>job \<in> set (live_jobs g). job_carries ext (lv_manager g) job) \<and>
     (\<forall>t \<in> set (lv_tasks g). only_errors (effects_of (tk_outbox t))) \<and> answers_sound ext fs (lv_manager g) (lv_log g)"

lemma answers_inv_manager:
  assumes "answers_inv ext fs g" "mgr_step (lv_manager g) e = Some (m, us)"
  shows "answers_inv ext fs (g\<lparr>lv_manager := m\<rparr>)"
proof -
  have "job_carries ext m job" if "job_carries ext (lv_manager g) job" for job
    using carries_mono [OF that] from_thread_step [OF assms(2)] by blast
  moreover have "set (calls_made (lv_manager g)) \<subseteq> set (calls_made m)" using calls_made_step [OF assms(2)] by auto
  ultimately show ?thesis using assms(1) answers_sound_mono by (auto simp: answers_inv_def live_jobs_def)
qed

lemma answers_inv_task:
  assumes "answers_inv ext fs g" "only_errors (effects_of (tk_outbox t))" "answers_sound ext fs (lv_manager g) es"
    and "\<And>job. job \<in> set (held_jobs q) \<union> set (jobs_of (tk_outbox t)) \<Longrightarrow> job_carries ext (lv_manager g) job"
  shows "answers_inv ext fs (set_task c t (g\<lparr>lv_queue := q, lv_log := es\<rparr>))"
proof -
  have "job_carries ext (lv_manager g) job" if "job \<in> set (live_jobs (set_task c t (g\<lparr>lv_queue := q, lv_log := es\<rparr>)))" for job
    using that assms(1,4) by (auto simp: live_jobs_def answers_inv_def dest!: set_update_cases)
  moreover have "only_errors (effects_of (tk_outbox u))" if "u \<in> set ((lv_tasks g)[c := t])" for u
    using set_update_cases [OF that] assms(1,2) by (auto simp: answers_inv_def)
  ultimately show ?thesis using assms(3) by (simp add: answers_inv_def)
qed

text \<open>What a task does with an event: its flushes take requests it received, all with the key of its channel.\<close>

lemma flush_work_sound:
  assumes v1: "v1_services ext env le" and keyed: "keyed_chans m" and ch: "ch' \<in> set (mg_channels m)" "ch_key ch' = ch_key ch"
    and got: "set (flushed fs) \<subseteq> set (ch_received ch')"
  shows "only_errors (effects_of (concat (map (flush_work le c ch now) fs)))"
    "job \<in> set (jobs_of (concat (map (flush_work le c ch now) fs))) \<Longrightarrow> job_carries ext m job"
proof -
  have rt: "rt_response_dispatcher (task_runtime le c cfg) = default_dispatcher ext env"
    "rt_probe_feedback_reporter (task_runtime le c cfg) = default_reporter"
    "rt_batch_event_builder (task_runtime le c cfg) = v1_build_payload ext" for cfg
    using v1 by (simp_all add: v1_services_def default_services_def task_runtime_def)
  show "only_errors (effects_of (concat (map (flush_work le c ch now) fs)))"
    by (induction fs) (simp_all add: flush_work_def flush_errors [OF rt(1,2)])
  assume "job \<in> set (jobs_of (concat (map (flush_work le c ch now) fs)))"
  then have "\<exists>f \<in> set fs. job \<in> set (jobs_of (flush_work le c ch now f))" by (induction fs) auto
  then obtain f where f: "f \<in> set fs" "job \<in> set (jobs_of (flush_work le c ch now f))" by blast
  have known: "from_thread m (ch_key ch) req" if "req \<in> set (fc_batch f)" for req
  proof -
    have "req \<in> set (ch_all ch')" using that f(1) got by (auto simp: flushed_def ch_all_def)
    then show ?thesis using keyed ch by (metis keyed_chans_def)
  qed
  have ext: "ap_ext (le_app le) = ext" using v1 by (simp add: v1_services_def)
  have "ji_key (job_info_of job) = ch_key ch" using f(2) flush_job_facts unfolding flush_work_def by fastforce
  moreover have "carries_requests ext (from_thread m (ch_key ch)) job"
    by (rule flush_carries [OF rt(3) known f(2) [unfolded flush_work_def ext]])
  ultimately show "job_carries ext m job" by simp
qed

lemma answers_inv_event:
  assumes v1: "v1_services ext env le" and inv: "answers_inv ext fs g" "keyed_chans (lv_manager g)" "c < length (mg_channels (lv_manager g))"
    and key: "ch_key (mg_channels (lv_manager g) ! c) = ch_key ch" and step: "batcher_step rt cfg s e = Some (s', calls)"
    and recv: "set (task_held s @ arrived e) \<subseteq> set (ch_received (mg_channels (lv_manager g) ! c))"
  shows "answers_inv ext fs (set_task c \<lparr>tk_state = s', tk_outbox = concat (map (flush_work le c ch now) calls)\<rparr> g)"
proof -
  have got: "set (flushed calls) \<subseteq> set (ch_received (mg_channels (lv_manager g) ! c))"
    using recv unfolding task.step_order [OF step, symmetric] by auto
  note w = flush_work_sound [OF v1 inv(2) nth_mem [OF inv(3)] key got]
  have "answers_inv ext fs (set_task c \<lparr>tk_state = s', tk_outbox = concat (map (flush_work le c ch now) calls)\<rparr>
      (g\<lparr>lv_queue := lv_queue g, lv_log := lv_log g\<rparr>))"
    using inv(1) w by (intro answers_inv_task [OF inv(1)]) (auto simp: answers_inv_def live_jobs_def)
  then show ?thesis by simp
qed

lemma queue_step_sound:
  assumes step: "queue_step (default_dispatcher ext env) default_reporter q qe = Some (q', effs)" and reads: "function_reads ext fs" and wr: "function_writes ext fs"
    and ok: "\<And>job. job \<in> set (held_jobs q) \<Longrightarrow> job_ok job \<and> job_carries ext m job"
    and ret: "\<And>i bytes report el1 el2 ji pending. qe = JobDone i (Inr (ResBuffered bytes report)) el1 el2 \<Longrightarrow>
      i < length (jq_running q) \<Longrightarrow> jq_running q ! i = JobBuffered ji pending \<Longrightarrow>
      adapter_returns ext fs (bk_target_lambda (ji_key ji)) (ji_payload ji) bytes"
    and str: "\<And>i stream report el1 el2 ji pending. qe = JobDone i (Inr (ResStream stream report)) el1 el2 \<Longrightarrow>
      i < length (jq_running q) \<Longrightarrow> jq_running q ! i = JobStream ji pending \<Longrightarrow>
      adapter_streams ext fs (bk_target_lambda (ji_key ji)) (ji_payload ji) stream"
  shows "answers_sound ext fs m effs"
proof -
  show ?thesis
  proof (cases qe)
    case (TryEnqueue job)
    have "effs = (if try_send_job q = SendOk then [] else rejected_job (default_dispatcher ext env) default_reporter (try_send_job q) job)"
      using step TryEnqueue by (auto simp: enqueue_invocation_job_def split: if_splits)
    moreover have "answers_sound ext fs m (rejected_job (default_dispatcher ext env) default_reporter (try_send_job q) job)"
      by (rule errors_sound [OF rejected_errors])
    ultimately show ?thesis by simp
  next
    case SemaphoreClosed
    then obtain job where "effs = job_fail (default_dispatcher ext env) default_reporter BAD_GATEWAY ''gateway shutting down'' job"
      using step by (auto split: option.splits)
    then show ?thesis by (simp only:) (intro errors_sound job_fail_errors, simp)
  next
    case (JobDone i outcome el1 el2)
    then have i: "i < length (jq_running q)" and effs: "effs = run_invocation_job (default_dispatcher ext env) default_reporter outcome el1 el2 (jq_running q ! i)"
      using step by (auto split: if_splits)
    have mem: "jq_running q ! i \<in> set (held_jobs q)" using i by (simp add: held_jobs_def)
    have r: "adapter_returns ext fs (bk_target_lambda (ji_key ji)) (ji_payload ji) bytes"
      if "outcome = Inr (ResBuffered bytes report)" "jq_running q ! i = JobBuffered ji pending" for bytes report ji pending
      by (rule ret [OF _ i that(2)]) (simp add: JobDone that(1))
    have st: "adapter_streams ext fs (bk_target_lambda (ji_key ji)) (ji_payload ji) stream"
      if "outcome = Inr (ResStream stream report)" "jq_running q ! i = JobStream ji pending" for stream report ji pending
      by (rule str [OF _ i that(2)]) (simp add: JobDone that(1))
    show ?thesis unfolding effs by (rule run_job_sound [OF _ _ reads wr r st]) (use ok [OF mem] in simp_all)
  qed (use step in \<open>auto split: option.splits list.splits if_splits\<close>)
qed

lemma answers_inv_step:
  assumes v1: "v1_services ext env le" and reads: "function_reads ext fs" and wr: "function_writes ext fs" and whole: "whole_inv inflight cap g"
    and inv: "answers_inv ext fs g" and sv: "served ext fs g e" and step: "live_step le g e g' outs"
  shows "answers_inv ext fs g'"
proof -
  let ?m = "lv_manager g"
  have live: "live_inv inflight cap g" and keyed: "keyed_chans ?m" and hr: "held_received g"
    and len: "length (lv_tasks g) = length (mg_channels ?m)"
    using whole by (simp_all add: whole_inv_def key_inv_def live_inv_def)
  have d: "rt_response_dispatcher (le_runtime le) = default_dispatcher ext env" "rt_probe_feedback_reporter (le_runtime le) = default_reporter"
    using v1 by (simp_all add: v1_services_def default_services_def)
  have held: "set (task_held (tk_state (lv_tasks g ! c))) \<subseteq> set (ch_received (mg_channels ?m ! c))"
    if "c < length (lv_tasks g)" for c using hr that by (simp add: held_received_def)
  have jobs: "job_carries ext ?m job" if "job \<in> set (live_jobs g)" for job using inv that by (simp add: answers_inv_def)
  have queue: "job_ok job \<and> job_carries ext ?m job" if "job \<in> set (held_jobs (lv_queue g))" for job
    using live jobs that by (auto simp: live_inv_def queue_inv_def live_jobs_def)
  have outbox: "only_errors (effects_of (tk_outbox (lv_tasks g ! c)))" "job \<in> set (jobs_of (tk_outbox (lv_tasks g ! c))) \<Longrightarrow> job \<in> set (live_jobs g)"
    if "c < length (lv_tasks g)" for c job using inv nth_mem [OF that] by (auto simp: answers_inv_def live_jobs_def)
  have log: "answers_sound ext fs ?m (lv_log g)" using inv by (simp add: answers_inv_def)
  from step show ?thesis
  proof cases
    case (http he s)
    then show ?thesis using inv by (simp add: answers_inv_def live_jobs_def)
  next
    case (calls i uuid body s op p m us)
    then show ?thesis using answers_inv_manager [OF inv calls(5)] by (simp add: answers_inv_def live_jobs_def)
  next
    case (call_goes t m us now)
    have sp: "length (lv_tasks g) \<le> length (mg_channels m)" using mgr_step_received [OF call_goes(4)] len by simp
    have old: "u \<in> set (lv_tasks g) \<or> tk_outbox u = []" if "u \<in> set (spawn_tasks le now m (lv_tasks g))" for u
      by (rule spawn_tasks_facts(3) [OF sp that])
    have "job \<in> set (live_jobs (g\<lparr>lv_manager := m\<rparr>))" if "job \<in> set (live_jobs g')" for job
      using that old by (fastforce simp: live_jobs_def call_goes(2))
    moreover have "only_errors (effects_of (tk_outbox u))" if "u \<in> set (lv_tasks g')" for u
      using old [of u] that inv by (auto simp: answers_inv_def call_goes(2))
    ultimately show ?thesis using answers_inv_manager [OF inv call_goes(4)] by (simp add: answers_inv_def call_goes(2))
  next
    case (call_returns t r s)
    then show ?thesis using inv by (simp add: answers_inv_def live_jobs_def)
  next
    case (task_takes c s ch req queue m us t1 t2 s' calls now)
    have c: "c < length (mg_channels ?m)" using task_takes(4) len by simp
    note keeps = mgr_step_keeps [OF task_takes(9) c]
    have "length (mg_channels m) = length (mg_channels ?m)" using mgr_step_length [OF task_takes(9)] by simp
    moreover have "set (task_held s @ arrived (Recv req t1 t2)) \<subseteq> set (ch_received (mg_channels m ! c))"
      using keeps held [OF task_takes(4)] task_takes(5,7,8) by (auto simp: taken_def)
    moreover have "keyed_chans m" using keyed_chans_step [OF task_takes(9) _ keyed] live by (simp add: live_inv_def)
    ultimately show ?thesis unfolding task_takes(2)
      using answers_inv_manager [OF inv task_takes(9)] keeps task_takes(7) c
      by (intro answers_inv_event [OF v1 _ _ _ _ task_takes(10)]) simp_all
  next
    case (task_hears c s be ch s' calls now)
    have c: "c < length (mg_channels ?m)" using task_hears(4) len by simp
    have "arrived be = []" using task_hears(7) by (cases be) auto
    then have "set (task_held s @ arrived be) \<subseteq> set (ch_received (mg_channels ?m ! c))"
      using held [OF task_hears(4)] task_hears(5) by simp
    then show ?thesis unfolding task_hears(2)
      using task_hears(8) by (intro answers_inv_event [OF v1 inv keyed c _ task_hears(9)]) simp_all
  next
    case (task_answers c s x rest)
    have o: "tk_outbox (lv_tasks g ! c) = map Eff [x] @ rest" using task_answers(6) by simp
    have e: "only_errors [x]" "only_errors (effects_of rest)" "jobs_of rest = jobs_of (tk_outbox (lv_tasks g ! c))"
      using outbox(1) [OF task_answers(4)] unfolding o out_simps out_map_Eff only_errors_simps(2) by simp_all
    have "answers_inv ext fs (set_task c \<lparr>tk_state = s, tk_outbox = rest\<rparr> (g\<lparr>lv_queue := lv_queue g, lv_log := lv_log g @ [x]\<rparr>))"
    proof (rule answers_inv_task [OF inv])
      show "answers_sound ext fs ?m (lv_log g @ [x])" using log e(1) by (simp only: only_errors_simps answers_sound_append errors_sound simp_thms)
    qed (use e jobs outbox(2) [OF task_answers(4)] queue in auto)
    then show ?thesis by (simp add: task_answers(2))
  next
    case (task_offers c s job rest q' effs)
    have o: "tk_outbox (lv_tasks g ! c) = [Enqueued job] @ rest" using task_offers(6) by simp
    have e: "only_errors (effects_of rest)" "jobs_of (tk_outbox (lv_tasks g ! c)) = job # jobs_of rest"
      using outbox(1) [OF task_offers(4)] unfolding o out_simps by simp_all
    have carried: "job_carries ext ?m j" if "j \<in> set (held_jobs q') \<union> set (jobs_of rest)" for j
      using that queue_step_jobs [OF task_offers(7)] queue jobs outbox(2) [OF task_offers(4)] e(2) by auto
    have "answers_sound ext fs ?m effs"
      by (rule queue_step_sound [OF task_offers(7) [unfolded d] reads wr queue]) auto
    then have "answers_inv ext fs (set_task c \<lparr>tk_state = s, tk_outbox = rest\<rparr> (g\<lparr>lv_queue := q', lv_log := lv_log g @ effs\<rparr>))"
      using e(1) log carried by (intro answers_inv_task [OF inv]) simp_all
    then show ?thesis by (simp add: task_offers(2))
  next
    case (task_ends c s m us)
    then show ?thesis using answers_inv_manager [OF inv task_ends(8)] by simp
  next
    case (task_unregisters m us c)
    then show ?thesis using answers_inv_manager [OF inv task_unregisters(4)] by simp
  next
    case (queue_moves qe q' effs)
    have "set (held_jobs q') \<subseteq> set (held_jobs (lv_queue g))" using queue_step_jobs [OF queue_moves(5)] queue_moves(4) by (cases qe) auto
    then have "set (live_jobs g') \<subseteq> set (live_jobs g)" by (auto simp: live_jobs_def queue_moves(2))
    moreover have "answers_sound ext fs ?m effs"
      by (rule queue_step_sound [OF queue_moves(5) [unfolded d] reads wr queue]) (use sv in \<open>simp add: served_def queue_moves(1)\<close>)+
    ultimately show ?thesis using inv log by (auto simp: answers_inv_def queue_moves(2))
  next
    case (answer_arrives i rq op p r s)
    then show ?thesis using inv by (simp add: answers_inv_def live_jobs_def)
  qed
qed

subsection \<open>Handlers and their operations\<close>

definition asked :: "server \<Rightarrow> http_out list \<Rightarrow> bool" where
  "asked s calls \<longleftrightarrow> (\<forall>i < length (sv_handlers s). \<forall>op p.
     snd (sv_handlers s ! i) = Calling op p \<or> snd (sv_handlers s ! i) = Waiting op p \<longrightarrow> Enqueue op p \<in> set calls)"

lemma asked_moves:
  assumes "asked s calls" "moved e outs s s'" "set calls \<union> set (filter is_enqueue outs) \<subseteq> set calls'"
  shows "asked s' calls'"
  unfolding asked_def
proof (intro allI impI)
  fix i op p assume i: "i < length (sv_handlers s')"
    and ph: "snd (sv_handlers s' ! i) = Calling op p \<or> snd (sv_handlers s' ! i) = Waiting op p"
  have j: "i < length (sv_handlers s)" using assms(2) i ph by (auto simp: moved_def)
  then have "snd (sv_handlers s' ! i) = snd (sv_handlers s ! i) \<or> phase_moves e outs i (snd (sv_handlers s ! i)) (snd (sv_handlers s' ! i))"
    using assms(2) by (simp add: moved_def)
  then have "snd (sv_handlers s ! i) = Calling op p \<or> snd (sv_handlers s ! i) = Waiting op p \<or> outs = [Enqueue op p]" using ph by auto
  then show "Enqueue op p \<in> set calls'" using assms(1,3) j by (auto simp: asked_def)
qed

definition asked_inv :: "live \<Rightarrow> bool" where
  "asked_inv g \<longleftrightarrow> asked (lv_server g) (calls_made (lv_manager g))"

lemma asked_inv_step:
  assumes "asked_inv g" "live_step le g e g' outs"
  shows "asked_inv g'"
proof -
  have srv: "asked s (calls_made (lv_manager g))"
    if "moved he os (lv_server g) s" "filter is_enqueue os = []" for s he os
    using assms(1) that by (intro asked_moves [of "lv_server g" "calls_made (lv_manager g)" he os s]) (simp_all add: asked_inv_def)
  have mgr: "asked (lv_server g) (calls_made m)" if "mgr_step (lv_manager g) me = Some (m, us)" for me m us
    using assms(1) calls_made_step [OF that] unfolding asked_inv_def asked_def by auto
  have quiet: "filter is_enqueue os = []" if "server_step ap s0 he = Some (s, os)" "\<And>i u b. he \<noteq> BodyRead i u b" for ap s0 he s os
    using that by (cases he) (auto simp: filter_empty_conv arrive_def enqueue_returned_def answer_admitted_def answer_def body_dropped_def answered_def answered_buffered_def answered_stream_def dropped_or_late_def
      emit_request_def start_http_server_request_def drop_active_guard_def drop_guard_state_def Let_def case_prod_beta
      split: if_splits prod.splits http_phase.splits option.splits route_match.splits enqueue_error.splits response_sink.splits
        body_answer.splits stream_init.splits)
  show ?thesis using assms(2)
  proof cases
    case (http he s)
    have "filter is_enqueue outs = []" using http(5) by (auto simp: filter_empty_conv list_ex_iff)
    then show ?thesis unfolding asked_inv_def http(2) using srv [OF server_step_moved [OF http(4)]] by simp
  next
    case (calls i uuid body s op p m us)
    have "asked s (calls_made m)"
      by (rule asked_moves [OF assms(1) [unfolded asked_inv_def] server_step_moved [OF calls(4)]])
        (simp add: calls_made_step [OF calls(5)])
    then show ?thesis by (simp add: asked_inv_def calls(2))
  next
    case (call_returns t r s)
    then show ?thesis using srv [OF server_step_moved [OF call_returns(5)] quiet [OF call_returns(5)]] by (simp add: asked_inv_def)
  next
    case (answer_arrives i rq op p r s)
    then show ?thesis using srv [OF server_step_moved [OF answer_arrives(6)] quiet [OF answer_arrives(6)]] by (simp add: asked_inv_def)
  qed (use mgr assms(1) in \<open>auto simp: asked_inv_def simp del: mgr_step.simps\<close>)
qed

subsection \<open>Runs\<close>

lemma served_inv:
  assumes "served_run ext fs le g0 es g outs" "v1_services ext env le" "function_reads ext fs" "function_writes ext fs" "whole_inv inflight cap g0"
    and "answers_inv ext fs g0" "asked_inv g0"
  shows "whole_inv inflight cap g \<and> answers_inv ext fs g \<and> asked_inv g"
  using assms
proof (induction rule: served_run.induct)
  case (served_step g es g' outs e g'' outs')
  have ih: "whole_inv inflight cap g' \<and> answers_inv ext fs g' \<and> asked_inv g'" by (rule served_step.IH [OF served_step.prems])
  have "live_run le g' [e] g'' outs'" using live_run.step [OF live_run.start served_step(3)] by simp
  then have "whole_inv inflight cap g''"
    using whole_inv_run ih served_step.prems(1) unfolding v1_services_def by blast
  then show ?case using ih answers_inv_step [OF served_step.prems(1,2,3) _ _ served_step(2,3)] asked_inv_step [OF _ served_step(3)] by blast
qed simp

lemma served_new:
  assumes "build_router ext rl to_str form env cfg spec otel = Inr gw"
  shows "v1_services ext senv (gateway_env ext senv fexp hasher cfg gw)" "answers_inv ext fs (live_new gw)" "asked_inv (live_new gw)"
proof -
  have gw: "ap_ext (gw_app gw) = ext" "gw_server gw = server_new (gc_max_inflight_requests cfg)"
    "gw_queue gw = queue_new (gc_max_inflight_invocations cfg) (gc_max_pending_invocations cfg)"
    using assms by (auto simp: build_router_def split: sum.splits)
  show "v1_services ext senv (gateway_env ext senv fexp hasher cfg gw)"
    using gateway_env_services by (simp add: v1_services_def gateway_env_def new_runtime_def gw)
  show "answers_inv ext fs (live_new gw)" "asked_inv (live_new gw)"
    by (simp_all add: answers_inv_def live_new_def live_jobs_def held_jobs_def gw queue_new_def asked_inv_def asked_def server_new_def)
qed

subsection \<open>An example\<close>

text \<open>A serialiser that keeps the ids of a batch, one per line.\<close>

definition batch_ids :: "json \<Rightarrow> string list" where
  "batch_ids j = (case json_get j ''batch'' of
     Some (JArray items) \<Rightarrow> map (\<lambda>i. case event_request_id i of Some s \<Rightarrow> s | None \<Rightarrow> []) items
   | _ \<Rightarrow> [])"

definition echo_handler :: "string \<Rightarrow> unit event_item \<Rightarrow> unit + handler_response" where
  "echo_handler target item = Inr (handler_response_text 200 (''hi '' @ item_id item))"

text \<open>A streamed record is the id of its request and a full stop; the gateway's side knows what that record says.\<close>

definition echo_record :: "string \<Rightarrow> ndjson_record" where
  "echo_record rid = LegacyRecord 1 (response_item example_ext (echo_handler []) \<lparr>it_request_id = Some rid, it_request = ()\<rparr>)"

definition echo_to_vec :: "ndjson_record \<Rightarrow> bytes res" where
  "echo_to_vec rec = (if rec = echo_record (record_id rec) then Inr (escape (record_id rec) @ ''.'') else Inl ''no record'')"

definition echo_from_value :: "json \<Rightarrow> stream_record_legacy res" where
  "echo_from_value v = (case v of
     JString b \<Rightarrow> (if b \<noteq> [] \<and> last b = CHR ''.'' then
         (case read_record (echo_record (unescape (butlast b))) of Some (Legacy r) \<Rightarrow> Inr r | _ \<Rightarrow> Inl ''no record'')
       else Inl ''no record'')
   | _ \<Rightarrow> Inl ''no record'')"

definition echo_side :: "(unit, unit) function_side" where
  "echo_side = \<lparr>fs_lib = example_ext,
     fs_read = (\<lambda>payload. Inr \<lparr>be_v = 1,
       be_batch = map (\<lambda>s. \<lparr>it_request_id = Some (unescape s), it_request = ()\<rparr>) (butlast (split_on newline payload)), be_meta = None\<rparr>),
     fs_item_of = (\<lambda>j. \<lparr>it_request_id = event_request_id j, it_request = ()\<rparr>),
     fs_handler = echo_handler, fs_to_vec = echo_to_vec\<rparr>"

definition echo_items :: "unit event_item list" where
  "echo_items = [\<lparr>it_request_id = Some ''r-u'', it_request = ()\<rparr>, \<lparr>it_request_id = Some ''r-v'', it_request = ()\<rparr>]"

definition echo_response :: batch_response where
  "echo_response = wire_response \<lparr>as_v = 1, as_responses = map (response_item example_ext (fs_handler echo_side ''arn'')) (rev echo_items)\<rparr>"

definition echo_ext :: ext_lib where
  "echo_ext = example_ext\<lparr>json_to_vec := \<lambda>j. Inr (concat (map (\<lambda>s. escape s @ [newline]) (batch_ids j))),
     batch_response_from_slice := \<lambda>b. Inr echo_response, legacy_from_value := echo_from_value\<rparr>"

definition echo_gateway :: gateway where
  "echo_gateway = (case build_router echo_ext (ap_router example_app) Some (\<lambda>q. []) (\<lambda>_. None) example_gateway_config
     (ap_spec example_app) False of Inr gw \<Rightarrow> gw)"

definition echo_env :: live_env where
  "echo_env = gateway_env echo_ext example_stream_env (\<lambda>x. x) (\<lambda>_. 0) example_gateway_config echo_gateway"

definition echo_http :: http_request where
  "echo_http = example_http ''GET'' ''/a''"

definition echo_day :: "live_event list" where
  "echo_day = [Http (Arrive echo_http), Http (Arrive echo_http),
     Http (BodyRead 1 ''v'' (Inr ''y'')), Http (BodyRead 0 ''u'' (Inr ''x'')),
     CallGoes 1 5, CallGoes 0 5, CallGoes 0 6, CallGoes 1 6, CallReturns 0, CallReturns 1,
     TaskTakes 0 7 8 9, TaskTakes 0 7 8 9, TaskHears 0 TimerFired 9, TaskSends 0,
     QueueMoves DispatcherRecv, QueueMoves AcquirePermit]"

lemma echo_built:
  "build_router echo_ext (ap_router example_app) Some (\<lambda>q. []) (\<lambda>_. None) example_gateway_config (ap_spec example_app) False =
     Inr echo_gateway"
  by (simp add: echo_gateway_def build_router_def policy_try_from_cfg_def example_gateway_config_def)

lemma echo_gateway_parts:
  "gw_server echo_gateway = server_new 2" "gw_manager echo_gateway = manager_new 2" "gw_queue echo_gateway = queue_new 1 1"
  "match_request (ap_router (gw_app echo_gateway)) (ap_spec (gw_app echo_gateway)) ''GET'' ''/a'' = Matched example_op []"
  "ap_emf_enabled (gw_app echo_gateway) = False" "ap_max_body_bytes (gw_app echo_gateway) = 3" "ap_ext (gw_app echo_gateway) = echo_ext"
  by (simp_all add: echo_gateway_def build_router_def policy_try_from_cfg_def example_gateway_config_def example_app_def
      match_request_def env_truthy_def)

definition echo_request :: "string \<Rightarrow> bytes \<Rightarrow> response_sink \<Rightarrow> pending_request" where
  "echo_request uuid body sink = make_pending (gw_app echo_gateway) echo_http example_op [] uuid body sink"

definition echo_key :: batch_key where
  "echo_key = batch_key_of example_op (echo_request [] [] (SinkBuffered 0))"

lemma echo_http_parts: "rq_method echo_http = ''GET''" "rq_path echo_http = ''/a''"
  by (simp_all add: echo_http_def example_http_def)

lemma echo_request_parts:
  "pr_id (echo_request uuid body sink) = ''r-'' @ uuid" "pr_respond_to (echo_request uuid body sink) = sink"
  "batch_key_of example_op (echo_request uuid body sink) = echo_key" "bk_invoke_mode echo_key = Buffered" "bk_target_lambda echo_key = ''arn''"
  by (simp_all add: echo_key_def echo_request_def make_pending_def batch_key_of_def example_op_facts) (simp_all add: example_op_def)

definition echo_job :: invocation_job where
  "echo_job = JobBuffered \<lparr>ji_key = echo_key, ji_wait_ms = 10, ji_estimated_rps = None, ji_is_probe = False,
     ji_duration_feedback_tx = None, ji_payload = ''r-v'' @ [newline] @ ''r-u'' @ [newline]\<rparr> [(''r-v'', 0), (''r-u'', 2)]"

lemma echo_payload:
  "v1_build_payload echo_ext key ts (map (request_item echo_ext ts) [echo_request ''v'' b1 s1, echo_request ''u'' b2 s2]) =
     Inr (''r-v'' @ [newline] @ ''r-u'' @ [newline])"
  by (simp add: v1_build_payload_def echo_ext_def batch_ids_def v1_event_items echo_request_parts)

lemma echo_flush:
  assumes "ch_key ch = echo_key" "bc_duration_wait (ch_config ch) = None"
  shows "flush_work echo_env 0 ch 9 (flush_out_of 10 None False [echo_request ''v'' ''y'' (SinkBuffered 0), echo_request ''u'' ''x'' (SinkBuffered (Suc (Suc 0)))]) =
    [Enqueued echo_job]"
proof -
  have c: "collect_sinks [echo_request ''v'' ''y'' (SinkBuffered 0), echo_request ''u'' ''x'' (SinkBuffered (Suc (Suc 0)))] ([], []) =
      (([(''r-v'', 0), (''r-u'', 2)], []), [])"
    by (simp add: echo_request_parts hm_insert_def hm_get_def)
  show ?thesis
    using assms echo_payload
    by (simp add: flush_work_def flush_batch_def Let_def c flush_buffered_def echo_env_def gateway_env_def new_runtime_def echo_request_parts
        task_runtime_def echo_gateway_parts plan_invocations.simps example_gateway_config_def offer_job_def echo_job_def flush_out_of_def
      del: collect_sinks.simps)
qed

lemma echo_run:
  "\<exists>g os. run (live_exec echo_env) (live_new echo_gateway) echo_day = Some (g, os) \<and> jq_running (lv_queue g) = [echo_job] \<and>
     sv_handlers (lv_server g) = [(echo_http, Waiting example_op (echo_request ''u'' ''x'' (SinkBuffered (Suc (Suc 0))))),
       (echo_http, Waiting example_op (echo_request ''v'' ''y'' (SinkBuffered 0)))] \<and>
     map th_req (mg_threads (lv_manager g)) = [echo_request ''v'' ''y'' (SinkBuffered 0), echo_request ''u'' ''x'' (SinkBuffered (Suc (Suc 0)))]"
  by (rule run_exists)
    (simp add: echo_day_def echo_env_def gateway_env_def live_new_def echo_gateway_parts arrive_def echo_http_parts
     start_http_server_request_def server_new_def phase_def Let_def body_read_def example_op_facts manager_new_def
     spawn_tasks_def batcher_init_def enqueue_returned_def hm_insert_def echo_request_parts echo_request_def [symmetric]
     set_task_def from_millis_def fixed_fill_def echo_flush [unfolded echo_env_def gateway_env_def] enqueue_invocation_job_def try_send_job_def queue_new_def)

lemma echo_reads: "function_reads echo_ext echo_side"
  unfolding function_reads_def
proof (intro conjI allI impI)
  fix key ts items payload assume "v1_build_payload echo_ext key ts items = Inr payload"
  then have "payload = concat (map (\<lambda>s. s @ [newline]) (map escape (map (\<lambda>i. rc_request_id (bi_request_context i)) items)))"
    by (simp add: v1_build_payload_def echo_ext_def batch_ids_def v1_event_items comp_def)
  then have "split_on newline payload = map escape (map (\<lambda>i. rc_request_id (bi_request_context i)) items) @ [[]]"
    by (simp only:) (rule split_lines, use escape_newline in auto)
  then show "\<exists>event. fs_read echo_side payload = Inr event \<and> be_batch event = map (\<lambda>i. fs_item_of echo_side (batch_item_json i)) items"
    by (simp add: echo_side_def comp_def unescape_escape)
qed (simp add: echo_side_def)

lemma echo_writes: "function_writes echo_ext echo_side"
proof -
  have "read_record rec = Some r"
    if "echo_to_vec rec = Inr line" "parse_stream_record echo_ext line = Inr r" for rec line r
  proof -
    have rec: "rec = echo_record (record_id rec)" and line: "line = escape (record_id rec) @ ''.''"
      using that(1) by (simp_all add: echo_to_vec_def split: if_splits)
    have "read_record (echo_record (record_id rec)) = Some r"
      using that(2) by (auto simp: line parse_stream_record_def echo_ext_def example_ext_def map_err_def echo_from_value_def unescape_escape
          echo_record_def)
    then show ?thesis using rec by simp
  qed
  moreover have "one_line line" if "echo_to_vec rec = Inr line" for rec line
    using that escape_newline by (auto simp: echo_to_vec_def one_line_def split: if_splits)
  moreover have "parse_stream_record echo_ext ''{}'' \<noteq> Inr r" for r
    by (simp add: parse_stream_record_def echo_ext_def example_ext_def map_err_def echo_from_value_def)
  ultimately show ?thesis by (simp add: function_writes_def echo_side_def)
qed

lemma echo_returns: "adapter_returns echo_ext echo_side ''arn'' (''r-v'' @ [newline] @ ''r-u'' @ [newline]) ''z''"
proof -
  let ?event = "\<lparr>be_v = 1, be_batch = rev echo_items, be_meta = None\<rparr>"
  have r: "fs_read echo_side (''r-v'' @ [newline] @ ''r-u'' @ [newline]) = Inr ?event"
    by (simp add: echo_side_def echo_items_def)
  obtain s os where h: "run (handle_complete (fs_lib echo_side) (fs_handler echo_side ''arn'')) (handle_start 2 ?event) [1, 0] = Some (s, os)"
    by (simp add: handle_start_def handle_complete_def start_more_def echo_items_def normalize_concurrency_def enumerate_eq_zip)
  have f: "handle_finish s = Some \<lparr>as_v = 1, as_responses = map (response_item (fs_lib echo_side) (fs_handler echo_side ''arn'')) (rev echo_items)\<rparr>"
    using handle_run_inv [OF h handle_start_inv] handle_finish_inv by (fastforce simp: handle_start_facts(1) echo_items_def)
  have "batch_response_from_slice echo_ext ''z'' = Inr (wire_response \<lparr>as_v = 1,
      as_responses = map (response_item (fs_lib echo_side) (fs_handler echo_side ''arn'')) (rev echo_items)\<rparr>)"
    by (simp add: echo_ext_def echo_response_def echo_side_def)
  then show ?thesis unfolding adapter_returns_def using r h f by blast
qed

lemma served_unanswered:
  "live_run le g es g' outs \<Longrightarrow> (\<And>i bytes report el1 el2. QueueMoves (JobDone i (Inr (ResBuffered bytes report)) el1 el2) \<notin> set es) \<Longrightarrow>
     (\<And>i stream report el1 el2. QueueMoves (JobDone i (Inr (ResStream stream report)) el1 el2) \<notin> set es) \<Longrightarrow> served_run ext fs le g es g' outs"
proof (induction rule: live_run.induct)
  case (step g0 es g1 outs e g2 outs')
  have "served_run ext fs le g0 es g1 outs" using step.IH step.prems by simp
  moreover have "served ext fs g1 e" using step.prems unfolding served_def by (metis in_set_conv_decomp)
  ultimately show ?case using step(2) by (rule served_run.served_step)
qed (rule served_run.served_start)

definition echo_done :: live_event where
  "echo_done = QueueMoves (JobDone 0 (Inr (ResBuffered ''z'' None)) 3 3)"

lemma echo_answers:
  "\<exists>resp. effect.Answer 0 resp \<in> set (run_invocation_job (default_dispatcher echo_ext env) default_reporter (Inr (ResBuffered ''z'' None)) 3 3 echo_job) \<and>
     gr_body resp = ''hi r-v'' \<and> gr_status resp = 200"
  by (simp add: echo_job_def Let_def default_dispatcher_def dispatch_buffered_impl_def echo_ext_def echo_response_def wire_response_def
     echo_side_def echo_handler_def echo_items_def wire_item_def response_item_def item_id_def handler_response_text_def effective_status_def
     hm_get_def hm_delete_def buffered_response_def build_gateway_response_parts_def normalize_headers_def normalize_cookies_def
     headers_from_map_def decode_body_bytes_def example_ext_def)
    (rule exI, rule conjI, rule disjI1, rule refl, simp)

lemma echo_waiting:
  "\<exists>g os. live_run (gateway_env echo_ext example_stream_env (\<lambda>x. x) (\<lambda>_. 0) example_gateway_config echo_gateway) (live_new echo_gateway) echo_day g os \<and>
     jq_running (lv_queue g) = [echo_job] \<and>
     sv_handlers (lv_server g) ! 1 = (echo_http, Waiting example_op (echo_request ''v'' ''y'' (SinkBuffered 0))) \<and>
     length (sv_handlers (lv_server g)) = 2 \<and> map (\<lambda>t. pr_id (th_req t)) (mg_threads (lv_manager g)) = [''r-v'', ''r-u'']"
proof -
  let ?v = "echo_request ''v'' ''y'' (SinkBuffered 0)" and ?u = "echo_request ''u'' ''x'' (SinkBuffered (Suc (Suc 0)))"
  obtain g os where r: "run (live_exec echo_env) (live_new echo_gateway) echo_day = Some (g, os)" "jq_running (lv_queue g) = [echo_job]"
    and h: "sv_handlers (lv_server g) = [(echo_http, Waiting example_op ?u), (echo_http, Waiting example_op ?v)]"
    and t: "map th_req (mg_threads (lv_manager g)) = [?v, ?u]"
    using echo_run by (elim exE conjE)
  have "map (\<lambda>t. pr_id (th_req t)) (mg_threads (lv_manager g)) = map pr_id (map th_req (mg_threads (lv_manager g)))" by simp
  then show ?thesis using r h unfolding t
    by (intro exI [of _ g] exI [of _ os]) (simp add: live_run_exec echo_env_def echo_request_parts)
qed

subsection \<open>Property\<close>

text \<open>C1: Nobody gets another caller's answer. Behind the gateway are functions built with the Rust adapter, which may
  work on a batch in any order. In every interleaving of requests, batcher tasks, splits of batches, jobs and
  invocations, what a buffered handler that still waits can receive is what the function of its operation
  returned for the handler's own request, or an error the gateway made itself (429, 500 or 502).\<close>

theorem gateway_answers_own_request:
  assumes "build_router ext rl to_str form env cfg spec otel = Inr gw" and "function_reads ext fs" "function_writes ext fs"
    and "served_run ext fs (gateway_env ext senv fexp hasher cfg gw) (live_new gw) es g outs"
    and "distinct (map (\<lambda>t. pr_id (th_req t)) (mg_threads (lv_manager g)))"
    and "i < length (sv_handlers (lv_server g))" "sv_handlers (lv_server g) ! i = (rq, Waiting op p)"
    and "receives g p (pr_respond_to p) (BufferedAnswer resp)"
  shows "gateway_error resp \<or> own_answer ext fs op p resp"
proof -
  have inv: "whole_inv (gc_max_inflight_invocations cfg) (max (gc_max_pending_invocations cfg) 1) g \<and> answers_inv ext fs g \<and> asked_inv g"
    by (rule served_inv [OF assms(4) served_new(1) [OF assms(1)] assms(2,3) live_new_inv [OF assms(1)] served_new(2,3) [OF assms(1)]])
  obtain c where c: "pr_respond_to p = SinkBuffered c" "effect.Answer c resp \<in> set (lv_log g)"
    using assms(8) by (cases "pr_respond_to p") auto
  have p: "Enqueue op p \<in> set (calls_made (lv_manager g))"
    using inv assms(6,7) unfolding asked_inv_def asked_def by (metis snd_conv)
  have same: "u = t" if "t \<in> set (mg_threads (lv_manager g))" "u \<in> set (mg_threads (lv_manager g))" "pr_id (th_req u) = pr_id (th_req t)" for t u
    using assms(5) that by (simp add: distinct_map inj_on_def)
  have threads: "distinct (map thread_caller (mg_threads (lv_manager g)))"
    using inv callers_distinct by (simp add: whole_inv_def calls_inv_def calls_made_def)
  show ?thesis
  proof (rule disjCI)
    assume "\<not> own_answer ext fs op p resp"
    moreover have "own_answer ext fs op p resp" if asm: "Enqueue op1 req \<in> set (calls_made (lv_manager g))" "pr_respond_to req = SinkBuffered c"
      "Enqueue op' req' \<in> set (calls_made (lv_manager g))" "pr_id req' = pr_id req" "own_answer ext fs op' req' resp" for op1 req op' req'
    proof -
      obtain t u v where t: "t \<in> set (mg_threads (lv_manager g))" "th_op t = op" "th_req t = p"
        and u: "u \<in> set (mg_threads (lv_manager g))" "th_req u = req"
        and v: "v \<in> set (mg_threads (lv_manager g))" "th_op v = op'" "th_req v = req'"
        using p asm(1,3) by (auto simp: calls_made_def)
      have "thread_caller u = thread_caller t" by (simp add: thread_caller_def t u c(1) asm(2))
      then have "u = t" using threads t(1) u(1) by (simp add: distinct_map inj_on_def)
      moreover have "v = u" using same u(1) v(1) asm(4) u(2) v(3) by simp
      ultimately show ?thesis using asm(5) t v by simp
    qed
    ultimately show "gateway_error resp" using inv c(2) unfolding answers_inv_def answers_sound_def by blast
  qed
qed

theorem gateway_answers_own_request_witness:
  "\<exists>g outs resp. served_run echo_ext echo_side (gateway_env echo_ext example_stream_env (\<lambda>x. x) (\<lambda>_. 0) example_gateway_config echo_gateway)
       (live_new echo_gateway) (echo_day @ [echo_done]) g outs \<and>
     sv_handlers (lv_server g) ! 1 = (echo_http, Waiting example_op (echo_request ''v'' ''y'' (SinkBuffered 0))) \<and>
     receives g (echo_request ''v'' ''y'' (SinkBuffered 0)) (SinkBuffered 0) (BufferedAnswer resp) \<and>
     gr_status resp = 200 \<and> gr_body resp = ''hi r-v'' \<and>
     (gateway_error resp \<or> own_answer echo_ext echo_side example_op (echo_request ''v'' ''y'' (SinkBuffered 0)) resp)"
proof -
  let ?v = "echo_request ''v'' ''y'' (SinkBuffered 0)"
  let ?le = "gateway_env echo_ext example_stream_env (\<lambda>x. x) (\<lambda>_. 0) example_gateway_config echo_gateway"
  obtain g os where g: "live_run ?le (live_new echo_gateway) echo_day g os" "jq_running (lv_queue g) = [echo_job]"
    "sv_handlers (lv_server g) ! 1 = (echo_http, Waiting example_op ?v)" "length (sv_handlers (lv_server g)) = 2"
    "map (\<lambda>t. pr_id (th_req t)) (mg_threads (lv_manager g)) = [''r-v'', ''r-u'']"
    using echo_waiting by (elim exE conjE)
  have d: "rt_response_dispatcher (le_runtime ?le) = default_dispatcher echo_ext example_stream_env" "rt_probe_feedback_reporter (le_runtime ?le) = default_reporter"
    by (simp_all add: gateway_env_def new_runtime_def)
  obtain q effs where q: "queue_step (rt_response_dispatcher (le_runtime ?le)) (rt_probe_feedback_reporter (le_runtime ?le)) (lv_queue g)
      (JobDone 0 (Inr (ResBuffered ''z'' None)) 3 3) = Some (q, effs)"
    and effs: "effs = run_invocation_job (default_dispatcher echo_ext example_stream_env) default_reporter (Inr (ResBuffered ''z'' None)) 3 3 echo_job"
    unfolding d by (simp add: g(2))
  let ?g = "g\<lparr>lv_queue := q, lv_log := lv_log g @ effs\<rparr>"
  have "served_run echo_ext echo_side ?le (live_new echo_gateway) echo_day g os"
    by (rule served_unanswered [OF g(1)]) (simp_all add: echo_day_def)
  moreover have "served echo_ext echo_side g echo_done"
    using echo_returns by (simp add: served_def echo_done_def g(2) echo_job_def echo_request_parts)
  moreover have "live_step ?le g echo_done ?g []"
    unfolding echo_done_def by (rule live_step.queue_moves [OF _ q]) simp
  ultimately have run: "served_run echo_ext echo_side ?le (live_new echo_gateway) (echo_day @ [echo_done]) ?g (os @ [])"
    by (rule served_run.served_step)
  obtain resp where resp: "effect.Answer 0 resp \<in> set effs" "gr_body resp = ''hi r-v''" "gr_status resp = 200"
    unfolding effs using echo_answers by blast
  have sink: "pr_respond_to ?v = SinkBuffered 0" by (rule echo_request_parts(2))
  have rc: "receives ?g ?v (SinkBuffered 0) (BufferedAnswer resp)" using resp(1) by simp
  have "gateway_error resp \<or> own_answer echo_ext echo_side example_op ?v resp"
    by (rule gateway_answers_own_request [OF echo_built echo_reads echo_writes run, of 1]) (use g rc sink in simp_all)
  then show ?thesis using run rc resp g(3) by (intro exI [of _ ?g] exI [of _ "os @ []"] exI [of _ resp]) simp
qed

end
