(* ===== verification/Stream_Body.thy ===== *)
theory Stream_Body
  imports Stream_Order Answers
begin

text \<open>
  The body of a streamed response from the function's handler to the caller: what the caller receives is a beginning of what
  the handler returned, however the adapter merges the streams of a batch and wherever the response breaks off.
\<close>

subsection \<open>Part of a merge\<close>

lemma merges_part: "merges M out N \<Longrightarrow> M = add_mset s (replicate_mset n []) \<Longrightarrow> prefix out s"
proof (induction arbitrary: s n rule: merges.induct)
  case (merges_ended M out N)
  show ?case
  proof (cases n)
    case 0
    then show ?thesis using merges_ended merges_nothing [of M out N] by simp
  next
    case (Suc k)
    then have "M = add_mset s (replicate_mset k [])" using merges_ended(3) by (simp add: add_mset_commute)
    then show ?thesis using merges_ended by blast
  qed
next
  case (merges_item xs M out N x)
  have "x # xs \<notin># replicate_mset n []" by simp
  then have "s = x # xs \<and> M = replicate_mset n []"
    using merges_item(3) by (metis add_eq_conv_ex union_single_eq_member insert_noteq_member)
  then show ?case using merges_item by simp
qed simp

text \<open>If one stream has all items of a kind, those that have come are its first ones.\<close>

lemma merges_filter_part:
  assumes "merges (add_mset s K) out N" "\<forall>x \<in> set s. P x" "\<forall>t \<in># K. \<forall>x \<in> set t. \<not> P x"
  shows "prefix (filter P out) s"
proof -
  have "image_mset (filter P) K = replicate_mset (size K) []"
    using assms(3) by (induction K) auto
  then have "merges (add_mset s (replicate_mset (size K) [])) (filter P out) (image_mset (filter P) N)"
    using merges_filter_all [OF assms(1), of P] assms(2) by simp
  then show ?thesis using merges_part by blast
qed

lemma part_of_item:
  assumes "list_all select_ok sels" "distinct (map item_id (be_batch event))" "item \<in> set (be_batch event)"
    and "run poll_step (stream_start lib to_vec interleaved handler c event) sels = Some (t, rs)"
  shows "\<exists>recs. yielded rs = map (ndjson_line to_vec) recs \<and>
    prefix (filter (\<lambda>r. record_id r = item_id item) recs) (item_records lib interleaved handler item)"
proof -
  let ?s = "stream_start lib to_vec interleaved handler c event"
  let ?R = "item_records lib interleaved handler"
  let ?M = "image_mset ?R (mset (be_batch event))"
  have start: "0 < cs_limit ?s" "select_inv ?s" "remaining ?s = image_mset (map (ndjson_line to_vec)) ?M"
    by (simp_all add: stream_start_def select_inv_def remaining_def image_mset.compositionality comp_def)
  have "merges (remaining ?s) (yielded rs) (remaining t)"
    using poll_run_spec [OF assms(1) start(1,2)] assms(4) by auto
  then obtain recs N where recs: "yielded rs = map (ndjson_line to_vec) recs" "merges ?M recs N"
    using merges_map [OF _ start(3)] by metis
  obtain before after where split: "be_batch event = before @ item # after" using assms(3) by (auto dest: split_list)
  have "item_id x \<noteq> item_id item" if "x \<in> set (before @ after)" for x
    using that assms(2) split by (force simp: image_iff)
  then have others: "\<forall>st \<in># image_mset ?R (mset (before @ after)). \<forall>r \<in> set st. record_id r \<noteq> item_id item"
    by (auto dest: item_records_id)
  have "merges (add_mset (?R item) (image_mset ?R (mset (before @ after)))) recs N" using recs(2) split by simp
  then have "prefix (filter (\<lambda>r. record_id r = item_id item) recs) (?R item)"
    by (rule merges_filter_part) (use others item_records_id in auto)
  then show ?thesis using recs(1) by blast
qed

subsection \<open>The lines of an adapter\<close>

definition line_of :: "('a, 'e) function_side \<Rightarrow> ndjson_record \<Rightarrow> bytes" where
  "line_of fs rec = (case fs_to_vec fs rec of Inl _ \<Rightarrow> ''{}'' | Inr line \<Rightarrow> line)"

lemma line_of_facts:
  assumes "function_writes ext fs"
  shows "line_of fs rec \<noteq> []" "strip_cr (line_of fs rec) = line_of fs rec" "newline \<notin> set (line_of fs rec)"
    "parse_stream_record ext (line_of fs rec) = Inr r \<Longrightarrow> read_record rec = Some r"
  using assms strip_cr_one_line
  by (cases "fs_to_vec fs rec"; auto simp: line_of_def function_writes_def one_line_def strip_cr_def)+

definition part_said :: "ext_lib \<Rightarrow> string \<Rightarrow> ndjson_record \<Rightarrow> bytes list" where
  "part_said ext i rec = (case read_record rec of None \<Rightarrow> [] | Some r \<Rightarrow> said_chunk ext i r)"

lemma lines_said:
  "function_writes ext fs \<Longrightarrow>
     prefix (chunk_data ext i (records_in ext (map (line_of fs) recs))) (concat (map (part_said ext i) recs))"
proof (induction recs)
  case (Cons rec recs)
  then show ?case using line_of_facts(1,4) [OF Cons.prems]
    by (auto simp: part_said_def split: sum.split)
qed simp

lemma records_in_blank: "records_in ext (ls @ [[]]) = records_in ext ls"
  by (induction ls) (auto split: sum.split)

lemma seen_adapter_lines:
  assumes "function_writes ext fs" "prefix (received_text stream) (concat (map (\<lambda>rec. line_of fs rec @ [newline]) recs))"
    and "ends_cleanly stream \<Longrightarrow> received_text stream = concat (map (\<lambda>rec. line_of fs rec @ [newline]) recs)"
  shows "\<exists>got. prefix got recs \<and> records_in ext (seen_lines [] stream) = records_in ext (map (line_of fs) got)"
proof -
  have lines: "concat (map (\<lambda>rec. line_of fs rec @ [newline]) recs) = concat (map (\<lambda>l. l @ [newline]) (map (line_of fs) recs))"
    by (simp add: comp_def)
  have nl: "newline \<notin> set l" if "l \<in> set (map (line_of fs) recs)" for l using that line_of_facts(3) [OF assms(1)] by auto
  have "prefix (butlast (split_on newline (received_text stream))) (map (line_of fs) recs)"
    by (rule split_lines_prefix) (use nl assms(2) lines in auto)
  then obtain got where got: "prefix got recs" "butlast (split_on newline (received_text stream)) = map (line_of fs) got"
    by (auto simp: prefix_def map_eq_append_conv)
  have "map strip_cr (map (line_of fs) got) = map (line_of fs) got" using line_of_facts(2) [OF assms(1)] by simp
  moreover have "strip_eol (last (split_on newline (received_text stream))) = []" if "ends_cleanly stream"
    using assms(3) [OF that] split_lines [of "map (line_of fs) recs", OF nl] by (simp add: lines strip_eol_def)
  ultimately have "seen_lines [] stream = map (line_of fs) got \<or> seen_lines [] stream = map (line_of fs) got @ [[]]"
    by (auto simp: seen_lines_def Let_def got(2))
  then show ?thesis using got(1) records_in_blank by metis
qed


subsection \<open>The body a handler returned\<close>

text \<open>The bytes of a chunk: text is taken as it is, or as base64 when the response says so.\<close>

definition text_bytes :: "ext_lib \<Rightarrow> bool \<Rightarrow> string \<Rightarrow> bytes list" where
  "text_bytes ext b64 s = (case decode_body_bytes ext s b64 of Inl _ \<Rightarrow> [] | Inr bs \<Rightarrow> [bs])"

fun chunk_bytes :: "ext_lib \<Rightarrow> bool \<Rightarrow> response_chunk \<Rightarrow> bytes list" where
  "chunk_bytes ext b64 (TextChunk s) = text_bytes ext b64 s"
| "chunk_bytes ext b64 (BinaryChunk b) = [b]"

fun returned_body :: "ext_lib \<Rightarrow> bool \<Rightarrow> response_body \<Rightarrow> bytes list" where
  "returned_body ext b64 EmptyBody = []"
| "returned_body ext b64 (TextBody s) = text_bytes ext b64 s"
| "returned_body ext b64 (BinaryBody b) = [b]"
| "returned_body ext b64 (StreamBody cs) = concat (map (chunk_bytes ext b64) cs)"

lemma other_line_said:
  "part_said ext i (InterleavedRecord ((blank_record rid ''head'')\<lparr>nj_status_code := st, nj_headers := hs, nj_cookies := cs\<rparr>)) = []"
  "part_said ext i (InterleavedRecord (blank_record rid ''end'')) = []"
  by (simp_all add: part_said_def blank_record_def type_named_def said_chunk_def)

lemma chunk_line_said: "part_said ext i (chunk_line i (s, b64)) = text_bytes ext b64 s"
  by (simp add: part_said_def chunk_line_def blank_record_def type_named_def said_chunk_def text_bytes_def)

lemma returned_chunks:
  assumes "\<And>b. b64_decode ext (b64_encode lib b) = Inr b"
  shows "concat (map (\<lambda>c. text_bytes ext (snd c) (fst c)) (body_chunks lib b64 body)) = returned_body ext b64 body"
proof (cases body)
  case (StreamBody cs)
  have "text_bytes ext (snd (chunk_text lib b64 c)) (fst (chunk_text lib b64 c)) = chunk_bytes ext b64 c" for c
    using assms by (cases c) (simp_all add: chunk_text_def text_bytes_def decode_body_bytes_def)
  then show ?thesis using StreamBody by (simp add: comp_def)
qed (use assms in \<open>simp_all add: text_bytes_def decode_body_bytes_def\<close>)

lemma item_said:
  assumes "\<And>b. b64_decode ext (b64_encode lib b) = Inr b" "handler item = Inr resp"
  shows "concat (map (part_said ext (item_id item)) (item_records lib True handler item)) =
    returned_body ext (hr_is_base64_encoded resp) (hr_body resp)"
proof -
  have "concat (map (part_said ext (item_id item)) (map (chunk_line (item_id item)) cs)) = concat (map (\<lambda>c. text_bytes ext (snd c) (fst c)) cs)" for cs
    by (induction cs) (auto simp: chunk_line_said)
  then show ?thesis using returned_chunks [OF assms(1)] assms(2) by (simp add: item_records_def other_line_said del: map_map)
qed

lemma part_said_foreign: "record_id rec \<noteq> i \<Longrightarrow> part_said ext i rec = []"
  by (cases rec) (auto simp: part_said_def said_chunk_def split: option.splits)

lemma part_said_filter: "concat (map (part_said ext i) recs) = concat (map (part_said ext i) (filter (\<lambda>r. record_id r = i) recs))"
  by (induction recs) (simp_all add: part_said_foreign)

lemma prefix_concat_map: "prefix xs ys \<Longrightarrow> prefix (concat (map f xs)) (concat (map f ys))"
  by (auto simp: prefix_def)

text \<open>C12: A streamed body arrives as the handler returned it: behind a function built with the Rust adapter, which merges the
  interleaved streams of its batch in any order, what is sent on the body channel of a caller is a beginning of the body
  its own handler returned, chunk by chunk, as text or binary, wherever the response breaks off.\<close>

theorem handler_body_reaches_caller:
  assumes "function_writes ext fs" "\<And>b. b64_decode ext (b64_encode (fs_lib fs) b) = Inr b"
    and "list_all select_ok sels" "distinct (map item_id (be_batch event))" "item \<in> set (be_batch event)"
    and "run poll_step (stream_start (fs_lib fs) (fs_to_vec fs) True (fs_handler fs target) c event) sels = Some (s, rs)"
    and "prefix (received_text stream) (concat (yielded rs))" "ends_cleanly stream \<Longrightarrow> received_text stream = concat (yielded rs)"
    and "fs_handler fs target item = Inr resp"
    and "hm_ok pending" "separate pending" "(item_id item, e) \<in> set pending"
  shows "prefix (body_of (sp_body e) (dispatch_response_stream_impl ext env key wait_ms stream pending))
    (returned_body ext (hr_is_base64_encoded resp) (hr_body resp))"
proof -
  let ?i = "item_id item" and ?R = "item_records (fs_lib fs) True (fs_handler fs target) item"
  obtain recs where recs: "yielded rs = map (ndjson_line (fs_to_vec fs)) recs" "prefix (filter (\<lambda>r. record_id r = ?i) recs) ?R"
    using part_of_item [OF assms(3-6)] by blast
  have lines: "concat (yielded rs) = concat (map (\<lambda>rec. line_of fs rec @ [newline]) recs)"
    by (simp add: recs(1) ndjson_line_def [abs_def] line_of_def)
  obtain got where got: "prefix got recs" "records_in ext (seen_lines [] stream) = records_in ext (map (line_of fs) got)"
    using seen_adapter_lines [OF assms(1)] assms(7,8) unfolding lines by blast
  have "prefix (body_of (sp_body e) (dispatch_response_stream_impl ext env key wait_ms stream pending))
      (chunk_data ext ?i (records_in ext (map (line_of fs) got)))"
    using streamed_body_in_order [OF assms(10-12)] unfolding got(2) [symmetric] .
  also have "prefix \<dots> (concat (map (part_said ext ?i) got))" by (rule lines_said [OF assms(1)])
  also have "prefix \<dots> (concat (map (part_said ext ?i) recs))" by (rule prefix_concat_map [OF got(1)])
  also have "\<dots> = concat (map (part_said ext ?i) (filter (\<lambda>r. record_id r = ?i) recs))" by (rule part_said_filter)
  also have "prefix \<dots> (concat (map (part_said ext ?i) ?R))" by (rule prefix_concat_map [OF recs(2)])
  also have "\<dots> = returned_body ext (hr_is_base64_encoded resp) (hr_body resp)" using item_said [of ext "fs_lib fs" "fs_handler fs target" item resp] assms(2,9) by blast
  finally show ?thesis .
qed

text \<open>For an example: the records of two items, each on a line of one letter.\<close>

definition voice_handler :: "string \<Rightarrow> unit event_item \<Rightarrow> unit + handler_response" where
  "voice_handler target item = Inr \<lparr>hr_status_code = 200, hr_headers = [], hr_cookies = [],
     hr_body = StreamBody [TextChunk (item_id item), BinaryChunk ''two''], hr_is_base64_encoded = False\<rparr>"

definition voice_items :: "unit event_item list" where
  "voice_items = [\<lparr>it_request_id = Some ''b'', it_request = ()\<rparr>, \<lparr>it_request_id = Some ''a'', it_request = ()\<rparr>]"

definition voice_lines :: "(bytes \<times> ndjson_record) list" where
  "voice_lines = zip [''h'', ''i'', ''j'', ''k'', ''l'', ''m'', ''n'', ''o''] (concat (map (item_records example_ext True (voice_handler [])) voice_items))"

definition voice_side :: "(unit, unit) function_side" where
  "voice_side = echo_side\<lparr>fs_handler := voice_handler,
     fs_to_vec := \<lambda>rec. case find (\<lambda>x. snd x = rec) voice_lines of None \<Rightarrow> Inl ''no record'' | Some x \<Rightarrow> Inr (fst x)\<rparr>"

definition voice_ext :: ext_lib where
  "voice_ext = example_ext\<lparr>json_from_slice := \<lambda>b. Inr (JObject [(''type'', JString b)]),
     interleaved_from_value := \<lambda>v. case json_get v ''type'' of
       Some (JString b) \<Rightarrow> (case Option.bind (map_of voice_lines b) read_record of Some (Interleaved r) \<Rightarrow> Inr r | _ \<Rightarrow> Inl ''no record'')
     | _ \<Rightarrow> Inl ''no record''\<rparr>"

definition voice_stream :: "bytes res list" where
  "voice_stream = [Inr (''h'' @ [newline] @ ''i'' @ [newline]), Inr (''j'' @ [newline] @ ''k''), Inl ''reset'']"

lemma voice_parse: "parse_stream_record voice_ext b =
    (case Option.bind (map_of voice_lines b) read_record of Some (Interleaved r) \<Rightarrow> Inr (Interleaved r)
     | _ \<Rightarrow> Inl (''bad ndjson record: '' @ ''no record''))"
  by (simp add: parse_stream_record_def voice_ext_def map_err_def split: option.splits stream_response_record.splits)

lemma voice_lines_list: "map fst voice_lines = [''h'', ''i'', ''j'', ''k'', ''l'', ''m'', ''n'', ''o'']"
  by (simp add: voice_lines_def voice_items_def item_records_def voice_handler_def)

lemma voice_writes: "function_writes voice_ext voice_side"
proof -
  have "one_line line \<and> (\<forall>r. parse_stream_record voice_ext line = Inr r \<longrightarrow> read_record rec = Some r)"
    if vec: "fs_to_vec voice_side rec = Inr line" for rec line
  proof -
    obtain x where "find (\<lambda>x. snd x = rec) voice_lines = Some x" "fst x = line" using vec by (auto simp: voice_side_def split: option.splits)
    then have mem: "(line, rec) \<in> set voice_lines" by (auto simp: find_Some_iff)
    have "line \<in> set (map fst voice_lines)" using mem by force
    then have "one_line line" unfolding voice_lines_list by (auto simp: one_line_def)
    moreover have "map_of voice_lines line = Some rec" by (rule map_of_is_SomeI [OF _ mem]) (simp add: voice_lines_list)
    ultimately show ?thesis by (auto simp: voice_parse split: option.splits stream_response_record.splits)
  qed
  moreover have "parse_stream_record voice_ext ''{}'' \<noteq> Inr r" for r
  proof -
    have "''{}'' \<notin> set (map fst voice_lines)" unfolding voice_lines_list by simp
    then have "map_of voice_lines ''{}'' = None" by (simp add: map_of_eq_None_iff)
    then show ?thesis by (simp add: voice_parse)
  qed
  ultimately show ?thesis by (simp add: function_writes_def)
qed

definition voice_event :: "unit batch_request_event" where
  "voice_event = \<lparr>be_v = 1, be_batch = voice_items, be_meta = None\<rparr>"

lemma voice_run:
  "\<exists>s rs. run poll_step (stream_start (fs_lib voice_side) (fs_to_vec voice_side) True (fs_handler voice_side ''arn'') 2 voice_event)
      (replicate 4 first_stream) = Some (s, rs) \<and>
    concat (yielded rs) = ''h'' @ [newline] @ ''i'' @ [newline] @ ''j'' @ [newline] @ ''k'' @ [newline]"
proof -
  have same_handler: "voice_handler ''arn'' = voice_handler []" by (rule ext) (simp add: voice_handler_def)
  have "map (ndjson_line (fs_to_vec voice_side)) (item_records example_ext True (voice_handler []) (voice_items ! 0)) =
      [''h'' @ [newline], ''i'' @ [newline], ''j'' @ [newline], ''k'' @ [newline]]"
    by (simp add: ndjson_line_def [abs_def] voice_side_def voice_lines_def voice_items_def item_records_def voice_handler_def chunk_line_def
        blank_record_def item_id_def chunk_text_def example_ext_def)
  then show ?thesis
    by (intro run_exists) (simp add: stream_start_def voice_event_def voice_items_def voice_side_def echo_side_def same_handler poll_step_def poll_next_now
      fill_def normalize_concurrency_def numeral_eq_Suc)
qed

lemma voice_ext_parts:
  "status_from_u16 voice_ext s = (if 100 \<le> s \<and> s < 1000 then Inr s else Inl ''invalid status code'')"
  "b64_decode voice_ext t = Inr (tl t)" "b64_encode example_ext b = CHR ''!'' # b"
  by (simp_all add: voice_ext_def example_ext_def)

lemma voice_received:
  "body_of 4 (dispatch_response_stream_impl voice_ext example_stream_env key 5 voice_stream example_callers) = [''b'', ''two'']"
  by (simp add: dispatch_response_stream_impl_def voice_stream_def drain_lines.simps strip_cr_def process_line_def voice_parse
      voice_lines_def voice_items_def item_records_def voice_handler_def chunk_line_def blank_record_def item_id_def chunk_text_def type_named_def
      voice_ext_parts dispatch_stream_record_def head_record_def chunk_record_def send_stream_head_def hm_insert_def example_callers_def
      map_err_def MAX_BUFFER_BYTES_def Let_def example_stream_env_def headers_from_map_def decode_body_bytes_def
      effective_status_def normalize_headers_def normalize_cookies_def fail_rest_def fail_all_stream_impl_def fail_stream_entry_def)

theorem handler_body_reaches_caller_witness:
  "\<exists>s rs. run poll_step (stream_start (fs_lib voice_side) (fs_to_vec voice_side) True (fs_handler voice_side ''arn'') 2 voice_event)
       (replicate 4 first_stream) = Some (s, rs) \<and>
     prefix (received_text voice_stream) (concat (yielded rs)) \<and>
     body_of 4 (dispatch_response_stream_impl voice_ext example_stream_env example_key 5 voice_stream example_callers) = [''b'', ''two''] \<and>
     prefix (body_of 4 (dispatch_response_stream_impl voice_ext example_stream_env example_key 5 voice_stream example_callers))
       (returned_body voice_ext False (StreamBody [TextChunk ''b'', BinaryChunk ''two'']))"
proof -
  obtain s rs where r: "run poll_step (stream_start (fs_lib voice_side) (fs_to_vec voice_side) True (fs_handler voice_side ''arn'') 2 voice_event)
      (replicate 4 first_stream) = Some (s, rs)" "concat (yielded rs) = ''h'' @ [newline] @ ''i'' @ [newline] @ ''j'' @ [newline] @ ''k'' @ [newline]"
    using voice_run by blast
  let ?item = "\<lparr>it_request_id = Some ''b'', it_request = ()\<rparr>"
  let ?resp = "\<lparr>hr_status_code = 200, hr_headers = [], hr_cookies = [],
    hr_body = StreamBody [TextChunk ''b'', BinaryChunk ''two''], hr_is_base64_encoded = False\<rparr>"
  have resp: "fs_handler voice_side ''arn'' ?item = Inr ?resp" by (simp add: voice_side_def voice_handler_def item_id_def)
  have pre: "prefix (received_text voice_stream) (concat (yielded rs))" "\<not> ends_cleanly voice_stream"
    by (simp_all add: r(2) voice_stream_def ends_cleanly_def)
  have wait: "hm_ok example_callers" "separate example_callers" "(item_id ?item, \<lparr>sp_init = Some 3, sp_body = 4\<rparr>) \<in> set example_callers"
    by (simp_all add: example_callers_def separate_def item_id_def)
  have b64: "b64_decode voice_ext (b64_encode (fs_lib voice_side) b) = Inr b" for b
    by (simp add: voice_ext_parts voice_side_def echo_side_def)
  have ids: "distinct (map item_id (be_batch voice_event))" "?item \<in> set (be_batch voice_event)"
    by (simp_all add: voice_event_def voice_items_def item_id_def)
  have ok: "list_all select_ok (replicate 4 first_stream)" by (simp add: list_all_iff first_stream_ok)
  have "prefix (body_of (sp_body \<lparr>sp_init = Some 3, sp_body = 4\<rparr>)
      (dispatch_response_stream_impl voice_ext example_stream_env example_key 5 voice_stream example_callers))
      (returned_body voice_ext (hr_is_base64_encoded ?resp) (hr_body ?resp))"
    by (rule handler_body_reaches_caller [OF voice_writes b64 ok ids r(1) pre(1) _ resp wait]) (use pre(2) in simp)
  then show ?thesis using r(1) pre(1) voice_received [of example_key] by simp
qed

text \<open>A body that is broken off looks complete: when the stream fails after the head, the caller's channels see the same as when
  the function ends the body there. The protocol's documentation promises 502 to every request still in flight.\<close>

definition voice_caller :: stream_pending where
  "voice_caller = \<lparr>sp_init = Some 3, sp_body = 4\<rparr>"

lemma voice_ends:
  "last_line = Inl err \<or> last_line = Inr (''k'' @ [newline]) \<Longrightarrow>
     filter (concerns voice_caller) (dispatch_response_stream_impl voice_ext example_stream_env key 5
       [Inr (''h'' @ [newline] @ ''i'' @ [newline]), last_line] example_callers) =
     [SendInit 3 (InitStream \<lparr>sh_status = 200, sh_headers = [],
        sh_meta = \<lparr>gm_batch_size = 2, gm_batch_wait_ms = 5, gm_target_elapsed_ms = Some 0\<rparr>\<rparr>), SendBody 4 ''b'', DropBody 4]"
  by (auto simp: dispatch_response_stream_impl_def voice_caller_def drain_lines.simps strip_cr_def process_line_def voice_parse
      voice_lines_def voice_items_def item_records_def voice_handler_def chunk_line_def blank_record_def item_id_def chunk_text_def type_named_def
      voice_ext_parts dispatch_stream_record_def head_record_def chunk_record_def end_record_def send_stream_head_def hm_insert_def example_callers_def
      map_err_def MAX_BUFFER_BYTES_def Let_def example_stream_env_def headers_from_map_def decode_body_bytes_def drop_pending_def
      effective_status_def normalize_headers_def normalize_cookies_def fail_rest_def fail_all_stream_impl_def fail_stream_entry_def finish_stream_def strip_eol_def)

theorem broken_stream_looks_complete:
  "filter (concerns voice_caller) (dispatch_response_stream_impl voice_ext example_stream_env key 5
     [Inr (''h'' @ [newline] @ ''i'' @ [newline]), Inl err] example_callers) =
   filter (concerns voice_caller) (dispatch_response_stream_impl voice_ext example_stream_env key 5
     [Inr (''h'' @ [newline] @ ''i'' @ [newline]), Inr (''k'' @ [newline])] example_callers)"
  using voice_ends [of "Inl err" err key] voice_ends [of "Inr (''k'' @ [newline])" err key] by simp

end
