(* ===== verification/Answers_Streamed.thy ===== *)
theory Answers_Streamed
  imports Answers
begin

text \<open>
  The streaming side of \<open>Answers\<close>: whose head and body parts a streaming caller gets. A streaming request has two channels, the
  oneshot of the head and the channel of the body; all that ever reaches them is said by the function about this request.
\<close>

subsection \<open>Channels belong to one request\<close>

lemma same_call:
  assumes "distinct (chans_of (calls_made m))" "t \<in> set (mg_threads m)" "u \<in> set (mg_threads m)"
    and "c \<in> set (chans_of [Enqueue (th_op t) (th_req t)])" "c \<in> set (chans_of [Enqueue (th_op u) (th_req u)])"
  shows "u = t"
proof (rule ccontr)
  assume ne: "u \<noteq> t"
  let ?chans = "\<lambda>ts. set (chans_of (map (\<lambda>t. Enqueue (th_op t) (th_req t)) ts))"
  have sub: "c \<in> ?chans zs" if "u \<in> set zs" for zs using that assms(5) by (force simp: chans_of_def)
  obtain xs ys where ts: "mg_threads m = xs @ t # ys" using assms(2) by (meson split_list)
  have "distinct (chans_of (map (\<lambda>t. Enqueue (th_op t) (th_req t)) xs) @ chans_of [Enqueue (th_op t) (th_req t)] @
      chans_of (map (\<lambda>t. Enqueue (th_op t) (th_req t)) ys))"
    using assms(1) by (simp add: calls_made_def ts chans_of_def)
  then have "c \<notin> ?chans xs" "c \<notin> ?chans ys" using assms(4) by (simp_all only: distinct_append set_append) blast+
  moreover have "u \<in> set xs \<or> u \<in> set ys" using assms(3) ne by (simp add: ts)
  ultimately show False using sub by blast
qed

text \<open>A message that is no drop concerns the channel of one request only.\<close>

lemma concerns_chan:
  assumes "concerns \<lparr>sp_init = Some c, sp_body = b\<rparr> x"
  shows "\<exists>ch \<in> {c, b}. \<forall>c' b'. concerns \<lparr>sp_init = Some c', sp_body = b'\<rparr> x \<longrightarrow> ch \<in> {c', b'}"
  using assms by (cases x) auto

subsection \<open>An example\<close>

text \<open>The gateway of \<open>echo_gateway\<close> with two streaming requests in one batch, whose stream breaks off in the second record.\<close>

definition relay_op :: operation_config where
  "relay_op = example_op\<lparr>oc_method := ''POST'', oc_invoke_mode := ResponseStream\<rparr>"

definition relay_http :: http_request where
  "relay_http = example_http ''POST'' ''/a''"

definition relay_day :: "live_event list" where
  "relay_day = [Http (Arrive relay_http), Http (Arrive relay_http),
     Http (BodyRead 1 ''v'' (Inr ''y'')), Http (BodyRead 0 ''u'' (Inr ''x'')),
     CallGoes 1 5, CallGoes 0 5, CallGoes 0 6, CallGoes 1 6, CallReturns 0, CallReturns 1,
     TaskTakes 0 7 8 9, TaskTakes 0 7 8 9, TaskHears 0 TimerFired 9, TaskSends 0,
     QueueMoves DispatcherRecv, QueueMoves AcquirePermit]"

definition relay_request :: "string \<Rightarrow> bytes \<Rightarrow> response_sink \<Rightarrow> pending_request" where
  "relay_request uuid body sink = make_pending (gw_app echo_gateway) relay_http relay_op [] uuid body sink"

definition relay_key :: batch_key where
  "relay_key = batch_key_of relay_op (relay_request [] [] (SinkStream 0 0))"

abbreviation relay_v :: pending_request where
  "relay_v \<equiv> relay_request ''v'' ''y'' (SinkStream 0 (Suc 0))"

abbreviation relay_u :: pending_request where
  "relay_u \<equiv> relay_request ''u'' ''x'' (SinkStream (Suc (Suc 0)) (Suc (Suc (Suc 0))))"

lemma relay_http_parts: "rq_method relay_http = ''POST''" "rq_path relay_http = ''/a''"
  by (simp_all add: relay_http_def example_http_def)

lemma relay_op_facts: "oc_invoke_mode relay_op = ResponseStream" "bc_duration_wait (batcher_config_of relay_op) = None"
  "bc_dynamic_wait (batcher_config_of relay_op) = None" "bc_max_batch_size (batcher_config_of relay_op) = 4"
  "bc_max_wait_ms (batcher_config_of relay_op) = 10"
  by (simp_all add: relay_op_def example_op_def batcher_config_of_def)

lemma relay_match: "match_request (ap_router (gw_app echo_gateway)) (ap_spec (gw_app echo_gateway)) ''POST'' ''/a'' = Matched relay_op []"
  by (simp add: echo_gateway_def build_router_def policy_try_from_cfg_def example_gateway_config_def example_app_def
      match_request_def env_truthy_def relay_op_def)

lemma relay_request_parts:
  "pr_id (relay_request uuid body sink) = ''r-'' @ uuid" "pr_respond_to (relay_request uuid body sink) = sink"
  "batch_key_of relay_op (relay_request uuid body sink) = relay_key" "bk_invoke_mode relay_key = ResponseStream" "bk_target_lambda relay_key = ''arn''"
  by (simp_all add: relay_key_def relay_request_def make_pending_def batch_key_of_def relay_op_facts) (simp_all add: relay_op_def example_op_def)

definition relay_job :: invocation_job where
  "relay_job = JobStream \<lparr>ji_key = relay_key, ji_wait_ms = 10, ji_estimated_rps = None, ji_is_probe = False,
     ji_duration_feedback_tx = None, ji_payload = ''r-v'' @ [newline] @ ''r-u'' @ [newline]\<rparr>
     [(''r-v'', \<lparr>sp_init = Some 0, sp_body = 1\<rparr>), (''r-u'', \<lparr>sp_init = Some 2, sp_body = 3\<rparr>)]"

lemma relay_payload:
  "v1_build_payload echo_ext key ts (map (request_item echo_ext ts) [relay_v, relay_u]) = Inr (''r-v'' @ [newline] @ ''r-u'' @ [newline])"
  by (simp add: v1_build_payload_def echo_ext_def batch_ids_def v1_event_items relay_request_parts)

lemma relay_flush:
  assumes "ch_key ch = relay_key" "bc_duration_wait (ch_config ch) = None"
  shows "flush_work echo_env 0 ch 9 (flush_out_of 10 None False [relay_v, relay_u]) = [Enqueued relay_job]"
proof -
  have c: "collect_sinks [relay_v, relay_u] ([], []) =
      (([], [(''r-v'', \<lparr>sp_init = Some 0, sp_body = 1\<rparr>), (''r-u'', \<lparr>sp_init = Some 2, sp_body = 3\<rparr>)]), [])"
    by (simp add: relay_request_parts hm_insert_def hm_get_def)
  show ?thesis
    using assms relay_payload
    by (simp add: flush_work_def flush_batch_def Let_def c flush_stream_def echo_env_def gateway_env_def new_runtime_def relay_request_parts
        task_runtime_def echo_gateway_parts plan_invocations.simps example_gateway_config_def offer_job_def relay_job_def flush_out_of_def
      del: collect_sinks.simps)
qed

lemma relay_run:
  "\<exists>g os. run (live_exec echo_env) (live_new echo_gateway) relay_day = Some (g, os) \<and> jq_running (lv_queue g) = [relay_job] \<and>
     map (\<lambda>t. (th_op t, th_req t)) (mg_threads (lv_manager g)) = [(relay_op, relay_v), (relay_op, relay_u)]"
  by (rule run_exists)
    (simp add: relay_day_def echo_env_def gateway_env_def live_new_def echo_gateway_parts arrive_def relay_http_parts relay_match
     start_http_server_request_def server_new_def phase_def Let_def body_read_def relay_op_facts manager_new_def
     spawn_tasks_def batcher_init_def enqueue_returned_def hm_insert_def relay_request_parts relay_request_def [symmetric]
     set_task_def from_millis_def fixed_fill_def relay_flush [unfolded echo_env_def gateway_env_def] enqueue_invocation_job_def try_send_job_def queue_new_def)

definition relay_stream :: "bytes res list" where
  "relay_stream = [Inr (''r-v.'' @ [newline] @ ''r-''), Inl ''reset'']"

definition relay_done :: live_event where
  "relay_done = QueueMoves (JobDone 0 (Inr (ResStream relay_stream None)) 3 3)"

lemma relay_streams: "adapter_streams echo_ext echo_side ''arn'' (''r-v'' @ [newline] @ ''r-u'' @ [newline]) relay_stream"
proof -
  let ?event = "\<lparr>be_v = 1, be_batch = rev echo_items, be_meta = None\<rparr>"
  have r: "fs_read echo_side (''r-v'' @ [newline] @ ''r-u'' @ [newline]) = Inr ?event"
    by (simp add: echo_side_def echo_items_def)
  have same_handler: "echo_handler ''arn'' = echo_handler []" by (rule ext) (simp add: echo_handler_def)
  have line: "ndjson_line echo_to_vec (LegacyRecord 1 (response_item example_ext (echo_handler ''arn'') \<lparr>it_request_id = Some rid, it_request = ()\<rparr>)) =
      escape rid @ ''.'' @ [newline]" for rid
    by (simp add: ndjson_line_def echo_to_vec_def echo_record_def item_id_def same_handler)
  have "\<exists>s rs. run poll_step (stream_start (fs_lib echo_side) (fs_to_vec echo_side) False (fs_handler echo_side ''arn'') 2 ?event)
      [first_stream, first_stream] = Some (s, rs) \<and> concat (yielded rs) = ''r-v.'' @ [newline] @ ''r-u.'' @ [newline]"
    by (rule run_exists) (simp add: stream_start_def echo_side_def echo_items_def legacy_records line poll_step_def poll_next_now fill_def
      normalize_concurrency_def)
  then obtain s rs where run: "run poll_step (stream_start (fs_lib echo_side) (fs_to_vec echo_side) False (fs_handler echo_side ''arn'') 2 ?event)
      [first_stream, first_stream] = Some (s, rs)" "concat (yielded rs) = ''r-v.'' @ [newline] @ ''r-u.'' @ [newline]" by blast
  have "list_all select_ok [first_stream, first_stream]" by (simp add: first_stream_ok)
  moreover have "prefix (received_text relay_stream) (concat (yielded rs))" "\<not> ends_cleanly relay_stream"
    by (simp_all add: run(2) relay_stream_def ends_cleanly_def)
  ultimately show ?thesis unfolding adapter_streams_def using r run(1) by blast
qed

lemma relay_answers:
  "\<exists>resp. StreamEff (SendInit 0 (InitResponse resp)) \<in>
       set (run_invocation_job (default_dispatcher echo_ext example_stream_env) default_reporter (Inr (ResStream relay_stream None)) 3 3 relay_job) \<and>
     gr_body resp = ''hi r-v'' \<and> gr_status resp = 200"
  by (simp add: relay_job_def Let_def default_dispatcher_def dispatch_response_stream_impl_def relay_stream_def drain_lines.simps strip_cr_def
      process_line_def parse_stream_record_def echo_ext_def example_ext_def echo_from_value_def echo_record_def echo_handler_def
      dispatch_stream_record_def legacy_record_def hm_get_def build_gateway_response_parts_def map_err_def MAX_BUFFER_BYTES_def
      response_item_def item_id_def handler_response_text_def effective_status_def normalize_headers_def normalize_cookies_def
      headers_from_map_def decode_body_bytes_def fail_rest_def)
    (rule exI, rule conjI, rule disjI1, rule refl, simp)

subsection \<open>Property\<close>

text \<open>C2: Nobody gets a part of another caller's stream. Behind the gateway are functions built with the Rust adapter, which
  merges the streams of a batch as it likes and may break off anywhere. In every interleaving of requests, batcher
  tasks, splits of batches, jobs and invocations, each response, head and body part on the channels of a streaming
  request is what the function of its operation says about this very request; all else it can see is an error of the
  gateway (429, 500 or 502) and the end.\<close>

theorem gateway_streams_own_response:
  assumes "build_router ext rl to_str form env cfg spec otel = Inr gw" and "function_reads ext fs" "function_writes ext fs"
    and "served_run ext fs (gateway_env ext senv fexp hasher cfg gw) (live_new gw) es g outs"
    and "distinct (map (\<lambda>t. pr_id (th_req t)) (mg_threads (lv_manager g)))"
    and "t \<in> set (mg_threads (lv_manager g))" "pr_respond_to (th_req t) = SinkStream c b"
    and "StreamEff x \<in> set (lv_log g)" "concerns \<lparr>sp_init = Some c, sp_body = b\<rparr> x"
  shows "stream_error x \<or> own_part ext fs (th_op t) (th_req t) x"
proof (rule disjCI)
  assume none: "\<not> own_part ext fs (th_op t) (th_req t) x"
  have inv: "whole_inv (gc_max_inflight_invocations cfg) (max (gc_max_pending_invocations cfg) 1) g \<and> answers_inv ext fs g \<and> asked_inv g"
    by (rule served_inv [OF assms(4) served_new(1) [OF assms(1)] assms(2,3) live_new_inv [OF assms(1)] served_new(2,3) [OF assms(1)]])
  have chans: "distinct (chans_of (calls_made (lv_manager g)))" using inv by (simp add: whole_inv_def calls_inv_def)
  show "stream_error x"
  proof (rule ccontr)
    assume "\<not> stream_error x"
    then obtain op req c' b' op' req' where
      w: "Enqueue op req \<in> set (calls_made (lv_manager g))" "pr_respond_to req = SinkStream c' b'" "concerns \<lparr>sp_init = Some c', sp_body = b'\<rparr> x"
      and o: "Enqueue op' req' \<in> set (calls_made (lv_manager g))" "pr_id req' = pr_id req" "own_part ext fs op' req' x"
      using inv assms(8) unfolding answers_inv_def answers_sound_def parts_sound_def by blast
    obtain u v where u: "u \<in> set (mg_threads (lv_manager g))" "th_op u = op" "th_req u = req"
      and v: "v \<in> set (mg_threads (lv_manager g))" "th_op v = op'" "th_req v = req'"
      using w(1) o(1) by (auto simp: calls_made_def)
    obtain ch where ch: "ch \<in> {c, b}" "ch \<in> {c', b'}" using concerns_chan [OF assms(9)] w(3) by blast
    have "u = t" by (rule same_call [OF chans assms(6) u(1), of ch]) (use ch assms(7) w(2) u(3) in auto)
    moreover have "v = u" using assms(5) u v o(2) by (metis distinct_map inj_onD)
    ultimately show False using none o(3) v(2,3) by simp
  qed
qed

theorem gateway_streams_own_response_witness:
  "\<exists>g outs resp t. served_run echo_ext echo_side (gateway_env echo_ext example_stream_env (\<lambda>x. x) (\<lambda>_. 0) example_gateway_config echo_gateway)
       (live_new echo_gateway) (relay_day @ [relay_done]) g outs \<and>
     t \<in> set (mg_threads (lv_manager g)) \<and> th_op t = relay_op \<and> th_req t = relay_v \<and>
     StreamEff (SendInit 0 (InitResponse resp)) \<in> set (lv_log g) \<and> gr_status resp = 200 \<and> gr_body resp = ''hi r-v'' \<and>
     (stream_error (SendInit 0 (InitResponse resp)) \<or> own_part echo_ext echo_side relay_op relay_v (SendInit 0 (InitResponse resp)))"
proof -
  let ?le = "gateway_env echo_ext example_stream_env (\<lambda>x. x) (\<lambda>_. 0) example_gateway_config echo_gateway"
  obtain g os where g: "run (live_exec echo_env) (live_new echo_gateway) relay_day = Some (g, os)" "jq_running (lv_queue g) = [relay_job]"
    "map (\<lambda>t. (th_op t, th_req t)) (mg_threads (lv_manager g)) = [(relay_op, relay_v), (relay_op, relay_u)]"
    using relay_run by (elim exE conjE)
  have live: "live_run ?le (live_new echo_gateway) relay_day g os" using g(1) by (simp add: live_run_exec echo_env_def)
  have "map (\<lambda>t. pr_id (th_req t)) (mg_threads (lv_manager g)) = map (\<lambda>p. pr_id (snd p)) (map (\<lambda>t. (th_op t, th_req t)) (mg_threads (lv_manager g)))"
    by simp
  then have ids: "distinct (map (\<lambda>t. pr_id (th_req t)) (mg_threads (lv_manager g)))" unfolding g(3) by (simp add: relay_request_parts)
  have "(relay_op, relay_v) \<in> set (map (\<lambda>t. (th_op t, th_req t)) (mg_threads (lv_manager g)))" unfolding g(3) by simp
  then obtain t where t: "t \<in> set (mg_threads (lv_manager g))" "th_op t = relay_op" "th_req t = relay_v" by auto
  have d: "rt_response_dispatcher (le_runtime ?le) = default_dispatcher echo_ext example_stream_env" "rt_probe_feedback_reporter (le_runtime ?le) = default_reporter"
    by (simp_all add: gateway_env_def new_runtime_def)
  obtain q effs where q: "queue_step (rt_response_dispatcher (le_runtime ?le)) (rt_probe_feedback_reporter (le_runtime ?le)) (lv_queue g)
      (JobDone 0 (Inr (ResStream relay_stream None)) 3 3) = Some (q, effs)"
    and effs: "effs = run_invocation_job (default_dispatcher echo_ext example_stream_env) default_reporter (Inr (ResStream relay_stream None)) 3 3 relay_job"
    unfolding d by (simp add: g(2) del: run_job_parts)
  let ?g = "g\<lparr>lv_queue := q, lv_log := lv_log g @ effs\<rparr>"
  have "served_run echo_ext echo_side ?le (live_new echo_gateway) relay_day g os"
    by (rule served_unanswered [OF live]) (simp_all add: relay_day_def)
  moreover have "served echo_ext echo_side g relay_done"
    using relay_streams by (simp add: served_def relay_done_def g(2) relay_job_def relay_request_parts)
  moreover have "live_step ?le g relay_done ?g []"
    unfolding relay_done_def by (rule live_step.queue_moves [OF _ q]) simp
  ultimately have run: "served_run echo_ext echo_side ?le (live_new echo_gateway) (relay_day @ [relay_done]) ?g (os @ [])"
    by (rule served_run.served_step)
  obtain resp where resp: "StreamEff (SendInit 0 (InitResponse resp)) \<in> set effs" "gr_body resp = ''hi r-v''" "gr_status resp = 200"
    unfolding effs using relay_answers by blast
  have sink: "pr_respond_to (th_req t) = SinkStream 0 (Suc 0)" unfolding t(3) by (rule relay_request_parts(2))
  have "stream_error (SendInit 0 (InitResponse resp)) \<or> own_part echo_ext echo_side (th_op t) (th_req t) (SendInit 0 (InitResponse resp))"
    by (rule gateway_streams_own_response [OF echo_built echo_reads echo_writes run _ _ sink]) (use t ids resp(1) in simp_all)
  then show ?thesis unfolding t(2,3) using run t resp by (intro exI [of _ ?g] exI [of _ "os @ []"] exI [of _ resp] exI [of _ t]) simp
qed

end
