(* ===== verification/Request_Span.thy ===== *)
theory Request_Span
  imports Server
begin

text \<open>
  The OpenTelemetry span that \<open>handle_any\<close> of \<open>gateway/src/server.rs\<close> keeps for a request: what
  \<open>start_request_span\<close> sets when the request arrives, the invocation mode once the operation is known, and what
  the handler sets from the answer before it ends the span. A span is the list of attributes in the order they
  are set; the tracer and the rendering of a status belong to libraries.
\<close>

subsection \<open>Spans\<close>

datatype attribute_value = AttrString string | AttrInt int

record request_span =
  sn_name :: string
  sn_attributes :: "(string \<times> attribute_value) list"
  sn_error :: "string option"
  sn_ended :: bool

definition set_attribute :: "string \<Rightarrow> attribute_value \<Rightarrow> request_span \<Rightarrow> request_span" where
  "set_attribute k v sp = sp\<lparr>sn_attributes := sn_attributes sp @ [(k, v)]\<rparr>"

definition set_string :: "string \<Rightarrow> string option \<Rightarrow> request_span \<Rightarrow> request_span" where
  "set_string k v sp = (case v of Some s \<Rightarrow> set_attribute k (AttrString s) sp | None \<Rightarrow> sp)"

text \<open>\<open>http::Version\<close> can grow; \<open>HttpOther\<close> stands for what the match does not know.\<close>

datatype http_version = HTTP_09 | HTTP_10 | HTTP_11 | HTTP_2 | HTTP_3 | HttpOther

fun http_version_to_str :: "http_version \<Rightarrow> string option" where
  "http_version_to_str HTTP_09 = Some ''0.9''"
| "http_version_to_str HTTP_10 = Some ''1.0''"
| "http_version_to_str HTTP_11 = Some ''1.1''"
| "http_version_to_str HTTP_2 = Some ''2''"
| "http_version_to_str HTTP_3 = Some ''3''"
| "http_version_to_str HttpOther = None"

definition header_text :: "(string \<Rightarrow> string option) \<Rightarrow> header_map \<Rightarrow> string \<Rightarrow> string option" where
  "header_text to_str headers name = Option.bind (hdr_get headers name) to_str"

definition start_request_span ::
  "(string \<Rightarrow> string option) \<Rightarrow> http_method \<Rightarrow> string \<Rightarrow> string option \<Rightarrow> http_version \<Rightarrow> string option \<Rightarrow> header_map \<Rightarrow>
   request_span" where
  "start_request_span to_str verb path route_template version query headers =
     (let route_for_name = (case route_template of Some t \<Rightarrow> t | None \<Rightarrow> path);
          cx = \<lparr>sn_name = verb @ '' '' @ route_for_name, sn_attributes = [], sn_error = None, sn_ended = False\<rparr>;
          cx = set_attribute ''http.request.method'' (AttrString verb) cx;
          cx = set_attribute ''url.path'' (AttrString path) cx;
          cx = set_attribute ''network.protocol.name'' (AttrString ''http'') cx;
          cx = set_string ''network.protocol.version'' (http_version_to_str version) cx;
          cx = set_string ''http.route'' route_template cx;
          cx = (case query of Some q \<Rightarrow> if q \<noteq> [] then set_attribute ''url.query'' (AttrString q) cx else cx | None \<Rightarrow> cx);
          cx = set_string ''user_agent.original'' (header_text to_str headers ''user-agent'') cx;
          cx = set_string ''server.address'' (header_text to_str headers ''host'') cx
      in set_string ''url.scheme'' (header_text to_str headers ''x-forwarded-proto'') cx)"

subsection \<open>The handler\<close>

definition route_template :: "app_state \<Rightarrow> http_request \<Rightarrow> string option" where
  "route_template ap rq =
     (case match_request (ap_router ap) (ap_spec ap) (rq_method rq) (rq_path rq) of
        Matched op path_params \<Rightarrow> Some (oc_route_template op)
      | _ \<Rightarrow> None)"

definition request_cx :: "app_state \<Rightarrow> http_version \<Rightarrow> http_request \<Rightarrow> request_span option" where
  "request_cx ap version rq =
     (if ap_otel_enabled ap then
        Some (start_request_span (ap_to_str ap) (rq_method rq) (rq_path rq) (route_template ap rq) version
          (rq_query rq) (rq_headers rq))
      else None)"

text \<open>The first thing the handler of a matched request does.\<close>

definition tag_invoke_mode :: "app_state \<Rightarrow> http_request \<Rightarrow> request_span \<Rightarrow> request_span" where
  "tag_invoke_mode ap rq cx =
     (case match_request (ap_router ap) (ap_spec ap) (rq_method rq) (rq_path rq) of
        Matched op path_params \<Rightarrow>
          set_attribute ''khone.invoke.mode''
            (AttrString (case oc_invoke_mode op of Buffered \<Rightarrow> ''buffered'' | ResponseStream \<Rightarrow> ''response_stream'')) cx
      | _ \<Rightarrow> cx)"

text \<open>\<open>i64::try_from(n).unwrap_or(i64::MAX)\<close>.\<close>

definition to_i64 :: "nat \<Rightarrow> int" where
  "to_i64 n = (if n < 2 ^ 63 then int n else 2 ^ 63 - 1)"

definition is_server_error :: "u16 \<Rightarrow> bool" where
  "is_server_error status \<longleftrightarrow> 500 \<le> status \<and> status < 600"

definition finish_span :: "(u16 \<Rightarrow> string) \<Rightarrow> gateway_response_meta option \<Rightarrow> u16 \<Rightarrow> request_span \<Rightarrow> request_span" where
  "finish_span status_text meta status cx =
     (let cx = (case meta of
            None \<Rightarrow> cx
          | Some meta \<Rightarrow>
              let cx = set_attribute ''khone.batch.size'' (AttrInt (to_i64 (gm_batch_size meta))) cx;
                  cx = set_attribute ''khone.batch.wait_ms'' (AttrInt (to_i64 (unat (gm_batch_wait_ms meta)))) cx
              in (case gm_target_elapsed_ms meta of
                    Some el \<Rightarrow> set_attribute ''khone.target.elapsed_ms'' (AttrInt (to_i64 (unat el))) cx
                  | None \<Rightarrow> cx));
          cx = set_attribute ''http.response.status_code'' (AttrInt (uint status)) cx;
          cx = (if is_server_error status then cx\<lparr>sn_error := Some (status_text status)\<rparr> else cx)
      in cx\<lparr>sn_ended := True\<rparr>)"

text \<open>The span of a request from its arrival to its answer \<open>res\<close>, which still carries its metadata.\<close>

definition traced_request ::
  "(u16 \<Rightarrow> string) \<Rightarrow> app_state \<Rightarrow> http_version \<Rightarrow> http_request \<Rightarrow> ax_response \<Rightarrow> request_span option" where
  "traced_request status_text ap version rq res =
     map_option (\<lambda>cx. finish_span status_text (ax_meta res) (ax_status res) (tag_invoke_mode ap rq cx)) (request_cx ap version rq)"

subsection \<open>What a span says\<close>

text \<open>The reference: every attribute of the vocabulary with its value, if it has one.\<close>

definition present :: "(string \<times> attribute_value option) list \<Rightarrow> (string \<times> attribute_value) list" where
  "present ps = concat (map (\<lambda>(k, v). case v of Some x \<Rightarrow> [(k, x)] | None \<Rightarrow> []) ps)"

definition start_table ::
  "(string \<Rightarrow> string option) \<Rightarrow> http_method \<Rightarrow> string \<Rightarrow> string option \<Rightarrow> http_version \<Rightarrow> string option \<Rightarrow> header_map \<Rightarrow>
   (string \<times> attribute_value option) list" where
  "start_table to_str verb path route version query headers =
     map (map_prod id (map_option AttrString))
       [(''http.request.method'', Some verb), (''url.path'', Some path), (''network.protocol.name'', Some ''http''),
        (''network.protocol.version'', http_version_to_str version), (''http.route'', route),
        (''url.query'', non_blank query), (''user_agent.original'', header_text to_str headers ''user-agent''),
        (''server.address'', header_text to_str headers ''host''), (''url.scheme'', header_text to_str headers ''x-forwarded-proto'')]"

definition mode_value :: "app_state \<Rightarrow> http_request \<Rightarrow> attribute_value option" where
  "mode_value ap rq =
     (case match_request (ap_router ap) (ap_spec ap) (rq_method rq) (rq_path rq) of
        Matched op path_params \<Rightarrow>
          Some (AttrString (case oc_invoke_mode op of Buffered \<Rightarrow> ''buffered'' | ResponseStream \<Rightarrow> ''response_stream''))
      | _ \<Rightarrow> None)"

definition finish_table :: "gateway_response_meta option \<Rightarrow> u16 \<Rightarrow> (string \<times> attribute_value option) list" where
  "finish_table meta status =
     [(''khone.batch.size'', map_option (\<lambda>m. AttrInt (to_i64 (gm_batch_size m))) meta),
      (''khone.batch.wait_ms'', map_option (\<lambda>m. AttrInt (to_i64 (unat (gm_batch_wait_ms m)))) meta),
      (''khone.target.elapsed_ms'', map_option (\<lambda>el. AttrInt (to_i64 (unat el))) (Option.bind meta gm_target_elapsed_ms)),
      (''http.response.status_code'', Some (AttrInt (uint status)))]"

definition span_table :: "app_state \<Rightarrow> http_version \<Rightarrow> http_request \<Rightarrow> ax_response \<Rightarrow> (string \<times> attribute_value option) list" where
  "span_table ap version rq res =
     start_table (ap_to_str ap) (rq_method rq) (rq_path rq) (route_template ap rq) version (rq_query rq) (rq_headers rq) @
     (''khone.invoke.mode'', mode_value ap rq) # finish_table (ax_meta res) (ax_status res)"

lemma present_simps [simp]:
  "present [] = []"
  "present ((k, Some v) # ps) = (k, v) # present ps"
  "present ((k, None) # ps) = present ps"
  "present (ps @ qs) = present ps @ present qs"
  by (simp_all add: present_def)

lemma present_Cons: "present (p # q # ps) = present [p] @ present (q # ps)"
  by (simp add: present_def)

lemma present_keys: "set (map fst (present ps)) \<subseteq> set (map fst ps)"
proof (induction ps)
  case Nil
  then show ?case by simp
next
  case (Cons p ps)
  then show ?case by (cases p; cases "snd p") auto
qed

lemma present_distinct: "distinct (map fst ps) \<Longrightarrow> distinct (map fst (present ps))"
proof (induction ps)
  case Nil
  then show ?case by simp
next
  case (Cons p ps)
  then show ?case using present_keys [of ps] by (cases p; cases "snd p") auto
qed

lemma present_map_of: "distinct (map fst ps) \<Longrightarrow> map_of (present ps) k = Option.bind (map_of ps k) id"
proof (induction ps)
  case Nil
  then show ?case by simp
next
  case (Cons p ps)
  then have "k = fst p \<Longrightarrow> map_of ps k = None" by (auto simp: map_of_eq_None_iff)
  then show ?case using Cons by (cases p; cases "snd p") auto
qed

lemma attributes_set [simp]:
  "sn_attributes (set_attribute k v sp) = sn_attributes sp @ [(k, v)]"
  "sn_attributes (set_string k x sp) = sn_attributes sp @ present [(k, map_option AttrString x)]"
  "sn_name (set_attribute k v sp) = sn_name sp" "sn_name (set_string k x sp) = sn_name sp"
  "sn_error (set_attribute k v sp) = sn_error sp" "sn_error (set_string k x sp) = sn_error sp"
  by (simp_all add: set_attribute_def set_string_def split: option.split)

lemma query_attribute:
  "(case query of Some q \<Rightarrow> if q \<noteq> [] then set_attribute ''url.query'' (AttrString q) cx else cx | None \<Rightarrow> cx) =
     set_string ''url.query'' (non_blank query) cx"
  by (simp add: non_blank_def set_string_def split: option.split)

lemma start_span:
  "sn_attributes (start_request_span to_str verb path route version query headers) =
     present (start_table to_str verb path route version query headers)"
  "sn_name (start_request_span to_str verb path route version query headers) =
     verb @ '' '' @ (case route of Some t \<Rightarrow> t | None \<Rightarrow> path)"
  "sn_error (start_request_span to_str verb path route version query headers) = None"
  by (simp_all add: start_request_span_def Let_def query_attribute start_table_def present_Cons)

lemma tag_span:
  "sn_attributes (tag_invoke_mode ap rq cx) = sn_attributes cx @ present [(''khone.invoke.mode'', mode_value ap rq)]"
  "sn_name (tag_invoke_mode ap rq cx) = sn_name cx" "sn_error (tag_invoke_mode ap rq cx) = sn_error cx"
  by (simp_all add: tag_invoke_mode_def mode_value_def split: route_match.split)

lemma finish_span_attributes:
  "sn_attributes (finish_span status_text meta status cx) = sn_attributes cx @ present (finish_table meta status)"
  "sn_name (finish_span status_text meta status cx) = sn_name cx"
  "sn_error (finish_span status_text meta status cx) = (if is_server_error status then Some (status_text status) else sn_error cx)"
  "sn_ended (finish_span status_text meta status cx)"
  by (simp_all add: finish_span_def finish_table_def Let_def split: option.split)

lemma table_distinct: "distinct (map fst (span_table ap version rq res))"
  by (simp add: span_table_def start_table_def finish_table_def)

lemma to_i64_bounds: "0 \<le> to_i64 n" "to_i64 n < 2 ^ 63" "n < 2 ^ 63 \<Longrightarrow> to_i64 n = int n"
  by (simp_all add: to_i64_def)

text \<open>with tracing on, the span of every answered request is ended and carries exactly the attributes of the reference
  table that have a value, in its order and each once: method, path, route and query as received, the route under
  the template the metrics use, batch size and times of the answer cut off at \<open>i64::MAX\<close>, and the answered status;
  it is marked as an error exactly for a server error.\<close>
theorem request_span_reports_answer:
  assumes "ap_otel_enabled ap"
  shows "\<exists>sp. traced_request status_text ap version rq res = Some sp \<and> sn_ended sp \<and>
    sn_attributes sp = present (span_table ap version rq res) \<and> distinct (map fst (sn_attributes sp)) \<and>
    (\<forall>k. map_of (sn_attributes sp) k = Option.bind (map_of (span_table ap version rq res) k) id) \<and>
    sn_name sp = rq_method rq @ '' '' @ (case route_template ap rq of Some t \<Rightarrow> t | None \<Rightarrow> rq_path rq) \<and>
    sn_error sp = (if is_server_error (ax_status (finish_response ap res)) then Some (status_text (ax_status res)) else None)"
proof -
  have s: "ax_status (finish_response ap res) = ax_status res"
    by (simp add: finish_response_def Let_def split: option.split)
  obtain sp where sp: "traced_request status_text ap version rq res = Some sp"
    "sp = finish_span status_text (ax_meta res) (ax_status res) (tag_invoke_mode ap rq
       (start_request_span (ap_to_str ap) (rq_method rq) (rq_path rq) (route_template ap rq) version (rq_query rq) (rq_headers rq)))"
    using assms by (simp add: traced_request_def request_cx_def)
  have a: "sn_attributes sp = present (span_table ap version rq res)"
    unfolding sp(2) finish_span_attributes tag_span start_span span_table_def
    by (simp only: present_simps(4) append_assoc finish_table_def present_Cons [of "(''khone.invoke.mode'', _)"])
  show ?thesis
    using sp(1) a present_distinct [OF table_distinct] present_map_of [OF table_distinct]
    by (simp add: sp(2) s finish_span_attributes tag_span start_span)
qed

definition example_traced :: app_state where
  "example_traced = example_app\<lparr>ap_otel_enabled := True\<rparr>"

definition example_late :: ax_response where
  "example_late = into_response (with_meta 2 3 (Some (- 1)) (response_text GATEWAY_TIMEOUT ''timeout''))"

theorem request_span_reports_answer_witness:
  "\<exists>sp. traced_request (\<lambda>_. ''late'') example_traced HTTP_2 (example_http ''GET'' ''/a'') example_late = Some sp \<and>
     map_of (sn_attributes sp) ''khone.target.elapsed_ms'' = Some (AttrInt (2 ^ 63 - 1)) \<and>
     map_of (sn_attributes sp) ''http.response.status_code'' = Some (AttrInt 504) \<and>
     map_of (sn_attributes sp) ''user_agent.original'' = None \<and> sn_error sp = Some ''late''"
proof -
  have on: "ap_otel_enabled example_traced" by (simp add: example_traced_def)
  obtain sp where sp: "traced_request (\<lambda>_. ''late'') example_traced HTTP_2 (example_http ''GET'' ''/a'') example_late = Some sp"
    "\<And>k. map_of (sn_attributes sp) k =
        Option.bind (map_of (span_table example_traced HTTP_2 (example_http ''GET'' ''/a'') example_late) k) id"
    "sn_error sp = (if is_server_error (ax_status (finish_response example_traced example_late)) then Some ''late'' else None)"
    using request_span_reports_answer [OF on] by blast
  have l: "ax_status example_late = 504" "ax_meta example_late =
      Some \<lparr>gm_batch_size = 2, gm_batch_wait_ms = 3, gm_target_elapsed_ms = Some (- 1)\<rparr>"
    by (simp_all add: example_late_def into_response_def with_meta_def response_text_def GATEWAY_TIMEOUT_def)
  have s: "ax_status (finish_response example_traced example_late) = 504"
    by (simp add: finish_response_def l Let_def)
  show ?thesis using sp
    by (simp add: l s is_server_error_def span_table_def start_table_def finish_table_def header_text_def hdr_get_def example_http_def
        to_i64_def max_u64_unat)
qed

end
