(* ===== verification/Proxy_Process.thy ===== *)
theory Proxy_Process
  imports Layer_Proxy Setup
begin

text \<open>
  The process around the handlers of \<open>Layer_Proxy\<close>: \<open>config.rs\<close>, the calls of \<open>runtime_api.rs\<close> as HTTP requests
  and the reading of their responses, the router of \<open>proxy.rs\<close>, and \<open>extension.rs\<close>, which registers the
  extension, serves the proxy and waits for the shutdown event. The HTTP client, the listener and the path matcher of
  \<open>axum\<close> are libraries: their results are events and parameters.
\<close>

subsection \<open>Configuration (\<open>config.rs\<close>)\<close>

text \<open>\<open>parse_addr\<close> is \<open>SocketAddr::from_str\<close>.\<close>

record 'a proxy_config =
  cf_proxy_addr :: 'a
  cf_upstream_runtime_api :: string

definition config_from_env :: "(string \<Rightarrow> 'a res) \<Rightarrow> environment \<Rightarrow> 'a proxy_config res" where
  "config_from_env parse_addr env =
     (let proxy_addr = (case env ''KHONE_PROXY_ADDR'' of Some v \<Rightarrow> v | None \<Rightarrow> ''127.0.0.1:9009'')
      in case parse_addr proxy_addr of
           Inl err \<Rightarrow> Inl (''invalid KHONE_PROXY_ADDR ('' @ proxy_addr @ ''): '' @ err)
         | Inr addr \<Rightarrow>
             (case or_else (env ''KHONE_UPSTREAM_RUNTIME_API'') (env ''AWS_LAMBDA_RUNTIME_API'') of
                None \<Rightarrow> Inl ''missing KHONE_UPSTREAM_RUNTIME_API and AWS_LAMBDA_RUNTIME_API''
              | Some api \<Rightarrow> Inr \<lparr>cf_proxy_addr = addr, cf_upstream_runtime_api = api\<rparr>))"

definition upstream_base_url :: "'a proxy_config \<Rightarrow> string" where
  "upstream_base_url cfg = ''http://'' @ cf_upstream_runtime_api cfg"

subsection \<open>Calls (\<open>runtime_api.rs\<close>)\<close>

datatype call_body = NoBody | BytesBody bytes | JsonBody json | StreamBody chan

record http_call =
  hc_verb :: string
  hc_url :: string
  hc_headers :: header_map
  hc_body :: call_body

definition next_invocation_call :: "string \<Rightarrow> http_call" where
  "next_invocation_call base_url =
     \<lparr>hc_verb = ''GET'', hc_url = base_url @ ''/2018-06-01/runtime/invocation/next'', hc_headers = [], hc_body = NoBody\<rparr>"

text \<open>\<open>forward_invocation_call\<close> and \<open>forward_request\<close> send the same request and read different parts of the response.\<close>

definition forward_call :: "string \<Rightarrow> string \<Rightarrow> string \<Rightarrow> header_map \<Rightarrow> bytes \<Rightarrow> http_call" where
  "forward_call base_url verb path_and_query headers body =
     \<lparr>hc_verb = verb, hc_url = base_url @ path_and_query, hc_headers = forwarded_headers headers, hc_body = BytesBody body\<rparr>"

definition forward_invocation_result :: "exchange \<Rightarrow> u16 res" where
  "forward_invocation_result resp = (case resp of Inl e \<Rightarrow> Inl e | Inr (status, headers, body) \<Rightarrow> Inr status)"

definition forward_request_result :: "exchange \<Rightarrow> (u16 \<times> header_map \<times> bytes) res" where
  "forward_request_result resp =
     (case resp of
        Inl e \<Rightarrow> Inl e
      | Inr (status, headers, body) \<Rightarrow> (case body of Inl e \<Rightarrow> Inl e | Inr b \<Rightarrow> Inr (status, headers, b)))"

definition streaming_response_call :: "string \<Rightarrow> string \<Rightarrow> string \<Rightarrow> chan \<Rightarrow> http_call" where
  "streaming_response_call base_url request_id content_type rx =
     \<lparr>hc_verb = ''POST'', hc_url = base_url @ ''/2018-06-01/runtime/invocation/'' @ request_id @ ''/response'',
      hc_headers = [(''lambda-runtime-function-response-mode'', ''streaming''), (''transfer-encoding'', ''chunked''),
        (''content-type'', content_type)], hc_body = StreamBody rx\<rparr>"

definition streaming_response_result :: "proxy_lib \<Rightarrow> exchange \<Rightarrow> unit res" where
  "streaming_response_result lib resp =
     (case resp of
        Inl e \<Rightarrow> Inl e
      | Inr (status, headers, body) \<Rightarrow>
          if status_is_success lib status then Inr ()
          else Inl (''upstream /response failed (status '' @ status_display lib status @ '')''))"

definition register_extension_call :: "string \<Rightarrow> string \<Rightarrow> http_call" where
  "register_extension_call base_url name =
     \<lparr>hc_verb = ''POST'', hc_url = base_url @ ''/2020-01-01/extension/register'',
      hc_headers = [(''lambda-extension-name'', name)], hc_body = JsonBody (JObject [(''events'', JArray [JString ''SHUTDOWN''])])\<rparr>"

definition register_extension_result :: "proxy_lib \<Rightarrow> exchange \<Rightarrow> string res" where
  "register_extension_result lib resp =
     (case resp of
        Inl e \<Rightarrow> Inl e
      | Inr (status, headers, body) \<Rightarrow>
          if \<not> status_is_success lib status then Inl (''extension register failed (status '' @ status_display lib status @ '')'')
          else (case Option.bind (hdr_get headers ''lambda-extension-identifier'') (header_to_str lib) of
                  None \<Rightarrow> Inl ''missing Lambda-Extension-Identifier header''
                | Some eid \<Rightarrow> Inr eid))"

definition next_extension_event_call :: "string \<Rightarrow> string \<Rightarrow> http_call" where
  "next_extension_event_call base_url extension_id =
     \<lparr>hc_verb = ''GET'', hc_url = base_url @ ''/2020-01-01/extension/event/next'',
      hc_headers = [(''lambda-extension-identifier'', extension_id)], hc_body = NoBody\<rparr>"

definition next_extension_event_result :: "proxy_lib \<Rightarrow> exchange \<Rightarrow> bytes res" where
  "next_extension_event_result lib resp =
     (case resp of
        Inl e \<Rightarrow> Inl e
      | Inr (status, headers, body) \<Rightarrow>
          if \<not> status_is_success lib status then
            Inl (''extension event/next failed (status '' @ status_display lib status @ '')'')
          else body)"

text \<open>The calls the handlers of \<open>Layer_Proxy\<close> make, as requests.\<close>

definition http_of :: "string \<Rightarrow> proxy_call \<Rightarrow> http_call" where
  "http_of base_url c =
     (case c of
        GetNext \<Rightarrow> next_invocation_call base_url
      | PostCall path headers body \<Rightarrow> forward_call base_url ''POST'' path headers body)"

lemma forwarded_twice [simp]: "forwarded_headers (forwarded_headers headers) = forwarded_headers headers"
  by (simp add: forwarded_headers_def)

subsection \<open>The router (\<open>proxy.rs\<close>)\<close>

datatype proxy_handler = HandleNext | HandleResponse | HandleError

definition proxy_routes :: "(string \<times> string \<times> proxy_handler) list" where
  "proxy_routes =
     [(''/2018-06-01/runtime/invocation/next'', ''GET'', HandleNext),
      (''/2018-06-01/runtime/invocation/{id}/response'', ''POST'', HandleResponse),
      (''/2018-06-01/runtime/invocation/{id}/error'', ''POST'', HandleError)]"

text \<open>
  \<open>axum\<close>: the route of a path among the registered templates with its parameters, the status with which the route of
  one verb refuses another, and the two extractors that can reject a request before its handler runs: \<open>Path<String>\<close> and
  \<open>Bytes\<close> (which has a size limit that the router does not set).
\<close>

record axum_lib =
  ax_route :: "string list \<Rightarrow> string \<Rightarrow> (string \<times> (string \<times> string) list) option"
  ax_refuses :: "string \<Rightarrow> string \<Rightarrow> u16 option"
  ax_path :: "(string \<times> string) list \<Rightarrow> u16 + string"
  ax_bytes :: "header_map \<Rightarrow> bytes \<Rightarrow> u16 + bytes"

datatype dispatched =
    Start proxy_event
  | Fallback
  | Rejected u16

definition completion :: "axum_lib \<Rightarrow> (header_map \<Rightarrow> bytes \<Rightarrow> completion_kind) \<Rightarrow> (string \<times> string) list \<Rightarrow> header_map \<Rightarrow> bytes \<Rightarrow> dispatched" where
  "completion ax kind params headers body =
     (case ax_path ax params of
        Inl status \<Rightarrow> Rejected status
      | Inr rid \<Rightarrow>
          (case ax_bytes ax headers body of
             Inl status \<Rightarrow> Rejected status
           | Inr bs \<Rightarrow> Start (Complete rid (kind headers bs))))"

definition dispatch :: "axum_lib \<Rightarrow> string \<Rightarrow> string \<Rightarrow> header_map \<Rightarrow> bytes \<Rightarrow> dispatched" where
  "dispatch ax verb path headers body =
     (case ax_route ax (map fst proxy_routes) path of
        None \<Rightarrow> Fallback
      | Some (template, params) \<Rightarrow>
          (case map_of proxy_routes template of
             None \<Rightarrow> Fallback
           | Some (route_verb, handler) \<Rightarrow>
               (case ax_refuses ax route_verb verb of
                  Some status \<Rightarrow> Rejected status
                | None \<Rightarrow>
                    (case handler of
                       HandleNext \<Rightarrow> Start PollNext
                     | HandleResponse \<Rightarrow> completion ax CompletionResponse params headers body
                     | HandleError \<Rightarrow> completion ax CompletionError params headers body))))"

subsection \<open>The extension (\<open>extension.rs\<close>)\<close>

definition EXTENSION_NAME :: string where
  "EXTENSION_NAME = ''khone-runtime-api-proxy''"

text \<open>The server task: running, with or without the shutdown signal, or ended. A task ends with an error of \<open>serve\<close>,
  in order, or in a panic (\<open>Inl\<close>).\<close>

type_synonym task_result = "unit res res"

datatype server_task = NotSpawned | Serving bool | ServeEnded task_result

datatype 'a extension_pc =
    ExtStart
  | ExtRegister "'a proxy_config"
  | ExtAwaitEvent
  | ExtJoin
  | ExtDone "unit res"

record 'a extension =
  ex_pc :: "'a extension_pc"
  ex_server :: server_task

datatype extension_event = ExtRun | Registered exchange | EventArrived exchange | ServerEnds task_result

datatype 'a extension_out = ExtCall http_call | Serve 'a string | SignalShutdown

definition extension_new :: "'a extension" where
  "extension_new = \<lparr>ex_pc = ExtStart, ex_server = NotSpawned\<rparr>"

definition join_result :: "task_result \<Rightarrow> unit res" where
  "join_result r = (case r of Inr served \<Rightarrow> served | Inl err \<Rightarrow> Inl (''proxy server task failed: '' @ err))"

text \<open>The sender of the signal is used, or dropped when \<open>run\<close> returns early; both end the wait of the server.\<close>

definition signal_shutdown :: "server_task \<Rightarrow> server_task" where
  "signal_shutdown t = (case t of Serving _ \<Rightarrow> Serving True | _ \<Rightarrow> t)"

text \<open>\<open>client\<close> is the result of building the HTTP client.\<close>

fun extension_step ::
  "proxy_lib \<Rightarrow> (string \<Rightarrow> 'a res) \<Rightarrow> environment \<Rightarrow> unit res \<Rightarrow> 'a extension \<Rightarrow> extension_event \<Rightarrow>
   ('a extension \<times> 'a extension_out list) option" where
  "extension_step lib parse_addr env client s ExtRun =
     (case ex_pc s of
        ExtStart \<Rightarrow>
          (case config_from_env parse_addr env of
             Inl e \<Rightarrow> Some (s\<lparr>ex_pc := ExtDone (Inl e)\<rparr>, [])
           | Inr cfg \<Rightarrow>
               (case client of
                  Inl e \<Rightarrow> Some (s\<lparr>ex_pc := ExtDone (Inl e)\<rparr>, [])
                | Inr _ \<Rightarrow> Some (s\<lparr>ex_pc := ExtRegister cfg\<rparr>,
                    [ExtCall (register_extension_call (upstream_base_url cfg) EXTENSION_NAME)])))
      | _ \<Rightarrow> None)"
| "extension_step lib parse_addr env client s (Registered resp) =
     (case ex_pc s of
        ExtRegister cfg \<Rightarrow>
          (case register_extension_result lib resp of
             Inl e \<Rightarrow> Some (s\<lparr>ex_pc := ExtDone (Inl e)\<rparr>, [])
           | Inr extension_id \<Rightarrow>
               Some (s\<lparr>ex_pc := ExtAwaitEvent, ex_server := Serving False\<rparr>,
                 [Serve (cf_proxy_addr cfg) (upstream_base_url cfg),
                  ExtCall (next_extension_event_call (upstream_base_url cfg) extension_id)]))
      | _ \<Rightarrow> None)"
| "extension_step lib parse_addr env client s (EventArrived resp) =
     (case ex_pc s of
        ExtAwaitEvent \<Rightarrow>
          (case next_extension_event_result lib resp of
             Inl e \<Rightarrow> Some (s\<lparr>ex_pc := ExtDone (Inl e), ex_server := signal_shutdown (ex_server s)\<rparr>, [])
           | Inr _ \<Rightarrow>
               Some (s\<lparr>ex_pc := (case ex_server s of ServeEnded r \<Rightarrow> ExtDone (join_result r) | _ \<Rightarrow> ExtJoin),
                       ex_server := signal_shutdown (ex_server s)\<rparr>, [SignalShutdown]))
      | _ \<Rightarrow> None)"
| "extension_step lib parse_addr env client s (ServerEnds r) =
     (case ex_server s of
        Serving _ \<Rightarrow>
          Some (s\<lparr>ex_server := ServeEnded r,
                  ex_pc := (if ex_pc s = ExtJoin then ExtDone (join_result r) else ex_pc s)\<rparr>, [])
      | _ \<Rightarrow> None)"

subsection \<open>Properties\<close>

definition extension_inv :: "'a extension \<Rightarrow> bool" where
  "extension_inv s \<longleftrightarrow>
     (case ex_pc s of
        ExtStart \<Rightarrow> ex_server s = NotSpawned
      | ExtRegister cfg \<Rightarrow> ex_server s = NotSpawned
      | ExtAwaitEvent \<Rightarrow> ex_server s = Serving False \<or> (\<exists>r. ex_server s = ServeEnded r)
      | ExtJoin \<Rightarrow> ex_server s = Serving True
      | ExtDone r \<Rightarrow> ex_server s \<noteq> Serving False \<and> (r = Inr () \<longrightarrow> ex_server s = ServeEnded (Inr (Inr ()))))"

fun out_kind :: "'a extension_out \<Rightarrow> nat" where
  "out_kind (ExtCall c) = (if hc_verb c = ''POST'' then 0 else 2)"
| "out_kind (Serve a b) = 1"
| "out_kind SignalShutdown = 3"

text \<open>How far the outputs have come: register, serve, ask for the event, signal.\<close>

fun outputs_at :: "'a extension_pc \<Rightarrow> nat list set" where
  "outputs_at ExtStart = {[]}"
| "outputs_at (ExtRegister cfg) = {[0]}"
| "outputs_at ExtAwaitEvent = {[0, 1, 2]}"
| "outputs_at ExtJoin = {[0, 1, 2, 3]}"
| "outputs_at (ExtDone r) = (case r of Inr _ \<Rightarrow> {[0, 1, 2, 3]} | Inl _ \<Rightarrow> {[], [0], [0, 1, 2], [0, 1, 2, 3]})"

lemma extension_step_inv:
  assumes "extension_inv s" "extension_step lib parse_addr env client s e = Some (s', os)"
  shows "extension_inv s' \<and> (ks \<in> outputs_at (ex_pc s) \<longrightarrow> ks @ map out_kind os \<in> outputs_at (ex_pc s'))"
  using assms
  by (cases e; cases "ex_pc s"; cases "ex_server s")
    (auto simp: extension_inv_def signal_shutdown_def join_result_def register_extension_call_def
      next_extension_event_call_def split: sum.splits if_splits)

lemma extension_run:
  "run (extension_step lib parse_addr env client) s es = Some (t, os) \<Longrightarrow> extension_inv s \<Longrightarrow> ks \<in> outputs_at (ex_pc s) \<Longrightarrow>
   extension_inv t \<and> ks @ map out_kind os \<in> outputs_at (ex_pc t)"
proof (induction es arbitrary: s os ks)
  case Nil
  then show ?case by simp
next
  case (Cons e es)
  from Cons.prems(1) obtain s' o1 o2 where
    1: "extension_step lib parse_addr env client s e = Some (s', o1)"
    and 2: "run (extension_step lib parse_addr env client) s' es = Some (t, o2)" and 3: "os = o1 @ o2"
    by (rule run_ConsE)
  show ?case
    using Cons.IH [OF 2, where ks = "ks @ map out_kind o1"] extension_step_inv [OF Cons.prems(2) 1, where ks = ks] Cons.prems(3)
    by (simp add: 3)
qed

text \<open>C38: the extension registers before it serves, serves before it asks for the event, and in every order of
  responses and server failures it never returns while the server runs without a shutdown signal; it returns
  successfully only after the event, the signal and an orderly end of the server.\<close>
theorem extension_lifecycle:
  assumes "run (extension_step lib parse_addr env client) extension_new es = Some (s, os)"
  shows "(\<exists>n. map out_kind os = take n [0, 1, 2, 3]) \<and>
    (case ex_pc s of
       ExtDone r \<Rightarrow> ex_server s \<noteq> Serving False \<and>
         (r = Inr () \<longrightarrow> ex_server s = ServeEnded (Inr (Inr ())) \<and> map out_kind os = [0, 1, 2, 3])
     | _ \<Rightarrow> True)"
proof -
  have e: "extension_inv s" "[] @ map out_kind os \<in> outputs_at (ex_pc s)"
    using extension_run [OF assms, where ks = "[]"] by (simp_all add: extension_inv_def extension_new_def)
  have "map out_kind os \<in> {[], [0], [0, 1, 2], [0, 1, 2, 3]}" using e(2) by (cases "ex_pc s") (auto split: sum.splits)
  then have "map out_kind os = take (length (map out_kind os)) [0, 1, 2, 3]" by auto
  then have p: "\<exists>n. map out_kind os = take n [0, 1, 2, 3]" by blast
  have d: "case ex_pc s of
       ExtDone r \<Rightarrow> ex_server s \<noteq> Serving False \<and>
         (r = Inr () \<longrightarrow> ex_server s = ServeEnded (Inr (Inr ())) \<and> map out_kind os = [0, 1, 2, 3])
     | _ \<Rightarrow> True"
  proof (cases "ex_pc s")
    case (ExtDone r)
    then show ?thesis using e by (cases r) (simp_all add: extension_inv_def)
  qed simp_all
  show ?thesis using p d ..
qed

definition example_proxy_env :: environment where
  "example_proxy_env name = (if name = ''AWS_LAMBDA_RUNTIME_API'' then Some ''127.0.0.1:9001'' else None)"

definition example_extension_run :: "extension_event list" where
  "example_extension_run = [ExtRun, Registered (Inr (202, [(''lambda-extension-identifier'', ''e'')], Inr [])),
     EventArrived (Inr (202, [], Inr ''bye'')), ServerEnds (Inr (Inr ()))]"

theorem extension_lifecycle_witness:
  "\<exists>s os. run (extension_step example_lib Inr example_proxy_env (Inr ())) extension_new example_extension_run = Some (s, os) \<and>
     ex_pc s = ExtDone (Inr ()) \<and> ex_server s = ServeEnded (Inr (Inr ())) \<and> map out_kind os = [0, 1, 2, 3]"
proof -
  obtain s os where r: "run (extension_step example_lib Inr example_proxy_env (Inr ())) extension_new example_extension_run = Some (s, os)"
    "ex_pc s = ExtDone (Inr ())"
    by (simp add: example_extension_run_def extension_new_def config_from_env_def example_proxy_env_def or_else_def Let_def
        register_extension_result_def next_extension_event_result_def example_lib_def hdr_get_def signal_shutdown_def join_result_def)
  show ?thesis using r extension_lifecycle [OF r(1)] by auto
qed

text \<open>A server that cannot be served, because its address is taken, is noticed only when the event has come: until then
  the extension waits although nothing answers the runtime.\<close>
lemma failed_server_unnoticed:
  assumes "ex_pc s = ExtAwaitEvent" "ex_server s = Serving False"
  shows "extension_step lib parse_addr env client s (ServerEnds (Inr (Inl e))) =
      Some (s\<lparr>ex_server := ServeEnded (Inr (Inl e))\<rparr>, [])"
    "extension_step lib parse_addr env client (s\<lparr>ex_server := ServeEnded (Inr (Inl e))\<rparr>) ev \<noteq> None \<Longrightarrow> \<exists>resp. ev = EventArrived resp"
  using assms by (simp_all, cases ev) simp_all

text \<open>The documented behaviour of the path matcher on the two routes with an identifier: a path segment that needs no decoding
  is the identifier; and of the extractors: the path gives that identifier, and a body that is taken is the body.\<close>

definition plain_segment :: "string \<Rightarrow> bool" where
  "plain_segment rid \<longleftrightarrow> rid \<noteq> [] \<and> list_all (\<lambda>c. c \<noteq> CHR ''/'' \<and> c \<noteq> CHR ''%'') rid"

definition matches_segments :: "axum_lib \<Rightarrow> bool" where
  "matches_segments ax \<longleftrightarrow> ax_refuses ax ''POST'' ''POST'' = None \<and> (\<forall>rid. plain_segment rid \<longrightarrow>
     ax_route ax (map fst proxy_routes) (invocation_path rid ''response'') =
       Some (''/2018-06-01/runtime/invocation/{id}/response'', [(''id'', rid)]) \<and>
     ax_route ax (map fst proxy_routes) (invocation_path rid ''error'') =
       Some (''/2018-06-01/runtime/invocation/{id}/error'', [(''id'', rid)]) \<and>
     ax_path ax [(''id'', rid)] = Inr rid) \<and>
   (\<forall>headers body bs. ax_bytes ax headers body = Inr bs \<longrightarrow> bs = body)"

fun kind_path :: "completion_kind \<Rightarrow> string" where
  "kind_path (CompletionResponse headers body) = ''response''"
| "kind_path (CompletionError headers body) = ''error''"

fun kind_headers :: "completion_kind \<Rightarrow> header_map" where
  "kind_headers (CompletionResponse headers body) = headers"
| "kind_headers (CompletionError headers body) = headers"

fun kind_body :: "completion_kind \<Rightarrow> bytes" where
  "kind_body (CompletionResponse headers body) = body"
| "kind_body (CompletionError headers body) = body"

lemma dispatch_completion:
  assumes "matches_segments ax" "plain_segment rid"
  shows "dispatch ax ''POST'' (invocation_path rid (kind_path kind)) (kind_headers kind) (kind_body kind) =
    (case ax_bytes ax (kind_headers kind) (kind_body kind) of Inl status \<Rightarrow> Rejected status | Inr bs \<Rightarrow> Start (Complete rid kind))"
proof -
  have "bs = kind_body kind" if "ax_bytes ax (kind_headers kind) (kind_body kind) = Inr bs" for bs
    using assms(1) that unfolding matches_segments_def by blast
  then show ?thesis
    using assms by (cases kind) (auto simp: dispatch_def completion_def matches_segments_def proxy_routes_def split: sum.split)
qed

text \<open>C39: The proxy is transparent for an event that is not a batch: a completion that the runtime posts for it, response or
  error, under an identifier that needs no percent-decoding, is either refused by the framework's body extractor (its size
  limit), with that extractor's status and without any step of the proxy; or it becomes exactly one call to the Runtime API,
  with the same verb, path and body and the headers without those of the connection.\<close>

theorem pass_through_transparent:
  assumes "matches_segments ax" "plain_segment (pt_request_id pass)" "in_active (ly_inner s) = PassThrough pass"
  shows "case ax_bytes ax (kind_headers kind) (kind_body kind) of
      Inl status \<Rightarrow> dispatch ax ''POST'' (invocation_path (pt_request_id pass) (kind_path kind)) (kind_headers kind) (kind_body kind) =
        Rejected status
    | Inr _ \<Rightarrow> \<exists>e u c. dispatch ax ''POST'' (invocation_path (pt_request_id pass) (kind_path kind)) (kind_headers kind) (kind_body kind) = Start e \<and>
        run (proxy_step lib ext) s [e, Act (length (ly_handlers s))] = Some (u, [c]) \<and> ly_inner u = ly_inner s \<and>
        http_of base c = forward_call base ''POST'' (invocation_path (pt_request_id pass) (kind_path kind)) (kind_headers kind) (kind_body kind)"
proof -
  let ?rid = "pt_request_id pass" and ?n = "length (ly_handlers s)"
  let ?t = "spawn (ComplEnter ?rid kind) s"
  have "handle_completion_inner lib (ly_inner s) (ly_streams s) ?rid kind = ((ly_inner s, ly_streams s),
      Inr (ForwardToUpstream (invocation_path ?rid (kind_path kind)) (kind_headers kind) (kind_body kind)))"
    using assms(3) by (cases kind) (simp_all add: handle_completion_inner_def)
  then have "run (proxy_step lib ext) s [Complete ?rid kind, Act ?n] =
      Some (goto ?n ComplForward ?t, [PostCall (invocation_path ?rid (kind_path kind)) (forwarded_headers (kind_headers kind)) (kind_body kind)])"
    by (simp add: act_def spawn_def)
  then show ?thesis using dispatch_completion [OF assms(1,2), of kind] by (auto simp: http_of_def forward_call_def split: sum.split)
qed

text \<open>A path matcher for these routes.\<close>

definition example_axum :: axum_lib where
  "example_axum = \<lparr>
     ax_route = (\<lambda>ts path.
       let rest = drop (length ''/2018-06-01/runtime/invocation/'') path; seg = takeWhile (\<lambda>c. c \<noteq> CHR ''/'') rest
       in if drop (length seg) rest = ''/response'' then Some (''/2018-06-01/runtime/invocation/{id}/response'', [(''id'', seg)])
          else if drop (length seg) rest = ''/error'' then Some (''/2018-06-01/runtime/invocation/{id}/error'', [(''id'', seg)])
          else None),
     ax_refuses = (\<lambda>route_verb verb. if route_verb = verb then None else Some METHOD_NOT_ALLOWED),
     ax_path = (\<lambda>params. case params of [(_, v)] \<Rightarrow> Inr v | _ \<Rightarrow> Inl INTERNAL_SERVER_ERROR),
     ax_bytes = (\<lambda>headers body. if length body \<le> 2 * 1024 * 1024 then Inr body else Inl PAYLOAD_TOO_LARGE)\<rparr>"

lemma example_axum_matches: "matches_segments example_axum"
proof -
  have "takeWhile (\<lambda>c. c \<noteq> CHR ''/'') (rid @ CHR ''/'' # what) = rid" if "plain_segment rid" for rid what
    using that by (subst takeWhile_append2) (auto simp: plain_segment_def list_all_iff)
  then show ?thesis by (simp add: matches_segments_def example_axum_def invocation_path_def Let_def)
qed

definition example_passing :: proxy where
  "example_passing = proxy_new\<lparr>ly_inner := \<lparr>in_fetching_outer = False, in_active = PassThrough
     \<lparr>pt_request_id = ''p'', pt_headers = [], pt_body = [], pt_delivered = True\<rparr>\<rparr>\<rparr>"

theorem pass_through_transparent_witness:
  "(\<exists>e u c. dispatch example_axum ''POST'' ''/2018-06-01/runtime/invocation/p/error'' [(''host'', ''h''), (''x'', ''1'')] ''oops'' = Start e \<and>
     run (proxy_step example_lib example_proxy_ext) example_passing [e, Act 0] = Some (u, [c]) \<and>
     http_of ''http://up'' c = \<lparr>hc_verb = ''POST'', hc_url = ''http://up/2018-06-01/runtime/invocation/p/error'',
       hc_headers = [(''x'', ''1'')], hc_body = BytesBody ''oops''\<rparr>) \<and>
   dispatch example_axum ''POST'' (invocation_path ''p'' ''response'') [] (replicate 3000000 CHR ''x'') = Rejected PAYLOAD_TOO_LARGE"
proof -
  let ?pass = "\<lparr>pt_request_id = ''p'', pt_headers = [], pt_body = [], pt_delivered = True\<rparr>"
  have a: "plain_segment (pt_request_id ?pass)" "in_active (ly_inner example_passing) = PassThrough ?pass"
    "length (ly_handlers example_passing) = 0"
    by (simp_all add: plain_segment_def example_passing_def proxy_new_def)
  have f: "forwarded_headers [(''host'', ''h''), (''x'', ''1'')] = [(''x'', ''1'')]"
    by code_simp
  have "dispatch example_axum ''POST'' (invocation_path ''p'' ''response'') [] (replicate 3000000 CHR ''x'') = Rejected PAYLOAD_TOO_LARGE"
    using pass_through_transparent [OF example_axum_matches a(1,2), of "CompletionResponse [] (replicate 3000000 CHR ''x'')"]
    by (simp add: example_axum_def)
  moreover have "ax_bytes example_axum [(''host'', ''h''), (''x'', ''1'')] ''oops'' = Inr ''oops''" by (simp add: example_axum_def)
  ultimately show ?thesis
    using pass_through_transparent [OF example_axum_matches a(1,2), of "CompletionError [(''host'', ''h''), (''x'', ''1'')] ''oops''"
        example_lib example_proxy_ext "''http://up''"] a(3) f
    by (auto simp: forward_call_def invocation_path_def)
qed

text \<open>The routes of completions take less than the proxy forwards: where the framework refuses a completion's body, its handler
  never runs, so the proxy goes on waiting for that completion, although on a path that is no route the same body is
  forwarded as long as it is within the 10 MiB the proxy sets for itself.\<close>

theorem large_completion_refused:
  assumes "matches_segments ax" "plain_segment rid" "ax_bytes ax (kind_headers kind) (kind_body kind) = Inl refusal"
    and "ax_route ax (map fst proxy_routes) path = None"
    and "length (kind_body kind) \<le> MAX_FORWARD_BODY_BYTES" "up verb path (forwarded_headers headers) (kind_body kind) = Inr (status, hs, out)"
  shows "dispatch ax ''POST'' (invocation_path rid (kind_path kind)) (kind_headers kind) (kind_body kind) = Rejected refusal \<and>
    dispatch ax verb path headers (kind_body kind) = Fallback \<and>
    handle_fallback up verb path headers (Inr (kind_body kind)) =
      Inr \<lparr>px_status = status, px_headers = sanitize_next_headers hs, px_body = out\<rparr>"
  using dispatch_completion [OF assms(1,2), of kind] assms(3-6) by (simp add: handle_fallback_def dispatch_def)

subsection \<open>The server task\<close>

text \<open>\<open>serve\<close> and \<open>serve_listener\<close>: the listener is bound, then requests are served until the shutdown signal or an
  error of the server; \<open>serve_step\<close> follows the awaits. The graceful server of \<open>axum\<close> returns without an error only
  once it has seen the signal.\<close>

datatype serve_pc = SvBinding | SvServing bool | SvReturned "unit res"

datatype serve_event = SvBound "unit res" | SvSignalled | SvServerReturns "unit res"

fun serve_step :: "serve_pc \<Rightarrow> serve_event \<Rightarrow> (serve_pc \<times> unit list) option" where
  "serve_step SvBinding (SvBound (Inl e)) = Some (SvReturned (Inl e), [])"
| "serve_step SvBinding (SvBound (Inr u)) = Some (SvServing False, [])"
| "serve_step (SvServing signalled) SvSignalled = Some (SvServing True, [])"
| "serve_step (SvServing signalled) (SvServerReturns (Inl e)) = Some (SvReturned (Inl e), [])"
| "serve_step (SvServing signalled) (SvServerReturns (Inr u)) = (if signalled then Some (SvReturned (Inr ()), []) else None)"
| "serve_step s e = None"

lemma serve_returned: "run serve_step (SvReturned r) es = Some (t, os) \<Longrightarrow> t = SvReturned r"
  by (cases es) (simp_all split: prod.splits option.splits)

lemma serve_run:
  "run serve_step s es = Some (SvReturned (Inr ()), os) \<Longrightarrow> s \<noteq> SvReturned (Inr ()) \<Longrightarrow>
     (s = SvBinding \<longrightarrow> SvBound (Inr ()) \<in> set es) \<and> (s = SvServing True \<or> SvSignalled \<in> set es)"
proof (induction es arbitrary: s os)
  case (Cons e es)
  from Cons.prems(1) obtain s' o1 o2 where s: "serve_step s e = Some (s', o1)" "run serve_step s' es = Some (SvReturned (Inr ()), o2)"
    by (rule run_ConsE)
  show ?case
  proof (cases "\<exists>r. s' = SvReturned r")
    case True
    then have "s' = SvReturned (Inr ())" using serve_returned s(2) by fastforce
    then show ?thesis using s(1) by (cases "(s, e)" rule: serve_step.cases) (auto split: if_splits)
  next
    case False
    then show ?thesis using Cons.IH [OF s(2)] s(1) by (cases "(s, e)" rule: serve_step.cases) (auto split: if_splits)
  qed
qed simp

text \<open>The server task ends in order only after its listener was bound and the signal was given: so an extension that
  returns successfully has served until then.\<close>

lemma served_until_signal:
  "run serve_step SvBinding es = Some (SvReturned (Inr ()), os) \<Longrightarrow> SvBound (Inr ()) \<in> set es \<and> SvSignalled \<in> set es"
  using serve_run [of SvBinding es os] by simp

text \<open>\<open>init_tracing\<close>: the filter of \<open>RUST_LOG\<close> when it parses (\<open>EnvFilter\<close>), and JSON lines when Lambda asks for them.\<close>

record log_setup =
  lg_filter :: string
  lg_json :: bool

definition env_filter :: "(string \<Rightarrow> bool) \<Rightarrow> environment \<Rightarrow> string" where
  "env_filter parses env = (case env ''RUST_LOG'' of Some s \<Rightarrow> if parses s then s else ''info'' | None \<Rightarrow> ''info'')"

definition proxy_tracing :: "(string \<Rightarrow> bool) \<Rightarrow> environment \<Rightarrow> log_setup" where
  "proxy_tracing parses env =
     \<lparr>lg_filter = env_filter parses env,
      lg_json = (ascii_lower (case env ''AWS_LAMBDA_LOG_FORMAT'' of Some s \<Rightarrow> s | None \<Rightarrow> []) = ''json'')\<rparr>"

lemma proxy_tracing_default:
  "env ''RUST_LOG'' = None \<Longrightarrow> env ''AWS_LAMBDA_LOG_FORMAT'' = None \<Longrightarrow> proxy_tracing parses env = \<lparr>lg_filter = ''info'', lg_json = False\<rparr>"
  by (simp add: proxy_tracing_def env_filter_def ascii_lower_def)

end
