(* ===== verification/Adapter_Api.thy ===== *)
theory Adapter_Api
  imports Adapter
begin

text \<open>
  The surface of the Rust adapter (\<open>lambda-kit/adapter-rust/src/lib.rs\<close>): the conversions into chunks and bodies,
  the two adapter types with their constructors and settings, and what both make of the same batch.
\<close>

subsection \<open>Conversions\<close>

text \<open>\<open>From<&str>\<close> and \<open>From<String>\<close>, \<open>From<Vec<u8>>\<close> and \<open>From<Bytes>\<close>.\<close>

definition chunk_from_text :: "string \<Rightarrow> response_chunk" where
  "chunk_from_text value = TextChunk value"

definition chunk_from_bytes :: "bytes \<Rightarrow> response_chunk" where
  "chunk_from_bytes value = BinaryChunk value"

definition body_from_unit :: "unit \<Rightarrow> response_body" where
  "body_from_unit u = EmptyBody"

definition body_from_text :: "string \<Rightarrow> response_body" where
  "body_from_text value = TextBody value"

definition body_from_bytes :: "bytes \<Rightarrow> response_body" where
  "body_from_bytes value = BinaryBody value"

definition body_stream :: "response_chunk list \<Rightarrow> response_body" where
  "body_stream chunks = StreamBody chunks"

text \<open>\<open>Debug\<close>: text is shown (\<open>quote\<close> renders a string), bytes only by their number, a stream not at all.\<close>

definition body_debug :: "(string \<Rightarrow> string) \<Rightarrow> response_body \<Rightarrow> string" where
  "body_debug quote body =
     (case body of
        EmptyBody \<Rightarrow> ''ResponseBody::Empty''
      | TextBody s \<Rightarrow> ''ResponseBody::Text('' @ quote s @ '')''
      | BinaryBody bs \<Rightarrow> ''ResponseBody::Binary(<'' @ dec (length bs) @ '' bytes>)''
      | StreamBody _ \<Rightarrow> ''ResponseBody::Stream(..)'')"

subsection \<open>The adapters\<close>

record 'h batch_adapter =
  ba_handler :: 'h
  ba_concurrency :: nat

definition batch_adapter :: "'h \<Rightarrow> 'h batch_adapter" where
  "batch_adapter handler = \<lparr>ba_handler = handler, ba_concurrency = 16\<rparr>"

definition with_concurrency :: "nat \<Rightarrow> 'h batch_adapter \<Rightarrow> 'h batch_adapter" where
  "with_concurrency concurrency a = a\<lparr>ba_concurrency := normalize_concurrency concurrency\<rparr>"

record 'h batch_adapter_stream =
  bs_handler :: 'h
  bs_concurrency :: nat
  bs_interleaved :: bool

definition batch_adapter_stream :: "'h \<Rightarrow> 'h batch_adapter_stream" where
  "batch_adapter_stream handler = \<lparr>bs_handler = handler, bs_concurrency = 16, bs_interleaved = False\<rparr>"

definition with_concurrency_stream :: "nat \<Rightarrow> 'h batch_adapter_stream \<Rightarrow> 'h batch_adapter_stream" where
  "with_concurrency_stream concurrency a = a\<lparr>bs_concurrency := normalize_concurrency concurrency\<rparr>"

definition with_interleaved :: "bool \<Rightarrow> 'h batch_adapter_stream \<Rightarrow> 'h batch_adapter_stream" where
  "with_interleaved interleaved a = a\<lparr>bs_interleaved := interleaved\<rparr>"

text \<open>\<open>handle\<close> and \<open>stream\<close> on the adapters.\<close>

definition adapter_handle :: "('a event_item \<Rightarrow> 'e + handler_response) batch_adapter \<Rightarrow> 'a batch_request_event \<Rightarrow> 'a handle_run" where
  "adapter_handle a event = handle_start (ba_concurrency a) event"

definition adapter_stream ::
  "ext_lib \<Rightarrow> (ndjson_record \<Rightarrow> bytes res) \<Rightarrow> ('a event_item \<Rightarrow> 'e + handler_response) batch_adapter_stream \<Rightarrow>
   'a batch_request_event \<Rightarrow> bytes concurrent_select" where
  "adapter_stream ext to_vec a event = stream_start ext to_vec (bs_interleaved a) (bs_handler a) (bs_concurrency a) event"

subsection \<open>Both adapters answer the same\<close>

lemma chunk_conversions:
  "chunk_text ext b64 (chunk_from_text s) = (s, b64)" "chunk_text ext b64 (chunk_from_bytes b) = (b64_encode ext b, True)"
  by (simp_all add: chunk_text_def chunk_from_text_def chunk_from_bytes_def)

text \<open>A body in one piece and the same body as a stream of one chunk are the same interleaved records.\<close>

lemma stream_of_one_chunk:
  "body_chunks ext b64 (body_stream [chunk_from_text s]) = body_chunks ext b64 (body_from_text s)"
  "body_chunks ext b64 (body_stream [chunk_from_bytes b]) = body_chunks ext b64 (body_from_bytes b)"
  "body_chunks ext b64 (body_stream []) = body_chunks ext b64 (body_from_unit ())"
  by (simp_all add: chunk_conversions body_stream_def body_from_text_def body_from_bytes_def body_from_unit_def)

lemma handle_result:
  assumes "run (handle_complete ext handler) (handle_start c event) ks = Some (s, os)" "handle_finish s = Some resp"
  shows "resp = \<lparr>as_v = 1, as_responses = map (response_item ext handler) (be_batch event)\<rparr>"
proof -
  have "handle_inv ext handler (be_batch event) s" using handle_run_inv [OF assms(1) handle_start_inv] by simp
  then show ?thesis using handle_finish_inv assms(2) by (metis option.distinct(1) option.inject)
qed

lemma stream_result:
  assumes "list_all select_ok sels" "run poll_step (stream_start ext to_vec interleaved handler c event) sels = Some (t, rs)"
    and "Ready None \<in> set rs"
  shows "mset (yielded rs) =
    mset (map (ndjson_line to_vec) (concat (map (item_records ext interleaved handler) (be_batch event))))"
proof -
  let ?s = "stream_start ext to_vec interleaved handler c event"
  have start: "0 < cs_limit ?s" "select_inv ?s" by (simp_all add: stream_start_def select_inv_def)
  have m: "merges (remaining ?s) (yielded rs) (remaining t)" "remaining t = {#}"
    using poll_run_spec [OF assms(1) start] assms(2,3) by auto
  show ?thesis using merges_mset [OF m(1)] m(2)
    by (simp add: stream_start_def remaining_def map_concat mset_concat comp_def image_mset.compositionality sum_mset_sum_list
        flip: mset_map)
qed

text \<open>C18: The buffered adapter and the streaming adapter that does not interleave (the default) are equivalent: for the
  same handler and batch, whatever their concurrency limits, the order of completions and the scheduling of the streams,
  once both have ended the lines of the record stream are those of the buffered responses, one for each item; only their
  order may differ. The two adapters build their records in separate code.\<close>

theorem adapters_agree:
  assumes "run (handle_complete ext handler) (adapter_handle a event) ks = Some (s, os)" "handle_finish s = Some resp"
    and "list_all select_ok sels" "run poll_step (adapter_stream ext to_vec b event) sels = Some (t, rs)" "Ready None \<in> set rs"
    and "ba_handler a = handler" "bs_handler b = handler" "\<not> bs_interleaved b"
  shows "mset (yielded rs) = mset (map (\<lambda>r. ndjson_line to_vec (LegacyRecord 1 r)) (as_responses resp)) \<and>
    length (yielded rs) = length (be_batch event)"
proof -
  have h: "as_responses resp = map (response_item ext handler) (be_batch event)"
    using handle_result [OF assms(1) [unfolded adapter_handle_def] assms(2)] by simp
  have s: "mset (yielded rs) = mset (map (ndjson_line to_vec) (concat (map (item_records ext False handler) (be_batch event))))"
    using stream_result [OF assms(3) assms(4) [unfolded adapter_stream_def] assms(5)] assms(7,8) by simp
  have "concat (map (item_records ext False handler) xs) = map (\<lambda>i. LegacyRecord 1 (response_item ext handler i)) xs"
    for xs :: "'a event_item list" by (induction xs) (simp_all add: legacy_records)
  then have m: "mset (yielded rs) = mset (map (\<lambda>r. ndjson_line to_vec (LegacyRecord 1 r)) (as_responses resp))"
    using s h by (simp add: comp_def)
  then have "length (yielded rs) = length (as_responses resp)" by (metis length_map size_mset)
  then show ?thesis using m h by simp
qed

theorem adapters_agree_witness:
  "\<exists>s os resp t rs.
     run (handle_complete example_ext example_handler) (adapter_handle (with_concurrency 0 (batch_adapter example_handler)) example_event)
       [0, 0, 0] = Some (s, os) \<and> handle_finish s = Some resp \<and>
     run poll_step (adapter_stream example_ext (\<lambda>r. Inr (record_id r)) (batch_adapter_stream example_handler) example_event)
       (replicate 4 first_stream) = Some (t, rs) \<and>
     mset (yielded rs) = mset (map (\<lambda>r. ndjson_line (\<lambda>r. Inr (record_id r)) (LegacyRecord 1 r)) (as_responses resp)) \<and>
     length (yielded rs) = 3"
proof -
  let ?a = "with_concurrency 0 (batch_adapter example_handler)" and ?b = "batch_adapter_stream example_handler"
  let ?v = "\<lambda>r. Inr (record_id r)"
  obtain s os resp where h: "run (handle_complete example_ext example_handler) (adapter_handle ?a example_event) [0, 0, 0] = Some (s, os)"
    "handle_finish s = Some resp"
    by (simp add: adapter_handle_def with_concurrency_def batch_adapter_def handle_start_def handle_complete_def start_more_def
        example_event_def example_items_def normalize_concurrency_def enumerate_eq_zip handle_finish_def)
  have sels: "list_all select_ok (replicate 4 (first_stream :: bytes list list \<Rightarrow> _))"
    by (simp add: list_all_iff first_stream_ok)
  have "\<exists>t rs. run poll_step (adapter_stream example_ext ?v ?b example_event) (replicate 4 first_stream) = Some (t, rs) \<and> Ready None \<in> set rs"
    by (simp add: adapter_stream_def batch_adapter_stream_def stream_start_def example_event_def example_items_def legacy_records
        poll_step_def poll_next_now fill_def normalize_concurrency_def numeral_eq_Suc)
  then obtain t rs where r: "run poll_step (adapter_stream example_ext ?v ?b example_event) (replicate 4 first_stream) = Some (t, rs)"
    "Ready None \<in> set rs" by blast
  have w: "ba_handler ?a = example_handler" "bs_handler ?b = example_handler" "\<not> bs_interleaved ?b"
    by (simp_all add: with_concurrency_def batch_adapter_def batch_adapter_stream_def)
  show ?thesis using h r(1) adapters_agree [OF h sels r w] by (auto simp: example_event_def example_items_def)
qed

end
