(* ===== verification/Sample_Function.thy ===== *)
theory Sample_Function
  imports Adapter_Api
begin

text \<open>
  The example function \<open>examples/sam/lambda/adapter-rust/src/main.rs\<close>: a handler for one API Gateway request that may
  sleep for a random time and then describes the request in JSON, served in batches by the Rust adapter. The event
  type and its query map are those of \<open>aws_lambda_events\<close>; the drawn numbers and the rendering of JSON are arguments.
\<close>

text \<open>The fields of \<open>ApiGatewayV2httpRequest\<close> the function uses. A query map holds its pairs in the order it iterates.\<close>

record apigw_event =
  av_route_key :: "string option"
  av_raw_path :: "string option"
  av_query :: "(string \<times> string) list"
  av_path_parameters :: "(string, string) hashmap"
  av_request_id :: "string option"
  av_context_route_key :: "string option"
  av_method :: http_method
  av_body :: "string option"
  av_is_base64_encoded :: bool

definition MAX_DELAY_MS :: u64 where "MAX_DELAY_MS = 10000"

definition query_first :: "(string \<times> string) list \<Rightarrow> string \<Rightarrow> string option" where
  "query_first q k = map_option snd (find (\<lambda>p. fst p = k) q)"

definition parse_max_delay_ms :: "apigw_event \<Rightarrow> u64" where
  "parse_max_delay_ms event =
     (case query_first (av_query event) ''max-delay'' of
        None \<Rightarrow> 0
      | Some raw \<Rightarrow> (case parse_u64 raw of Some n \<Rightarrow> min n MAX_DELAY_MS | None \<Rightarrow> 0))"

text \<open>\<open>draw n\<close> is what \<open>fastrand::u64(0..=n)\<close> returns.\<close>

definition random_delay_ms :: "(u64 \<Rightarrow> u64) \<Rightarrow> u64 \<Rightarrow> u64" where
  "random_delay_ms draw max_delay_ms = (if max_delay_ms = 0 then 0 else draw max_delay_ms)"

definition decode_body_utf8 :: "ext_lib \<Rightarrow> apigw_event \<Rightarrow> string" where
  "decode_body_utf8 ext event =
     (case av_body event of
        None \<Rightarrow> []
      | Some body \<Rightarrow>
          if av_is_base64_encoded event
          then (case b64_decode ext body of Inr bytes \<Rightarrow> if utf8_valid bytes then bytes else [] | Inl _ \<Rightarrow> [])
          else body)"

text \<open>Collected into a map, so a repeated key keeps its last value.\<close>

definition query_string_parameters :: "apigw_event \<Rightarrow> (string, string) hashmap" where
  "query_string_parameters event = fold (\<lambda>(k, v) m. hm_insert k v m) (av_query event) []"

definition or_empty :: "string option \<Rightarrow> string" where
  "or_empty x = (case x of Some s \<Rightarrow> s | None \<Rightarrow> [])"

definition describe :: "ext_lib \<Rightarrow> u64 \<Rightarrow> u64 \<Rightarrow> apigw_event \<Rightarrow> json" where
  "describe ext max_delay_ms delay_ms event = JObject
     [(''ok'', JBool True), (''id'', JString (or_empty (av_request_id event))), (''method'', JString (av_method event)),
      (''greeting'', JString (or_empty (hm_get (av_path_parameters event) ''greeting''))),
      (''path'', JString (or_empty (av_raw_path event))),
      (''routeKey'', JString (or_empty (case av_route_key event of Some k \<Rightarrow> Some k | None \<Rightarrow> av_context_route_key event))),
      (''query'', json_string_map (query_string_parameters event)),
      (''pathParameters'', json_string_map (av_path_parameters event)),
      (''maxDelayMs'', JNumber (PosInt max_delay_ms)), (''delayMs'', JNumber (PosInt delay_ms)),
      (''bodyUtf8'', JString (decode_body_utf8 ext event))]"

definition handle_item :: "ext_lib \<Rightarrow> (json \<Rightarrow> string) \<Rightarrow> (u64 \<Rightarrow> u64) \<Rightarrow> apigw_event \<Rightarrow> unit + handler_response" where
  "handle_item ext render draw event =
     (let max_delay_ms = parse_max_delay_ms event;
          delay_ms = random_delay_ms draw max_delay_ms;
          response = handler_response_text 200 (render (describe ext max_delay_ms delay_ms event))
      in Inr (response\<lparr>hr_headers := hm_insert ''content-type'' ''application/json'' (hr_headers response)\<rparr>))"

text \<open>Each item draws for itself.\<close>

definition sample_handler ::
  "ext_lib \<Rightarrow> (json \<Rightarrow> string) \<Rightarrow> (apigw_event event_item \<Rightarrow> u64 \<Rightarrow> u64) \<Rightarrow> apigw_event event_item \<Rightarrow> unit + handler_response" where
  "sample_handler ext render draw item = handle_item ext render (draw item) (it_request item)"

definition handle_batch ::
  "ext_lib \<Rightarrow> (json \<Rightarrow> string) \<Rightarrow> (apigw_event event_item \<Rightarrow> u64 \<Rightarrow> u64) \<Rightarrow> apigw_event batch_request_event \<Rightarrow>
   apigw_event handle_run" where
  "handle_batch ext render draw batch = adapter_handle (batch_adapter (sample_handler ext render draw)) batch"

subsection \<open>Lemmas\<close>

lemma max_delay_bounded: "parse_max_delay_ms event \<le> MAX_DELAY_MS"
  by (simp add: parse_max_delay_ms_def split: option.split)

lemma delay_bounded:
  assumes "\<And>n. draw n \<le> n"
  shows "random_delay_ms draw (parse_max_delay_ms event) \<le> parse_max_delay_ms event"
  using assms by (simp add: random_delay_ms_def)

text \<open>The function reads a body back as the gateway encoded it, when it is text.\<close>

lemma decode_encoded:
  assumes "\<And>b. b64_decode ext (b64_encode ext b) = Inr b" "encode_body ext body = (av_body event, av_is_base64_encoded event)"
  shows "decode_body_utf8 ext event = (if utf8_valid body then body else [])"
proof -
  have "av_body event = fst (encode_body ext body)" "av_is_base64_encoded event = snd (encode_body ext body)" by (simp_all add: assms(2))
  then show ?thesis by (simp add: decode_body_utf8_def encode_body_def assms(1))
qed

lemma query_get:
  "hm_get (query_string_parameters event) k = map_option snd (find (\<lambda>p. fst p = k) (rev (av_query event)))"
proof -
  have "hm_get (fold (\<lambda>(k, v) m. hm_insert k v m) q m) k =
      (case find (\<lambda>p. fst p = k) (rev q) of Some p \<Rightarrow> Some (snd p) | None \<Rightarrow> hm_get m k)" for q m
    by (induction q rule: rev_induct) (auto split: option.splits)
  from this [of "av_query event" "[]"] show ?thesis unfolding query_string_parameters_def by (simp add: hm_get_def split: option.splits)
qed

text \<open>Every request of a batch gets one answer with status 200 under its own id. Its body describes the request: a body
  that is text comes back unchanged through the encoding of the gateway, whatever bytes it has, and the delay stays
  within what the request asked for and ten seconds.\<close>

theorem sample_function_answers:
  assumes "run (handle_complete ext (sample_handler ext render draw)) (handle_batch ext render draw batch) ks = Some (s, os)"
    and "handle_finish s = Some resp" and "\<And>b. b64_decode ext (b64_encode ext b) = Inr b" and "\<And>i n. draw i n \<le> n"
    and "item \<in> set (be_batch batch)"
    and "encode_body ext body = (av_body (it_request item), av_is_base64_encoded (it_request item))" "utf8_valid body"
  shows "\<exists>r \<in> set (as_responses resp). \<exists>max_delay delay. ai_id r = item_id item \<and> ai_status_code r = 200 \<and>
    hm_get (ai_headers r) ''content-type'' = Some ''application/json'' \<and>
    ai_body r = render (describe ext max_delay delay (it_request item)) \<and> delay \<le> max_delay \<and> max_delay \<le> MAX_DELAY_MS \<and>
    json_get (describe ext max_delay delay (it_request item)) ''bodyUtf8'' = Some (JString body)"
proof -
  let ?h = "sample_handler ext render draw"
  let ?e = "it_request item" let ?max = "parse_max_delay_ms ?e" let ?delay = "random_delay_ms (draw item) ?max"
  have "resp = \<lparr>as_v = 1, as_responses = map (response_item ext ?h) (be_batch batch)\<rparr>"
    using handle_result [OF assms(1) [unfolded handle_batch_def adapter_handle_def] assms(2)] .
  then have mem: "response_item ext ?h item \<in> set (as_responses resp)" using assms(5) by simp
  have r: "response_item ext ?h item = \<lparr>ai_id = item_id item, ai_status_code = 200, ai_headers = [(''content-type'', ''application/json'')],
      ai_cookies = [], ai_body = render (describe ext ?max ?delay ?e), ai_is_base64_encoded = False\<rparr>"
  proof -
    have t: "trim ''content-type'' = ''content-type''" by (rule trim_plain) (simp_all add: plain_char_def)
    show ?thesis using t
      by (simp add: response_item_def sample_handler_def handle_item_def Let_def handler_response_text_def hm_insert_def effective_status_def
          normalize_headers_def normalize_cookies_def)
  qed
  have b: "json_get (describe ext ?max ?delay ?e) ''bodyUtf8'' = Some (JString body)"
    using decode_encoded [OF assms(3,6)] assms(7) by (simp add: describe_def)
  have d: "?delay \<le> ?max" using delay_bounded assms(4) by blast
  have parts: "ai_id (response_item ext ?h item) = item_id item" "ai_status_code (response_item ext ?h item) = 200"
    "hm_get (ai_headers (response_item ext ?h item)) ''content-type'' = Some ''application/json''"
    "ai_body (response_item ext ?h item) = render (describe ext ?max ?delay ?e)" unfolding r by simp_all
  show ?thesis
    by (rule bexI [OF _ mem], rule exI [of _ ?max], rule exI [of _ ?delay], intro conjI parts d b max_delay_bounded)
qed

definition example_sample_items :: "apigw_event event_item list" where
  "example_sample_items = [\<lparr>it_request_id = Some ''a'', it_request = \<lparr>av_route_key = None, av_raw_path = Some ''/hi'',
     av_query = [(''max-delay'', ''20000''), (''max-delay'', ''5'')], av_path_parameters = [], av_request_id = Some ''a'',
     av_context_route_key = Some ''GET /hi'', av_method = ''GET'', av_body = Some ''x'', av_is_base64_encoded = False\<rparr>\<rparr>]"

theorem sample_function_answers_witness:
  "\<exists>s os resp. run (handle_complete example_ext (sample_handler example_ext (\<lambda>j. ''j'') (\<lambda>i n. n div 2)))
       (handle_batch example_ext (\<lambda>j. ''j'') (\<lambda>i n. n div 2) \<lparr>be_v = 1, be_batch = example_sample_items, be_meta = None\<rparr>) [0] = Some (s, os) \<and>
     handle_finish s = Some resp \<and> (\<exists>r \<in> set (as_responses resp). ai_id r = ''a'' \<and> ai_status_code r = 200)"
proof -
  let ?h = "sample_handler example_ext (\<lambda>j. ''j'') (\<lambda>i n. n div 2)"
  let ?b = "\<lparr>be_v = 1, be_batch = example_sample_items, be_meta = None\<rparr>"
  obtain s os resp where r: "run (handle_complete example_ext ?h) (handle_batch example_ext (\<lambda>j. ''j'') (\<lambda>i n. n div 2) ?b) [0] = Some (s, os)"
    "handle_finish s = Some resp"
    by (simp add: handle_batch_def adapter_handle_def batch_adapter_def handle_start_def handle_complete_def start_more_def
        example_sample_items_def normalize_concurrency_def enumerate_eq_zip handle_finish_def)
  have l: "b64_decode example_ext (b64_encode example_ext b) = Inr b" "n div 2 \<le> n" for b and n :: u64
    by (simp_all add: example_ext_def word_le_nat_alt unat_div)
  have i: "hd example_sample_items \<in> set (be_batch ?b)" by (simp add: example_sample_items_def)
  have u: "utf8_valid ''x''" by (rule utf8_valid_ascii) simp
  have e: "encode_body example_ext ''x'' = (av_body (it_request (hd example_sample_items)), av_is_base64_encoded (it_request (hd example_sample_items)))"
    using u by (simp add: example_sample_items_def encode_body_def)
  obtain rec where "rec \<in> set (as_responses resp)" "ai_id rec = item_id (hd example_sample_items)" "ai_status_code rec = 200"
    using sample_function_answers [OF r l(1) l(2) i e u] by blast
  moreover have "item_id (hd example_sample_items) = ''a''" by (simp add: item_id_def example_sample_items_def)
  ultimately have "\<exists>rec \<in> set (as_responses resp). ai_id rec = ''a'' \<and> ai_status_code rec = 200" by metis
  then show ?thesis using r by (intro exI conjI)
qed

end
