(* ===== verification/Clock.thy ===== *)
theory Clock
  imports Wait_Policy
begin

text \<open>
  \<open>batching/clock.rs\<close>: the two clocks of the batchers, as functions of what they read. The system clock reads the
  host; the test clock keeps a wall time of its own that is set and advanced. The wall time of a flush is what
  \<open>wall_now_ms\<close> returns.
\<close>

text \<open>The host's clocks: the monotonic one, and the wall clock in nanoseconds relative to the Unix epoch.\<close>

record host_time =
  ht_mono :: time
  ht_wall_ns :: int

text \<open>Trait \<open>Clock\<close>.\<close>

record 's clock_ops =
  mono_now :: "'s \<Rightarrow> time"
  wall_now_ms :: "'s \<Rightarrow> u64"

text \<open>\<open>duration_since\<close> fails before the epoch, which gives the default duration; \<open>as u64\<close> cuts off the high bits.\<close>

definition system_clock :: "host_time clock_ops" where
  "system_clock = \<lparr>mono_now = ht_mono,
     wall_now_ms = (\<lambda>t. word_of_int ((if ht_wall_ns t < 0 then 0 else ht_wall_ns t) div 1000000))\<rparr>"

record test_clock =
  tc_host :: host_time
  tc_wall_ms :: u64

definition test_clock_new :: "host_time \<Rightarrow> u64 \<Rightarrow> test_clock" where
  "test_clock_new host initial_wall_ms = \<lparr>tc_host = host, tc_wall_ms = initial_wall_ms\<rparr>"

definition set_wall_ms :: "u64 \<Rightarrow> test_clock \<Rightarrow> test_clock" where
  "set_wall_ms wall_ms c = c\<lparr>tc_wall_ms := wall_ms\<rparr>"

text \<open>\<open>fetch_add\<close> wraps.\<close>

definition advance_wall_ms :: "u64 \<Rightarrow> test_clock \<Rightarrow> test_clock" where
  "advance_wall_ms delta_ms c = c\<lparr>tc_wall_ms := tc_wall_ms c + delta_ms\<rparr>"

definition test_clock_ops :: "test_clock clock_ops" where
  "test_clock_ops = \<lparr>mono_now = (\<lambda>c. ht_mono (tc_host c)), wall_now_ms = tc_wall_ms\<rparr>"

text \<open>Whole milliseconds since the epoch, zero before it, exact for as long as they fit in 64 bits.\<close>

lemma system_clock_exact:
  assumes "ht_wall_ns t < 2 ^ 64 * 1000000"
  shows "unat (wall_now_ms system_clock t) = nat (ht_wall_ns t) div 1000000"
proof (cases "ht_wall_ns t < 0")
  case False
  have "ht_wall_ns t div 1000000 < 2 ^ 64" using assms by (simp add: div_less_iff_less_mult)
  then have "unat (word_of_int (ht_wall_ns t div 1000000) :: u64) = nat (ht_wall_ns t div 1000000)"
    using False by (simp add: unat_eq_nat_uint word_of_int_inverse pos_imp_zdiv_nonneg_iff)
  then show ?thesis using False by (simp add: system_clock_def nat_div_distrib)
qed (simp add: system_clock_def)

text \<open>The wall clock is not monotonic by itself, but follows the host clock as long as that one does not go back.\<close>

lemma system_clock_mono:
  assumes "ht_wall_ns t \<le> ht_wall_ns t'" "ht_wall_ns t' < 2 ^ 64 * 1000000"
  shows "wall_now_ms system_clock t \<le> wall_now_ms system_clock t'"
proof -
  have "nat (ht_wall_ns t) div 1000000 \<le> nat (ht_wall_ns t') div 1000000" using assms(1) by (simp add: div_le_mono nat_mono)
  then show ?thesis using assms by (simp add: word_le_nat_alt system_clock_exact)
qed

text \<open>A test clock shows what was set last and every advance since then, modulo \<open>2 ^ 64\<close>.\<close>

lemma test_clock_wall:
  "wall_now_ms test_clock_ops (fold advance_wall_ms ds (set_wall_ms w c)) = w + sum_list ds"
  "wall_now_ms test_clock_ops (test_clock_new host w) = w"
proof -
  have "wall_now_ms test_clock_ops (fold advance_wall_ms ds c) = tc_wall_ms c + sum_list ds" for c
    by (induction ds arbitrary: c) (simp_all add: test_clock_ops_def advance_wall_ms_def add_ac)
  then show "wall_now_ms test_clock_ops (fold advance_wall_ms ds (set_wall_ms w c)) = w + sum_list ds"
    by (simp add: set_wall_ms_def)
qed (simp add: test_clock_ops_def test_clock_new_def)

end
